(* ===== verification/Model.thy ===== *)
theory Model imports Prelude begin

text \<open>
  The core graph model of \<open>crates/rto-graph\<close>: provenance (\<open>src/provenance.rs\<close>), node and edge
  kinds, nodes, edges and fact sets (\<open>src/model.rs\<close>) and external references
  (\<open>src/links.rs\<close>).

  A \<open>f64\<close> is its 64-bit pattern: the code compares, stores and returns confidences and never
  computes with them here, so \<open>to_bits\<close> is the identity and the IEEE comparison is written out on
  the bits. A \<open>serde_json::Value\<close> is a tree; objects are association lists.
\<close>

section \<open>Provenance\<close>

datatype provenance =
    Derived | Authored | Inferred | ExternalDerived | ExternalAuthored | ExternalInferred

definition provenance_from_token :: "string \<Rightarrow> provenance option" where
  "provenance_from_token s =
     (if s = ''derived'' then Some Derived
      else if s = ''authored'' then Some Authored
      else if s = ''inferred'' then Some Inferred
      else if s = ''external-derived'' then Some ExternalDerived
      else if s = ''external-authored'' then Some ExternalAuthored
      else if s = ''external-inferred'' then Some ExternalInferred
      else None)"

fun provenance_as_str :: "provenance \<Rightarrow> string" where
  "provenance_as_str Derived = ''derived''"
| "provenance_as_str Authored = ''authored''"
| "provenance_as_str Inferred = ''inferred''"
| "provenance_as_str ExternalDerived = ''external-derived''"
| "provenance_as_str ExternalAuthored = ''external-authored''"
| "provenance_as_str ExternalInferred = ''external-inferred''"

definition provenance_tokens :: "string list" where
  "provenance_tokens =
     [''derived'', ''authored'', ''inferred'',
      ''external-derived'', ''external-authored'', ''external-inferred'']"

fun is_external :: "provenance \<Rightarrow> bool" where
  "is_external ExternalDerived = True"
| "is_external ExternalAuthored = True"
| "is_external ExternalInferred = True"
| "is_external _ = False"

fun tier :: "provenance \<Rightarrow> provenance" where
  "tier Derived = Derived"
| "tier ExternalDerived = Derived"
| "tier Authored = Authored"
| "tier ExternalAuthored = Authored"
| "tier Inferred = Inferred"
| "tier ExternalInferred = Inferred"

fun externalise :: "provenance \<Rightarrow> provenance" where
  "externalise Derived = ExternalDerived"
| "externalise ExternalDerived = ExternalDerived"
| "externalise Authored = ExternalAuthored"
| "externalise ExternalAuthored = ExternalAuthored"
| "externalise Inferred = ExternalInferred"
| "externalise ExternalInferred = ExternalInferred"

lemma provenance_from_as_str [simp]: "provenance_from_token (provenance_as_str p) = Some p"
  by (cases p) (simp_all add: provenance_from_token_def)

lemma provenance_from_token_Some: "provenance_from_token s = Some p \<longleftrightarrow> s = provenance_as_str p"
proof
  assume "provenance_from_token s = Some p"
  then show "s = provenance_as_str p"
    by (auto simp: provenance_from_token_def split: if_splits)
qed simp

lemma provenance_as_str_inj [simp]: "provenance_as_str p = provenance_as_str q \<longleftrightarrow> p = q"
  by (metis option.inject provenance_from_as_str)

text \<open>
  Provenance tokens round-trip: \<open>from_token\<close> accepts exactly the strings \<open>as_str\<close> prints, each
  for the provenance that prints it, and these are exactly the listed tokens, without repetition.
\<close>

theorem provenance_token_roundtrip:
  "(provenance_from_token s = Some p \<longleftrightarrow> s = provenance_as_str p)
   \<and> (provenance_from_token s \<noteq> None \<longleftrightarrow> s \<in> set provenance_tokens)
   \<and> distinct provenance_tokens"
proof (intro conjI)
  show "provenance_from_token s = Some p \<longleftrightarrow> s = provenance_as_str p"
    by (rule provenance_from_token_Some)
  show "provenance_from_token s \<noteq> None \<longleftrightarrow> s \<in> set provenance_tokens"
    by (simp add: provenance_from_token_def provenance_tokens_def)
  show "distinct provenance_tokens" by (simp add: provenance_tokens_def)
qed

text \<open>
  Externalising a fact marks it external, keeps its tier and does nothing more the second time;
  the tier of a fact is one of the three local provenances, and a provenance is determined by its
  tier and by whether it is external.
\<close>

theorem externalise_keeps_tier:
  "is_external (externalise p) \<and> tier (externalise p) = tier p
   \<and> externalise (externalise p) = externalise p
   \<and> \<not> is_external (tier p) \<and> tier (tier p) = tier p
   \<and> (p = q \<longleftrightarrow> tier p = tier q \<and> is_external p = is_external q)"
  by (cases p; cases q) simp_all

section \<open>Node and edge kinds\<close>

datatype node_kind =
    KFn | KStruct | KEnum | KTrait | KModule | KFile | KAdr | KAdrSection | KBlueprint | KDoc
  | KMarker | KOther string

fun node_kind_as_str :: "node_kind \<Rightarrow> string" where
  "node_kind_as_str KFn = ''fn''"
| "node_kind_as_str KStruct = ''struct''"
| "node_kind_as_str KEnum = ''enum''"
| "node_kind_as_str KTrait = ''trait''"
| "node_kind_as_str KModule = ''module''"
| "node_kind_as_str KFile = ''file''"
| "node_kind_as_str KAdr = ''adr''"
| "node_kind_as_str KAdrSection = ''adr_section''"
| "node_kind_as_str KBlueprint = ''blueprint''"
| "node_kind_as_str KDoc = ''doc''"
| "node_kind_as_str KMarker = ''marker''"
| "node_kind_as_str (KOther s) = s"

definition node_kind_from_token :: "string \<Rightarrow> node_kind" where
  "node_kind_from_token s =
     (if s = ''fn'' then KFn
      else if s = ''struct'' then KStruct
      else if s = ''enum'' then KEnum
      else if s = ''trait'' then KTrait
      else if s = ''module'' then KModule
      else if s = ''file'' then KFile
      else if s = ''adr'' then KAdr
      else if s = ''adr_section'' then KAdrSection
      else if s = ''blueprint'' then KBlueprint
      else if s = ''doc'' then KDoc
      else if s = ''marker'' then KMarker
      else KOther s)"

datatype edge_kind =
    ECalls | EImports | EDefines | EContains | EReferences | ESupersedes | EAuthoredBy
  | EInferredFrom | ERelated | EOther string

fun edge_kind_as_str :: "edge_kind \<Rightarrow> string" where
  "edge_kind_as_str ECalls = ''calls''"
| "edge_kind_as_str EImports = ''imports''"
| "edge_kind_as_str EDefines = ''defines''"
| "edge_kind_as_str EContains = ''contains''"
| "edge_kind_as_str EReferences = ''references''"
| "edge_kind_as_str ESupersedes = ''supersedes''"
| "edge_kind_as_str EAuthoredBy = ''authored_by''"
| "edge_kind_as_str EInferredFrom = ''inferred_from''"
| "edge_kind_as_str ERelated = ''related''"
| "edge_kind_as_str (EOther s) = s"

definition edge_kind_from_token :: "string \<Rightarrow> edge_kind" where
  "edge_kind_from_token s =
     (if s = ''calls'' then ECalls
      else if s = ''imports'' then EImports
      else if s = ''defines'' then EDefines
      else if s = ''contains'' then EContains
      else if s = ''references'' then EReferences
      else if s = ''supersedes'' then ESupersedes
      else if s = ''authored_by'' then EAuthoredBy
      else if s = ''inferred_from'' then EInferredFrom
      else if s = ''related'' then ERelated
      else EOther s)"

lemma node_kind_as_from [simp]: "node_kind_as_str (node_kind_from_token s) = s"
  by (simp add: node_kind_from_token_def)

lemma edge_kind_as_from [simp]: "edge_kind_as_str (edge_kind_from_token s) = s"
  by (simp add: edge_kind_from_token_def)

text \<open>Reading back what was printed: the \<open>Other\<close> of a canonical token becomes the canonical kind.\<close>

definition node_kind_norm :: "node_kind \<Rightarrow> node_kind" where
  "node_kind_norm k = node_kind_from_token (node_kind_as_str k)"

definition edge_kind_norm :: "edge_kind \<Rightarrow> edge_kind" where
  "edge_kind_norm k = edge_kind_from_token (edge_kind_as_str k)"

lemma node_kind_norm_idem [simp]: "node_kind_norm (node_kind_norm k) = node_kind_norm k"
  by (simp add: node_kind_norm_def)

lemma edge_kind_norm_idem [simp]: "edge_kind_norm (edge_kind_norm k) = edge_kind_norm k"
  by (simp add: edge_kind_norm_def)

lemma node_kind_norm_named: "(\<And>s. k \<noteq> KOther s) \<Longrightarrow> node_kind_norm k = k"
  by (cases k) (simp_all add: node_kind_norm_def node_kind_from_token_def)

lemma edge_kind_norm_named: "(\<And>s. k \<noteq> EOther s) \<Longrightarrow> edge_kind_norm k = k"
  by (cases k) (simp_all add: edge_kind_norm_def edge_kind_from_token_def)

section \<open>IEEE doubles as bit patterns\<close>

type_synonym f64 = "64 word"

definition f64_is_nan :: "f64 \<Rightarrow> bool" where
  "f64_is_nan b \<longleftrightarrow> 0x7FF0000000000000 < uint b mod 0x8000000000000000"

text \<open>The magnitude bits of a double order like the integers they encode; the top bit is the sign.\<close>

definition f64_rank :: "f64 \<Rightarrow> int" where
  "f64_rank b = (let m = uint b mod 0x8000000000000000
                 in if uint b < 0x8000000000000000 then m else - m)"

definition f64_le :: "f64 \<Rightarrow> f64 \<Rightarrow> bool" where
  "f64_le a b \<longleftrightarrow> \<not> f64_is_nan a \<and> \<not> f64_is_nan b \<and> f64_rank a \<le> f64_rank b"

definition f64_zero :: f64 where "f64_zero = 0"

definition f64_one :: f64 where "f64_one = 0x3FF0000000000000"

section \<open>JSON values\<close>

datatype json =
    JNull | JBool bool | JPosInt "64 word" | JNegInt "64 word" | JFloat f64 | JString string
  | JArray "json list" | JObject "(string \<times> json) list"

fun json_get :: "json \<Rightarrow> string \<Rightarrow> json option" where
  "json_get (JObject m) k = map_of m k"
| "json_get _ k = None"

fun json_as_str :: "json \<Rightarrow> string option" where
  "json_as_str (JString s) = Some s"
| "json_as_str _ = None"

fun json_as_array :: "json \<Rightarrow> json list option" where
  "json_as_array (JArray xs) = Some xs"
| "json_as_array _ = None"

fun json_as_u64 :: "json \<Rightarrow> nat option" where
  "json_as_u64 (JPosInt n) = Some (unat n)"
| "json_as_u64 _ = None"

text \<open>\<open>v.get(k).and_then(Value::as_str)\<close>, the access pattern of the whole crate.\<close>

definition json_get_str :: "json \<Rightarrow> string \<Rightarrow> string option" where
  "json_get_str v k = Option.bind (json_get v k) json_as_str"

section \<open>Nodes, edges, fact sets\<close>

type_synonym u32 = "32 word"

record node_span =
  sp_start :: u32
  sp_end :: u32

record node =
  n_key :: string
  n_kind :: node_kind
  n_name :: string
  n_path :: "string option"
  n_lang :: "string option"
  n_blob_hash :: "string option"
  n_span :: "node_span option"
  n_provenance :: provenance
  n_meta :: json

record edge =
  e_src :: string
  e_dst :: string
  e_kind :: edge_kind
  e_provenance :: provenance
  e_confidence :: "f64 option"
  e_src_ref :: "string option"

record factset =
  fs_nodes :: "node list"
  fs_edges :: "edge list"

definition node_new :: "string \<Rightarrow> node_kind \<Rightarrow> string \<Rightarrow> node" where
  "node_new key kind name =
     \<lparr>n_key = key, n_kind = kind, n_name = name, n_path = None, n_lang = None,
      n_blob_hash = None, n_span = None, n_provenance = Derived, n_meta = JNull\<rparr>"

definition with_provenance :: "node \<Rightarrow> provenance \<Rightarrow> node" where
  "with_provenance n p = n\<lparr>n_provenance := p\<rparr>"

definition edge_derived :: "string \<Rightarrow> string \<Rightarrow> edge_kind \<Rightarrow> edge" where
  "edge_derived src dst kind =
     \<lparr>e_src = src, e_dst = dst, e_kind = kind, e_provenance = Derived,
      e_confidence = None, e_src_ref = None\<rparr>"

definition edge_authored :: "string \<Rightarrow> string \<Rightarrow> edge_kind \<Rightarrow> edge" where
  "edge_authored src dst kind =
     \<lparr>e_src = src, e_dst = dst, e_kind = kind, e_provenance = Authored,
      e_confidence = None, e_src_ref = None\<rparr>"

definition edge_inferred :: "string \<Rightarrow> string \<Rightarrow> edge_kind \<Rightarrow> f64 \<Rightarrow> edge" where
  "edge_inferred src dst kind confidence =
     \<lparr>e_src = src, e_dst = dst, e_kind = kind, e_provenance = Inferred,
      e_confidence = Some confidence, e_src_ref = None\<rparr>"

text \<open>\<open>(0.0..=1.0).contains(&c)\<close> is the pair of IEEE comparisons, so a NaN is outside.\<close>

definition edge_is_valid :: "edge \<Rightarrow> bool" where
  "edge_is_valid e =
     (let inferred = (e_provenance e = Inferred) in
      case e_confidence e of
        Some c \<Rightarrow> inferred \<and> f64_le f64_zero c \<and> f64_le c f64_one
      | None \<Rightarrow> \<not> inferred)"

definition factset_new :: factset where
  "factset_new = \<lparr>fs_nodes = [], fs_edges = []\<rparr>"

definition with_node :: "factset \<Rightarrow> node \<Rightarrow> factset" where
  "with_node f n = f\<lparr>fs_nodes := fs_nodes f @ [n]\<rparr>"

definition with_edge :: "factset \<Rightarrow> edge \<Rightarrow> factset" where
  "with_edge f e = f\<lparr>fs_edges := fs_edges f @ [e]\<rparr>"

definition factset_is_empty :: "factset \<Rightarrow> bool" where
  "factset_is_empty f \<longleftrightarrow> fs_nodes f = [] \<and> fs_edges f = []"

datatype direction = Outgoing | Incoming | Both

lemma edge_derived_valid: "edge_is_valid (edge_derived s d k)"
  by (simp add: edge_is_valid_def edge_derived_def)

lemma edge_authored_valid: "edge_is_valid (edge_authored s d k)"
  by (simp add: edge_is_valid_def edge_authored_def)

lemma edge_is_valid_conf: "edge_is_valid e \<Longrightarrow> (e_confidence e = None) \<longleftrightarrow> e_provenance e \<noteq> Inferred"
  by (auto simp: edge_is_valid_def Let_def split: option.splits)

section \<open>External references\<close>

definition LINKS_REF :: string where "LINKS_REF = ''import:links''"

definition LINKS_AUTHORED_REF :: string where "LINKS_AUTHORED_REF = ''import:links/authored''"

definition EXTERNAL_REF_KIND :: string where "EXTERNAL_REF_KIND = ''external_ref''"

definition external_ref_key :: "string \<Rightarrow> string" where
  "external_ref_key qualified = ''extref:'' @ qualified"

definition external_ref_node_with :: "string \<Rightarrow> provenance \<Rightarrow> node" where
  "external_ref_node_with qualified p =
     (with_provenance (node_new (external_ref_key qualified) (KOther EXTERNAL_REF_KIND) qualified) p)
       \<lparr>n_meta := JObject [(''qualified'', JString qualified)]\<rparr>"

definition external_ref_node :: "string \<Rightarrow> node" where
  "external_ref_node qualified = external_ref_node_with qualified Inferred"

text \<open>\<open>strip_prefix\<close> of a byte string.\<close>

definition strip_prefix :: "string \<Rightarrow> string \<Rightarrow> string option" where
  "strip_prefix p s = (if take (length p) s = p then Some (drop (length p) s) else None)"

lemma strip_prefix_append [simp]: "strip_prefix p (p @ s) = Some s"
  by (simp add: strip_prefix_def)

lemma strip_prefix_Some: "strip_prefix p s = Some r \<longleftrightarrow> s = p @ r"
  by (auto simp: strip_prefix_def) (metis append_take_drop_id)

definition external_ref_target :: "node \<Rightarrow> string option" where
  "external_ref_target n =
     (if node_kind_as_str (n_kind n) \<noteq> EXTERNAL_REF_KIND then None
      else case json_get_str (n_meta n) ''qualified'' of
             Some q \<Rightarrow> Some q
           | None \<Rightarrow> strip_prefix ''extref:'' (n_key n))"

lemma external_ref_target_kind:
  "external_ref_target n \<noteq> None \<Longrightarrow> node_kind_as_str (n_kind n) = EXTERNAL_REF_KIND"
  by (auto simp: external_ref_target_def split: if_splits)

lemma external_ref_target_meta_lost:
  "external_ref_target ((external_ref_node_with q p)\<lparr>n_meta := JNull\<rparr>) = Some q"
  by (simp add: external_ref_target_def external_ref_node_with_def with_provenance_def
      node_new_def EXTERNAL_REF_KIND_def external_ref_key_def json_get_str_def strip_prefix_def)

text \<open>
  An external reference placeholder carries its qualified target: whatever provenance it was
  written with, and even if its JSON payload is lost, the target is read back from it, and distinct
  targets have distinct node keys.
\<close>

theorem external_ref_roundtrip:
  "external_ref_target (external_ref_node_with q p) = Some q
   \<and> external_ref_target ((external_ref_node_with q p)\<lparr>n_meta := JNull\<rparr>) = Some q
   \<and> (n_key (external_ref_node_with q p) = n_key (external_ref_node_with q' p') \<longleftrightarrow> q = q')"
  using external_ref_target_meta_lost
  by (simp add: external_ref_target_def external_ref_node_with_def with_provenance_def
      node_new_def EXTERNAL_REF_KIND_def external_ref_key_def json_get_str_def)

end
