(* ===== verification/Store.thy ===== *)
theory Store imports Model begin

text \<open>
  The graph store of \<open>crates/rto-graph/src/store.rs\<close>: the SQLite tables as lists of rows, one
  definition per method, the SQL text translated operation by operation.

  A row has the columns of the table (migration 14 of \<open>migrations.rs\<close>): text columns hold the tokens
  of \<open>as_str\<close>, spans are optional signed integers, edges refer to nodes by row id. The JSON columns
  (\<open>nodes.meta\<close>, \<open>imports.facts\<close>) hold the value they encode. A write transaction is a function from
  the state to an error or a new state: on an error the caller keeps the old state, which is the
  rollback. Failures of the database file itself are outside the model; constraint failures are in.
\<close>

section \<open>Tables\<close>

datatype corrupt = UnknownProvenance string string | SpanOutOfRange int | UnsupportedSchema string

datatype store_error =
    ForeignKeyFailed
  | UnknownNode string
  | InvalidEdge string string
  | Corrupt corrupt

record node_row =
  nr_id :: nat
  nr_key :: string
  nr_kind :: string
  nr_name :: string
  nr_path :: "string option"
  nr_lang :: "string option"
  nr_blob_hash :: "string option"
  nr_span_start :: "int option"
  nr_span_end :: "int option"
  nr_provenance :: string
  nr_meta :: json

record edge_row =
  er_src :: nat
  er_dst :: nat
  er_kind :: string
  er_provenance :: string
  er_confidence :: "f64 option"
  er_src_ref :: "string option"

record sync_row =
  sy_tree :: string
  sy_env :: "string option"
  sy_worktree :: "string option"

record store =
  nodes_t :: "node_row list"
  edges_t :: "edge_row list"
  sync_t :: "sync_row option"
  imports_t :: "(string \<times> factset) list"
  context_t :: "(string \<times> string \<times> string) list"

definition empty_store :: store where
  "empty_store = \<lparr>nodes_t = [], edges_t = [], sync_t = None, imports_t = [], context_t = []\<rparr>"

text \<open>SQLite gives a new row of an \<open>INTEGER PRIMARY KEY\<close> table the largest id plus one.\<close>

definition next_row_id :: "store \<Rightarrow> nat" where
  "next_row_id s = Suc (fold max (map nr_id (nodes_t s)) 0)"

definition node_row_id :: "store \<Rightarrow> string \<Rightarrow> nat option" where
  "node_row_id s key = map_option nr_id (List.find (\<lambda>r. nr_key r = key) (nodes_t s))"

section \<open>Writing rows\<close>

definition node_columns :: "node \<Rightarrow> nat \<Rightarrow> node_row" where
  "node_columns n i =
     \<lparr>nr_id = i, nr_key = n_key n, nr_kind = node_kind_as_str (n_kind n), nr_name = n_name n,
      nr_path = n_path n, nr_lang = n_lang n, nr_blob_hash = n_blob_hash n,
      nr_span_start = map_option (\<lambda>s. uint (sp_start s)) (n_span n),
      nr_span_end = map_option (\<lambda>s. uint (sp_end s)) (n_span n),
      nr_provenance = provenance_as_str (n_provenance n), nr_meta = n_meta n\<rparr>"

text \<open>\<open>INSERT \<dots> ON CONFLICT(key) DO UPDATE\<close>: a present key keeps its row id.\<close>

definition upsert_node :: "store \<Rightarrow> node \<Rightarrow> store" where
  "upsert_node s n =
     (if node_row_id s (n_key n) \<noteq> None
      then s\<lparr>nodes_t := map (\<lambda>r. if nr_key r = n_key n then node_columns n (nr_id r) else r)
                          (nodes_t s)\<rparr>
      else s\<lparr>nodes_t := nodes_t s @ [node_columns n (next_row_id s)]\<rparr>)"

definition validate_edge :: "edge \<Rightarrow> store_error + unit" where
  "validate_edge e =
     (if edge_is_valid e then Ok () else Err (InvalidEdge (e_src e) (e_dst e)))"

definition edge_row_key :: "edge_row \<Rightarrow> nat \<times> nat \<times> string \<times> string" where
  "edge_row_key r = (er_src r, er_dst r, er_kind r, er_provenance r)"

definition edge_columns :: "edge \<Rightarrow> nat \<Rightarrow> nat \<Rightarrow> edge_row" where
  "edge_columns e i j =
     \<lparr>er_src = i, er_dst = j, er_kind = edge_kind_as_str (e_kind e),
      er_provenance = provenance_as_str (e_provenance e),
      er_confidence = e_confidence e, er_src_ref = e_src_ref e\<rparr>"

text \<open>\<open>ON CONFLICT(src, dst, kind, provenance) DO NOTHING\<close>.\<close>

definition insert_edge_row :: "store \<Rightarrow> edge \<Rightarrow> nat \<Rightarrow> nat \<Rightarrow> store" where
  "insert_edge_row s e i j =
     (if edge_row_key (edge_columns e i j) \<in> edge_row_key ` set (edges_t s) then s
      else s\<lparr>edges_t := edges_t s @ [edge_columns e i j]\<rparr>)"

definition insert_edge :: "store \<Rightarrow> edge \<Rightarrow> store_error + store" where
  "insert_edge s e =
     and_then (validate_edge e) (\<lambda>_.
       case node_row_id s (e_src e) of
         None \<Rightarrow> Err (UnknownNode (e_src e))
       | Some i \<Rightarrow>
         (case node_row_id s (e_dst e) of
            None \<Rightarrow> Err (UnknownNode (e_dst e))
          | Some j \<Rightarrow> Ok (insert_edge_row s e i j)))"

text \<open>The pruning variant: whether both endpoints resolved, and the edge was therefore applied.\<close>

definition insert_edge_if_present :: "store \<Rightarrow> edge \<Rightarrow> store_error + store \<times> bool" where
  "insert_edge_if_present s e =
     and_then (validate_edge e) (\<lambda>_.
       case (node_row_id s (e_src e), node_row_id s (e_dst e)) of
         (Some i, Some j) \<Rightarrow> Ok (insert_edge_row s e i j, True)
       | _ \<Rightarrow> Ok (s, False))"

definition apply_factset :: "store \<Rightarrow> factset \<Rightarrow> store_error + store" where
  "apply_factset s facts = try_fold insert_edge (foldl upsert_node s (fs_nodes facts)) (fs_edges facts)"

definition write_sync_state :: "store \<Rightarrow> string option \<Rightarrow> store" where
  "write_sync_state s tree =
     (case tree of
        Some t \<Rightarrow>
          (case sync_t s of
             None \<Rightarrow> s\<lparr>sync_t := Some \<lparr>sy_tree = t, sy_env = None, sy_worktree = None\<rparr>\<rparr>
           | Some row \<Rightarrow> s\<lparr>sync_t := Some (row\<lparr>sy_tree := t, sy_env := None\<rparr>)\<rparr>)
      | None \<Rightarrow> s\<lparr>sync_t := None\<rparr>)"

definition sync_state :: "store \<Rightarrow> string option" where
  "sync_state s = map_option sy_tree (sync_t s)"

definition sync_env :: "store \<Rightarrow> string option" where
  "sync_env s = Option.bind (sync_t s) sy_env"

definition set_sync_env :: "store \<Rightarrow> string \<Rightarrow> store" where
  "set_sync_env s env = s\<lparr>sync_t := map_option (\<lambda>r. r\<lparr>sy_env := Some env\<rparr>) (sync_t s)\<rparr>"

definition synced_worktree :: "store \<Rightarrow> string option" where
  "synced_worktree s = Option.bind (sync_t s) sy_worktree"

definition set_synced_worktree :: "store \<Rightarrow> string \<Rightarrow> store" where
  "set_synced_worktree s w = s\<lparr>sync_t := map_option (\<lambda>r. r\<lparr>sy_worktree := Some w\<rparr>) (sync_t s)\<rparr>"

text \<open>\<open>DELETE FROM nodes WHERE key = ?\<close> with \<open>foreign_keys = ON\<close> and no cascade: a node an edge still
  refers to cannot go. The count is the number of deleted rows.\<close>

definition delete_node_row :: "store \<Rightarrow> string \<Rightarrow> store_error + store \<times> nat" where
  "delete_node_row s key =
     (case node_row_id s key of
        None \<Rightarrow> Ok (s, 0)
      | Some i \<Rightarrow>
          if list_ex (\<lambda>e. er_src e = i \<or> er_dst e = i) (edges_t s) then Err ForeignKeyFailed
          else Ok (s\<lparr>nodes_t := filter (\<lambda>r. nr_key r \<noteq> key) (nodes_t s)\<rparr>, 1))"

definition delete_edge :: "store \<Rightarrow> edge \<Rightarrow> store" where
  "delete_edge s e =
     s\<lparr>edges_t := filter (\<lambda>r. \<not> (Some (er_src r) = node_row_id s (e_src e)
                               \<and> Some (er_dst r) = node_row_id s (e_dst e)
                               \<and> er_kind r = edge_kind_as_str (e_kind e)
                               \<and> er_provenance r = provenance_as_str (e_provenance e)))
                        (edges_t s)\<rparr>"

definition delete_edges_by_provenance :: "store \<Rightarrow> provenance \<Rightarrow> store \<times> nat" where
  "delete_edges_by_provenance s p =
     (let (gone, kept) = partition (\<lambda>r. er_provenance r = provenance_as_str p) (edges_t s)
      in (s\<lparr>edges_t := kept\<rparr>, length gone))"

definition delete_edges_by_src_ref :: "store \<Rightarrow> string \<Rightarrow> store \<times> nat" where
  "delete_edges_by_src_ref s src_ref =
     (let (gone, kept) = partition (\<lambda>r. er_src_ref r = Some src_ref) (edges_t s)
      in (s\<lparr>edges_t := kept\<rparr>, length gone))"

definition rebuild :: "store \<Rightarrow> factset \<Rightarrow> string option \<Rightarrow> store_error + store" where
  "rebuild s facts tree =
     (let s1 = s\<lparr>edges_t := [], nodes_t := []\<rparr>;
          s2 = foldl upsert_node s1 (fs_nodes facts)
      in and_then (try_fold insert_edge s2 (fs_edges facts)) (\<lambda>s3.
         Ok (write_sync_state s3 tree)))"

section \<open>Reading rows\<close>

definition to_u32 :: "int \<Rightarrow> store_error + u32" where
  "to_u32 v = (if 0 \<le> v \<and> v < 2 ^ 32 then Ok (word_of_int v) else Err (Corrupt (SpanOutOfRange v)))"

definition row_span :: "int option \<Rightarrow> int option \<Rightarrow> store_error + node_span option" where
  "row_span a b =
     (case (a, b) of
        (Some x, Some y) \<Rightarrow>
          and_then (to_u32 x) (\<lambda>i. and_then (to_u32 y) (\<lambda>j. Ok (Some \<lparr>sp_start = i, sp_end = j\<rparr>)))
      | _ \<Rightarrow> Ok None)"

definition row_to_node :: "node_row \<Rightarrow> store_error + node" where
  "row_to_node r =
     and_then (row_span (nr_span_start r) (nr_span_end r)) (\<lambda>span.
       case provenance_from_token (nr_provenance r) of
         None \<Rightarrow> Err (Corrupt (UnknownProvenance ''node'' (nr_provenance r)))
       | Some p \<Rightarrow>
           Ok \<lparr>n_key = nr_key r, n_kind = node_kind_from_token (nr_kind r), n_name = nr_name r,
               n_path = nr_path r, n_lang = nr_lang r, n_blob_hash = nr_blob_hash r,
               n_span = span, n_provenance = p, n_meta = nr_meta r\<rparr>)"

text \<open>A row of \<open>EDGE_SELECT\<close>: the edge columns joined with the keys of its two endpoints.\<close>

record edge_join =
  j_src :: string
  j_dst :: string
  j_kind :: string
  j_provenance :: string
  j_confidence :: "f64 option"
  j_src_ref :: "string option"

definition row_by_id :: "store \<Rightarrow> nat \<Rightarrow> node_row option" where
  "row_by_id s i = List.find (\<lambda>r. nr_id r = i) (nodes_t s)"

definition join_row :: "store \<Rightarrow> edge_row \<Rightarrow> edge_join option" where
  "join_row s r =
     (case (row_by_id s (er_src r), row_by_id s (er_dst r)) of
        (Some a, Some b) \<Rightarrow>
          Some \<lparr>j_src = nr_key a, j_dst = nr_key b, j_kind = er_kind r,
                j_provenance = er_provenance r, j_confidence = er_confidence r,
                j_src_ref = er_src_ref r\<rparr>
      | _ \<Rightarrow> None)"

definition edge_select :: "store \<Rightarrow> edge_join list" where
  "edge_select s = List.map_filter (join_row s) (edges_t s)"

definition row_to_edge :: "edge_join \<Rightarrow> store_error + edge" where
  "row_to_edge j =
     (case provenance_from_token (j_provenance j) of
        None \<Rightarrow> Err (Corrupt (UnknownProvenance ''edge'' (j_provenance j)))
      | Some p \<Rightarrow>
          Ok \<lparr>e_src = j_src j, e_dst = j_dst j, e_kind = edge_kind_from_token (j_kind j),
              e_provenance = p, e_confidence = j_confidence j, e_src_ref = j_src_ref j\<rparr>)"

definition collect_nodes :: "node_row list \<Rightarrow> store_error + node list" where
  "collect_nodes rows = try_map row_to_node rows"

definition collect_edges :: "edge_join list \<Rightarrow> store_error + edge list" where
  "collect_edges rows = try_map row_to_edge rows"

section \<open>Queries\<close>

definition node_count :: "store \<Rightarrow> nat" where
  "node_count s = length (nodes_t s)"

definition file_node_count :: "store \<Rightarrow> nat" where
  "file_node_count s = length (filter (\<lambda>r. nr_kind r = node_kind_as_str KFile) (nodes_t s))"

definition edge_count :: "store \<Rightarrow> nat" where
  "edge_count s = length (edges_t s)"

definition get_node :: "store \<Rightarrow> string \<Rightarrow> store_error + node option" where
  "get_node s key =
     (case List.find (\<lambda>r. nr_key r = key) (nodes_t s) of
        Some r \<Rightarrow> and_then (row_to_node r) (\<lambda>n. Ok (Some n))
      | None \<Rightarrow> Ok None)"

definition all_keys :: "store \<Rightarrow> string list" where
  "all_keys s = sort (map nr_key (nodes_t s))"

definition select_nodes :: "store \<Rightarrow> (node_row \<Rightarrow> bool) \<Rightarrow> store_error + node list" where
  "select_nodes s P = collect_nodes (sort_key nr_key (filter P (nodes_t s)))"

definition all_nodes :: "store \<Rightarrow> store_error + node list" where
  "all_nodes s = select_nodes s (\<lambda>_. True)"

definition nodes_by_kind :: "store \<Rightarrow> node_kind \<Rightarrow> store_error + node list" where
  "nodes_by_kind s k = select_nodes s (\<lambda>r. nr_kind r = node_kind_as_str k)"

definition nodes_by_path :: "store \<Rightarrow> string \<Rightarrow> store_error + node list" where
  "nodes_by_path s path = select_nodes s (\<lambda>r. nr_path r = Some path)"

definition nodes_by_provenance :: "store \<Rightarrow> provenance \<Rightarrow> store_error + node list" where
  "nodes_by_provenance s p = select_nodes s (\<lambda>r. nr_provenance r = provenance_as_str p)"

definition all_edges :: "store \<Rightarrow> store_error + edge list" where
  "all_edges s =
     collect_edges (sort_key (\<lambda>j. (j_src j, j_dst j, j_kind j, j_provenance j)) (edge_select s))"

definition edges_from :: "store \<Rightarrow> string \<Rightarrow> store_error + edge list" where
  "edges_from s key =
     collect_edges (sort_key (\<lambda>j. (j_dst j, j_kind j, j_provenance j))
       (filter (\<lambda>j. j_src j = key) (edge_select s)))"

definition edges_to :: "store \<Rightarrow> string \<Rightarrow> store_error + edge list" where
  "edges_to s key =
     collect_edges (sort_key (\<lambda>j. (j_src j, j_kind j, j_provenance j))
       (filter (\<lambda>j. j_dst j = key) (edge_select s)))"

definition edges_by_provenance :: "store \<Rightarrow> provenance \<Rightarrow> store_error + edge list" where
  "edges_by_provenance s p =
     collect_edges (sort_key (\<lambda>j. (j_src j, j_dst j, j_kind j))
       (filter (\<lambda>j. j_provenance j = provenance_as_str p) (edge_select s)))"

definition export_factset :: "store \<Rightarrow> store_error + factset" where
  "export_factset s =
     and_then (all_nodes s) (\<lambda>ns. and_then (all_edges s) (\<lambda>es.
       Ok \<lparr>fs_nodes = ns, fs_edges = es\<rparr>))"

text \<open>One row per edge for a single direction; \<open>UNION\<close> removes duplicate rows for \<open>Both\<close>.\<close>

definition neighbors :: "store \<Rightarrow> string \<Rightarrow> direction \<Rightarrow> store_error + node list" where
  "neighbors s key dir =
     (let at = (\<lambda>i. case row_by_id s i of Some r \<Rightarrow> nr_key r = key | None \<Rightarrow> False);
          out = List.map_filter (\<lambda>e. if at (er_src e) then row_by_id s (er_dst e) else None) (edges_t s);
          inc = List.map_filter (\<lambda>e. if at (er_dst e) then row_by_id s (er_src e) else None) (edges_t s)
      in collect_nodes (sort_key nr_key
           (case dir of Outgoing \<Rightarrow> out | Incoming \<Rightarrow> inc | Both \<Rightarrow> remdups (out @ inc))))"

section \<open>Writing only the difference\<close>

type_synonym edge_id =
  "string \<times> string \<times> string \<times> string \<times> f64 option \<times> string option"

definition edge_identity :: "edge \<Rightarrow> edge_id" where
  "edge_identity e =
     (e_src e, e_dst e, edge_kind_as_str (e_kind e), provenance_as_str (e_provenance e),
      e_confidence e, e_src_ref e)"

definition reconcile :: "store \<Rightarrow> factset \<Rightarrow> string option \<Rightarrow> store_error + store" where
  "reconcile s facts tree =
     and_then (all_nodes s) (\<lambda>current_nodes.
     and_then (all_edges s) (\<lambda>current_edges.
       let cur_by_key = map_of (map (\<lambda>n. (n_key n, n)) (rev current_nodes));
           new_keys = n_key ` set (fs_nodes facts);
           new_edge_ids = edge_identity ` set (fs_edges facts);
           cur_edge_ids = edge_identity ` set current_edges;
           s1 = foldl (\<lambda>s e. if edge_identity e \<notin> new_edge_ids then delete_edge s e else s)
                  s current_edges
       in and_then (try_fold
              (\<lambda>s old. if n_key old \<notin> new_keys
                       then and_then (delete_node_row s (n_key old)) (\<lambda>(s', _). Ok s') else Ok s)
              s1 current_nodes) (\<lambda>s2.
          let s3 = foldl (\<lambda>s n. if cur_by_key (n_key n) \<noteq> Some n then upsert_node s n else s)
                     s2 (fs_nodes facts)
          in and_then (try_fold
               (\<lambda>s e. if edge_identity e \<notin> cur_edge_ids then insert_edge s e else Ok s)
               s3 (fs_edges facts)) (\<lambda>s4.
             Ok (write_sync_state s4 tree)))))"

end
