(* ===== verification/Strings.thy ===== *)
theory Strings imports Prelude begin

text \<open>
  The string operations of Rust's standard library the program uses. A \<open>str\<close> is its UTF-8 bytes, so
  equality, order, prefixes and substrings are those of byte lists; what works on characters works on
  the byte group of each character.
\<close>

section \<open>Characters\<close>

definition continuation :: "char \<Rightarrow> bool" where
  "continuation b \<longleftrightarrow> 128 \<le> (of_char b :: nat) \<and> (of_char b :: nat) < 192"

text \<open>\<open>str::chars\<close>: a lead byte and the continuation bytes after it.\<close>

function chars :: "string \<Rightarrow> string list" where
  "chars [] = []"
| "chars (b # bs) = (b # takeWhile continuation bs) # chars (dropWhile continuation bs)"
  by pat_completeness auto

termination
  by (relation "measure length") (auto simp: length_dropWhile_le le_imp_less_Suc)

lemma concat_chars [simp]: "concat (chars s) = s"
  by (induction s rule: chars.induct) simp_all

lemma chars_inj: "chars s = chars t \<longleftrightarrow> s = t"
  by (metis concat_chars)

lemma chars_nonempty: "c \<in> set (chars s) \<Longrightarrow> c \<noteq> []"
  by (induction s rule: chars.induct) auto

text \<open>\<open>char::is_whitespace\<close>: the Unicode \<open>White_Space\<close> characters, as UTF-8.\<close>

definition whitespace :: "string list" where
  "whitespace =
     [[CHR 0x09], [CHR 0x0A], [CHR 0x0B], [CHR 0x0C], [CHR 0x0D], [CHR 0x20],
      [CHR 0xC2, CHR 0x85], [CHR 0xC2, CHR 0xA0], [CHR 0xE1, CHR 0x9A, CHR 0x80],
      [CHR 0xE2, CHR 0x80, CHR 0x80], [CHR 0xE2, CHR 0x80, CHR 0x81],
      [CHR 0xE2, CHR 0x80, CHR 0x82], [CHR 0xE2, CHR 0x80, CHR 0x83],
      [CHR 0xE2, CHR 0x80, CHR 0x84], [CHR 0xE2, CHR 0x80, CHR 0x85],
      [CHR 0xE2, CHR 0x80, CHR 0x86], [CHR 0xE2, CHR 0x80, CHR 0x87],
      [CHR 0xE2, CHR 0x80, CHR 0x88], [CHR 0xE2, CHR 0x80, CHR 0x89],
      [CHR 0xE2, CHR 0x80, CHR 0x8A], [CHR 0xE2, CHR 0x80, CHR 0xA8],
      [CHR 0xE2, CHR 0x80, CHR 0xA9], [CHR 0xE2, CHR 0x80, CHR 0xAF],
      [CHR 0xE2, CHR 0x81, CHR 0x9F], [CHR 0xE3, CHR 0x80, CHR 0x80]]"

definition is_whitespace :: "string \<Rightarrow> bool" where
  "is_whitespace c \<longleftrightarrow> c \<in> set whitespace"

definition trim_start :: "string \<Rightarrow> string" where
  "trim_start s = concat (dropWhile is_whitespace (chars s))"

definition trim_end :: "string \<Rightarrow> string" where
  "trim_end s = concat (rev (dropWhile is_whitespace (rev (chars s))))"

definition trim :: "string \<Rightarrow> string" where
  "trim s = trim_end (trim_start s)"

definition is_ascii_alphanumeric :: "char \<Rightarrow> bool" where
  "is_ascii_alphanumeric c \<longleftrightarrow>
     (let n = (of_char c :: nat) in 48 \<le> n \<and> n \<le> 57 \<or> 65 \<le> n \<and> n \<le> 90 \<or> 97 \<le> n \<and> n \<le> 122)"

definition is_ascii_digit :: "char \<Rightarrow> bool" where
  "is_ascii_digit b \<longleftrightarrow> 48 \<le> (of_char b :: nat) \<and> (of_char b :: nat) \<le> 57"

definition to_ascii_lower :: "char \<Rightarrow> char" where
  "to_ascii_lower c = (let n = (of_char c :: nat) in if 65 \<le> n \<and> n \<le> 90 then char_of (n + 32) else c)"

section \<open>Searching and splitting\<close>

definition starts_with :: "string \<Rightarrow> string \<Rightarrow> bool" where
  "starts_with s t \<longleftrightarrow> take (length t) s = t"

fun contains :: "string \<Rightarrow> string \<Rightarrow> bool" where
  "contains [] t = (t = [])"
| "contains (c # s) t = (starts_with (c # s) t \<or> contains s t)"

text \<open>\<open>str::split\<close> on one (ASCII) character: one piece more than there are separators.\<close>

fun split_on :: "char \<Rightarrow> string \<Rightarrow> string list" where
  "split_on sep [] = [[]]"
| "split_on sep (c # s) =
     (if c = sep then [] # split_on sep s
      else (case split_on sep s of p # ps \<Rightarrow> (c # p) # ps | [] \<Rightarrow> [[c]]))"

text \<open>\<open>split_once\<close>: the text before and after the first separator.\<close>

fun split_once :: "char \<Rightarrow> string \<Rightarrow> (string \<times> string) option" where
  "split_once sep [] = None"
| "split_once sep (c # s) =
     (if c = sep then Some ([], s)
      else map_option (\<lambda>(a, b). (c # a, b)) (split_once sep s))"

text \<open>\<open>split_whitespace\<close>: the non-empty runs between whitespace characters.\<close>

fun words_of :: "string list \<Rightarrow> string list \<Rightarrow> string list list" where
  "words_of [] acc = (if acc = [] then [] else [rev acc])"
| "words_of (c # cs) acc =
     (if is_whitespace c then (if acc = [] then words_of cs [] else rev acc # words_of cs [])
      else words_of cs (c # acc))"

definition split_whitespace :: "string \<Rightarrow> string list" where
  "split_whitespace s = map concat (words_of (chars s) [])"

text \<open>\<open>str::split\<close> on a two-byte separator.\<close>

fun split_on2 :: "char \<Rightarrow> char \<Rightarrow> string \<Rightarrow> string list" where
  "split_on2 a b (c # d # s) =
     (if c = a \<and> d = b then [] # split_on2 a b s
      else (case split_on2 a b (d # s) of p # ps \<Rightarrow> (c # p) # ps | [] \<Rightarrow> [[c]]))"
| "split_on2 a b s = [s]"

text \<open>\<open>str::find\<close>: the first occurrence. \<open>str::rsplit_once\<close>: around the last occurrence of a non-empty separator.\<close>

fun find_str :: "string \<Rightarrow> string \<Rightarrow> nat option" where
  "find_str [] t = (if t = [] then Some 0 else None)"
| "find_str (c # s) t = (if starts_with (c # s) t then Some 0 else map_option Suc (find_str s t))"

fun rsplit_once :: "string \<Rightarrow> string \<Rightarrow> (string \<times> string) option" where
  "rsplit_once sep [] = None"
| "rsplit_once sep (c # s) =
     (case rsplit_once sep s of
        Some (a, b) \<Rightarrow> Some (c # a, b)
      | None \<Rightarrow> if starts_with (c # s) sep then Some ([], drop (length sep) (c # s)) else None)"

definition ends_with :: "string \<Rightarrow> string \<Rightarrow> bool" where
  "ends_with s t \<longleftrightarrow> t = drop (length s - length t) s"

definition strip_suffix :: "string \<Rightarrow> string \<Rightarrow> string option" where
  "strip_suffix t s = (if ends_with s t then Some (take (length s - length t) s) else None)"

section \<open>Bytes that may not be text\<close>

definition between :: "nat \<Rightarrow> nat \<Rightarrow> char \<Rightarrow> bool" where
  "between a b c \<longleftrightarrow> a \<le> of_char c \<and> of_char c \<le> b"

fun utf8_valid :: "string \<Rightarrow> bool" where
  "utf8_valid [] = True"
| "utf8_valid (b # bs) =
     (if between 0 0x7F b then utf8_valid bs
      else if between 0xC2 0xDF b then (case bs of c # cs \<Rightarrow> continuation c \<and> utf8_valid cs | _ \<Rightarrow> False)
      else if between 0xE0 0xEF b then (case bs of c # d # cs \<Rightarrow>
          continuation c \<and> (between 0xE0 0xE0 b \<longrightarrow> between 0xA0 0xBF c) \<and> (between 0xED 0xED b \<longrightarrow> between 0x80 0x9F c)
          \<and> continuation d \<and> utf8_valid cs | _ \<Rightarrow> False)
      else if between 0xF0 0xF4 b then (case bs of c # d # e # cs \<Rightarrow>
          continuation c \<and> (between 0xF0 0xF0 b \<longrightarrow> between 0x90 0xBF c) \<and> (between 0xF4 0xF4 b \<longrightarrow> between 0x80 0x8F c)
          \<and> continuation d \<and> continuation e \<and> utf8_valid cs | _ \<Rightarrow> False)
      else False)"

definition strip_cr :: "string \<Rightarrow> string" where
  "strip_cr s = (if s \<noteq> [] \<and> last s = CHR 0x0D then butlast s else s)"

definition lines_of :: "string \<Rightarrow> string list" where
  "lines_of file = (let ps = split_on CHR 0x0A file in map strip_cr (butlast ps) @ (if last ps = [] then [] else [last ps]))"

text \<open>\<open>String::from_utf8_lossy\<close>: each maximal run of bytes that starts like a character and does not finish as one
  becomes U+FFFD. \<open>utf8_step\<close> says whether the first bytes are a character, and how many they are.\<close>

fun utf8_step :: "string \<Rightarrow> bool \<times> nat" where
  "utf8_step [] = (True, 0)"
| "utf8_step (b # bs) =
     (let second = (\<lambda>c. continuation c \<and> (between 0xE0 0xE0 b \<longrightarrow> between 0xA0 0xBF c)
           \<and> (between 0xED 0xED b \<longrightarrow> between 0x80 0x9F c) \<and> (between 0xF0 0xF0 b \<longrightarrow> between 0x90 0xBF c)
           \<and> (between 0xF4 0xF4 b \<longrightarrow> between 0x80 0x8F c))
      in if between 0 0x7F b then (True, 1)
         else if between 0xC2 0xDF b then (case bs of c # _ \<Rightarrow> if second c then (True, 2) else (False, 1) | [] \<Rightarrow> (False, 1))
         else if between 0xE0 0xEF b then
           (case bs of c # cs \<Rightarrow> if second c
                then (case cs of d # _ \<Rightarrow> if continuation d then (True, 3) else (False, 2) | [] \<Rightarrow> (False, 2))
                else (False, 1)
            | [] \<Rightarrow> (False, 1))
         else if between 0xF0 0xF4 b then
           (case bs of c # cs \<Rightarrow> if second c
                then (case cs of d # ds \<Rightarrow> if continuation d
                     then (case ds of e # _ \<Rightarrow> if continuation e then (True, 4) else (False, 3) | [] \<Rightarrow> (False, 3))
                     else (False, 2) | [] \<Rightarrow> (False, 2))
                else (False, 1)
            | [] \<Rightarrow> (False, 1))
         else (False, 1))"

definition replacement :: string where "replacement = [CHR 0xEF, CHR 0xBF, CHR 0xBD]"

lemma utf8_step_pos: "0 < snd (utf8_step (b # bs))"
  by (simp add: Let_def split: list.splits)

function utf8_lossy :: "string \<Rightarrow> string" where
  "utf8_lossy [] = []"
| "utf8_lossy (b # bs) =
     (case utf8_step (b # bs) of (good, n) \<Rightarrow>
        (if good then take n (b # bs) else replacement) @ utf8_lossy (drop n (b # bs)))"
  by pat_completeness auto

termination
proof (relation "measure length", simp)
  fix b bs good n
  assume "(good, n) = utf8_step (b # bs)"
  then have "0 < n" using utf8_step_pos [of b bs] by (metis snd_conv)
  then show "(drop n (b # bs), b # bs) \<in> measure length" by simp
qed

declare utf8_step.simps [simp del] utf8_lossy.simps(2) [simp del]

lemma split_on_not_Nil [simp]: "split_on sep s \<noteq> []"
  by (cases s) (auto split: list.splits)

lemma contains_iff: "contains s t \<longleftrightarrow> (\<exists>a b. s = a @ t @ b)"
proof (induction s)
  case Nil
  then show ?case by auto
next
  case (Cons c s)
  have "starts_with (c # s) t \<longleftrightarrow> (\<exists>b. c # s = t @ b)"
    unfolding starts_with_def by (metis append_eq_conv_conj append_take_drop_id)
  with Cons show ?case
    by simp (metis (no_types, opaque_lifting) append_Cons append_Nil list.sel(3) neq_Nil_conv)
qed

lemma split_on_join:
  "\<exists>ps. split_on sep s = ps \<and> s = concat (map (\<lambda>p. p @ [sep]) (butlast ps)) @ last ps"
proof (induction s)
  case (Cons c s)
  obtain p ps where p: "split_on sep s = p # ps" by (cases "split_on sep s") auto
  with Cons show ?case by (auto split: if_splits)
qed simp

lemma utf8_valid_step:
  assumes "utf8_valid (b # bs)"
  shows "\<exists>n. utf8_step (b # bs) = (True, n) \<and> utf8_valid (drop n (b # bs))"
proof -
  have narrow: "\<not> between 0xE0 0xE0 b" if "between 0xF0 0xF4 b \<or> between 0xC2 0xDF b" for b using that by (auto simp: between_def)
  have narrow': "\<not> between 0xED 0xED b" if "between 0xF0 0xF4 b \<or> between 0xC2 0xDF b" for b using that by (auto simp: between_def)
  have narrow4: "\<not> between 0xF0 0xF0 b" "\<not> between 0xF4 0xF4 b" if "between 0xE0 0xEF b \<or> between 0xC2 0xDF b" for b
    using that by (auto simp: between_def)
  consider "between 0 0x7F b" | "\<not> between 0 0x7F b" "between 0xC2 0xDF b"
    | "\<not> between 0 0x7F b" "\<not> between 0xC2 0xDF b" "between 0xE0 0xEF b"
    | "\<not> between 0 0x7F b" "\<not> between 0xC2 0xDF b" "\<not> between 0xE0 0xEF b" "between 0xF0 0xF4 b"
    using assms by (auto split: if_splits)
  then show ?thesis
  proof cases
    case 1
    with assms show ?thesis by (simp add: utf8_step.simps)
  next
    case 2
    with assms obtain c cs where "bs = c # cs" "continuation c" "utf8_valid cs" by (auto split: list.splits)
    with 2 show ?thesis by (simp add: utf8_step.simps narrow narrow' narrow4)
  next
    case 3
    with assms obtain c d cs where "bs = c # d # cs" "continuation c" "continuation d" "utf8_valid cs"
      "between 0xE0 0xE0 b \<longrightarrow> between 0xA0 0xBF c" "between 0xED 0xED b \<longrightarrow> between 0x80 0x9F c" by (auto split: list.splits)
    with 3 show ?thesis by (simp add: utf8_step.simps narrow4)
  next
    case 4
    with assms obtain c d e cs where "bs = c # d # e # cs" "continuation c" "continuation d" "continuation e" "utf8_valid cs"
      "between 0xF0 0xF0 b \<longrightarrow> between 0x90 0xBF c" "between 0xF4 0xF4 b \<longrightarrow> between 0x80 0x8F c" by (auto split: list.splits)
    with 4 show ?thesis by (simp add: utf8_step.simps narrow narrow')
  qed
qed

lemma utf8_valid_lossy: "utf8_valid s \<Longrightarrow> utf8_lossy s = s"
proof (induction s rule: utf8_lossy.induct)
  case (2 b bs)
  from utf8_valid_step [OF 2(2)] obtain n where n: "utf8_step (b # bs) = (True, n)" "utf8_valid (drop n (b # bs))" by blast
  with 2(1) [OF n(1) [symmetric] n(2)] show ?case by (simp add: utf8_lossy.simps(2))
qed simp

lemma rsplit_once_None: "c \<notin> set b \<Longrightarrow> rsplit_once (c # cs) b = None"
  by (induction b) (auto simp: starts_with_def)

lemma rsplit_once_sep: "c \<notin> set b \<Longrightarrow> c \<notin> set cs \<Longrightarrow> rsplit_once (c # cs) (c # cs @ b) = Some ([], b)"
  by (simp add: rsplit_once_None starts_with_def)

lemma rsplit_once_last:
  assumes "c \<notin> set b" "c \<notin> set cs"
  shows "rsplit_once (c # cs) (a @ c # cs @ b) = Some (a, b)"
  using rsplit_once_sep [OF assms] by (induction a) (simp_all del: rsplit_once.simps(2), simp)

lemma rsplit_once_Some: "sep \<noteq> [] \<Longrightarrow> rsplit_once sep s = Some (a, b) \<Longrightarrow> s = a @ sep @ b"
proof (induction s arbitrary: a)
  case (Cons c s)
  from Cons.prems show ?case
  proof (cases "rsplit_once sep s")
    case None
    with Cons.prems(2) have "starts_with (c # s) sep" "a = []" "b = drop (length sep) (c # s)"
      by (auto split: if_splits)
    then show ?thesis by (metis append_Nil append_take_drop_id starts_with_def)
  next
    case (Some p)
    with Cons show ?thesis by (auto split: prod.splits)
  qed
qed simp

end
