(* ===== verification/Paths.thy ===== *)
theory Paths imports Strings "HOL-Library.Word" "HOL-Library.Sublist" begin

text \<open>
  \<open>crates/rto-graph/src/paths.rs\<close>: the path policy and its glob matcher, with the table of failed
  states the two memoised loops thread through, and the policy's cache fingerprint.

  A table index out of range would panic; that every index stays inside is proved.
\<close>

unbundle bit_operations_syntax

section \<open>The memoised matcher\<close>

text \<open>Both levels of the matcher are the same loop, over path segments with \<open>**\<close> and over characters
  with \<open>*\<close>: \<open>star\<close> says which pattern items take any run, \<open>ok\<close> which other item takes a given one.\<close>

function memo :: "('p \<Rightarrow> bool) \<Rightarrow> ('p \<Rightarrow> 'c \<Rightarrow> bool) \<Rightarrow> 'p list \<Rightarrow> 'c list \<Rightarrow> bool list \<Rightarrow> nat \<Rightarrow> bool \<times> bool list"
  and memo_any :: "('p \<Rightarrow> bool) \<Rightarrow> ('p \<Rightarrow> 'c \<Rightarrow> bool) \<Rightarrow> 'p list \<Rightarrow> 'c list \<Rightarrow> bool list \<Rightarrow> nat \<Rightarrow> bool \<times> bool list"
where
  "memo star ok pat seg failed stride =
     (let slot = length pat * stride + length seg
      in if failed ! slot then (False, failed)
         else (case (case pat of
                   [] \<Rightarrow> (seg = [], failed)
                 | p # ps \<Rightarrow>
                     if star p then memo_any star ok ps seg failed stride
                     else (case seg of
                         [] \<Rightarrow> (False, failed)
                       | c # cs \<Rightarrow> if ok p c then memo star ok ps cs failed stride else (False, failed)))
               of (matched, failed') \<Rightarrow> (matched, if matched then failed' else failed'[slot := True])))"
| "memo_any star ok ps seg failed stride =
     (case memo star ok ps seg failed stride of (matched, failed') \<Rightarrow>
        if matched then (True, failed')
        else (case seg of [] \<Rightarrow> (False, failed') | c # cs \<Rightarrow> memo_any star ok ps cs failed' stride))"
  by pat_completeness auto

termination
  by (relation "inv_image (less_than <*lex*> less_than)
        (case_sum (\<lambda>(_, _, pat, seg, _, _). (2 * length pat, 0))
                  (\<lambda>(_, _, ps, seg, _, _). (Suc (2 * length ps), length seg)))") auto

declare memo.simps [simp del] memo_any.simps [simp del]

definition match_token :: "string \<Rightarrow> string \<Rightarrow> bool" where
  "match_token pattern s =
     (let pat = chars pattern; cs = chars s; stride = length cs + 1;
          failed = replicate ((length pat + 1) * stride) False
      in fst (memo (\<lambda>p. p = ''*'') (\<lambda>p c. p = ''?'' \<or> c = p) pat cs failed stride))"

definition match_segments :: "string list \<Rightarrow> string list \<Rightarrow> bool" where
  "match_segments pat seg =
     (let stride = length seg + 1; failed = replicate ((length pat + 1) * stride) False
      in fst (memo (\<lambda>p. p = ''**'') match_token pat seg failed stride))"

definition glob_match :: "string \<Rightarrow> string \<Rightarrow> bool" where
  "glob_match pattern path = match_segments (split_on CHR ''/'' pattern) (split_on CHR ''/'' path)"

section \<open>What a glob means\<close>

text \<open>The items split into consecutive runs, one per pattern item: any run for a star, one matching
  item for anything else.\<close>

definition glob_spec :: "('p \<Rightarrow> bool) \<Rightarrow> ('p \<Rightarrow> 'c \<Rightarrow> bool) \<Rightarrow> 'p list \<Rightarrow> 'c list \<Rightarrow> bool" where
  "glob_spec star ok pat seg \<longleftrightarrow>
     (\<exists>runs. seg = concat runs \<and> list_all2 (\<lambda>p run. star p \<or> (\<exists>c. run = [c] \<and> ok p c)) pat runs)"

lemma glob_spec_Nil [simp]: "glob_spec star ok [] seg \<longleftrightarrow> seg = []"
  by (auto simp: glob_spec_def)

lemma glob_spec_Cons:
  "glob_spec star ok (p # ps) seg \<longleftrightarrow>
     (\<exists>run rest. seg = run @ rest \<and> (star p \<or> (\<exists>c. run = [c] \<and> ok p c)) \<and> glob_spec star ok ps rest)"
proof
  assume "glob_spec star ok (p # ps) seg"
  then obtain runs where r: "seg = concat runs"
    "list_all2 (\<lambda>p run. star p \<or> (\<exists>c. run = [c] \<and> ok p c)) (p # ps) runs"
    by (auto simp: glob_spec_def)
  from r(2) obtain run rest where run: "runs = run # rest" "star p \<or> (\<exists>c. run = [c] \<and> ok p c)"
    "list_all2 (\<lambda>p run. star p \<or> (\<exists>c. run = [c] \<and> ok p c)) ps rest"
    by (auto simp only: list_all2_Cons1)
  then have "glob_spec star ok ps (concat rest)" unfolding glob_spec_def by blast
  then show "\<exists>run rest. seg = run @ rest \<and> (star p \<or> (\<exists>c. run = [c] \<and> ok p c)) \<and> glob_spec star ok ps rest"
    using r(1) run(1,2) by (intro exI [of _ run] exI [of _ "concat rest"]) simp
next
  assume "\<exists>run rest. seg = run @ rest \<and> (star p \<or> (\<exists>c. run = [c] \<and> ok p c)) \<and> glob_spec star ok ps rest"
  then obtain run rest where run: "seg = run @ rest" "star p \<or> (\<exists>c. run = [c] \<and> ok p c)"
    "glob_spec star ok ps rest" by blast
  from run(3) obtain runs where runs: "rest = concat runs"
    "list_all2 (\<lambda>p run. star p \<or> (\<exists>c. run = [c] \<and> ok p c)) ps runs"
    unfolding glob_spec_def by blast
  have "seg = concat (run # runs)" using run(1) runs(1) by simp
  moreover have "list_all2 (\<lambda>p run. star p \<or> (\<exists>c. run = [c] \<and> ok p c)) (p # ps) (run # runs)"
    using run(2) runs(2) by (simp only: list_all2_Cons simp_thms)
  ultimately show "glob_spec star ok (p # ps) seg" unfolding glob_spec_def by blast
qed

lemma glob_spec_star:
  "star p \<Longrightarrow> glob_spec star ok (p # ps) seg \<longleftrightarrow> (\<exists>rest. suffix rest seg \<and> glob_spec star ok ps rest)"
  by (auto simp: glob_spec_Cons suffix_def)

lemma glob_spec_item:
  "\<not> star p \<Longrightarrow> glob_spec star ok (p # ps) seg \<longleftrightarrow>
     (\<exists>c cs. seg = c # cs \<and> ok p c \<and> glob_spec star ok ps cs)"
  unfolding glob_spec_Cons by (metis append_Cons append_Nil)

section \<open>The table only remembers real failures\<close>

definition table_ok :: "('p \<Rightarrow> bool) \<Rightarrow> ('p \<Rightarrow> 'c \<Rightarrow> bool) \<Rightarrow> 'p list \<Rightarrow> 'c list \<Rightarrow> bool list \<Rightarrow> bool" where
  "table_ok star ok P S failed \<longleftrightarrow>
     length failed = (length P + 1) * (length S + 1)
     \<and> (\<forall>pat seg. suffix pat P \<longrightarrow> suffix seg S \<longrightarrow> failed ! (length pat * (length S + 1) + length seg)
          \<longrightarrow> \<not> glob_spec star ok pat seg)"

lemma suffix_eq_length: "suffix a s \<Longrightarrow> suffix b s \<Longrightarrow> length a = length b \<Longrightarrow> a = b"
  by (auto simp: suffix_def)

lemma slot_inj:
  assumes "a * (n + 1) + b = c * (n + 1) + (d::nat)" "b \<le> n" "d \<le> n"
  shows "a = c \<and> b = d"
proof -
  have "a = (a * (n + 1) + b) div (n + 1)" using assms(2) by (simp del: mult_Suc_right)
  also have "\<dots> = c" using assms(1,3) by (simp del: mult_Suc_right)
  finally show ?thesis using assms(1) by simp
qed

lemma slot_bound:
  assumes "suffix pat P" "suffix seg S"
  shows "length pat * (length S + 1) + length seg < (length P + 1) * (length S + 1)"
proof -
  have "length pat \<le> length P" "length seg \<le> length S"
    using assms by (auto dest: suffix_length_le)
  then have "length pat * (length S + 1) + length seg < length pat * (length S + 1) + (length S + 1)"
    by simp
  also have "\<dots> = (length pat + 1) * (length S + 1)" by simp
  also have "\<dots> \<le> (length P + 1) * (length S + 1)"
    using \<open>length pat \<le> length P\<close> by (intro mult_le_mono1) simp
  finally show ?thesis .
qed

lemma table_fail:
  assumes "table_ok star ok P S failed" "suffix pat P" "suffix seg S" "\<not> glob_spec star ok pat seg"
  shows "table_ok star ok P S (failed[length pat * (length S + 1) + length seg := True])"
proof -
  let ?slot = "\<lambda>pat seg. length pat * (length S + 1) + length seg"
  have "\<not> glob_spec star ok pat' seg'"
    if "suffix pat' P" "suffix seg' S" "failed[?slot pat seg := True] ! ?slot pat' seg'" for pat' seg'
  proof (cases "?slot pat' seg' = ?slot pat seg")
    case True
    have "length pat' = length pat \<and> length seg' = length seg"
      by (rule slot_inj [OF True]) (use that assms(3) in \<open>auto dest: suffix_length_le\<close>)
    then have "pat' = pat" "seg' = seg" using that assms(2,3) suffix_eq_length by blast+
    then show ?thesis using assms(4) by simp
  next
    case False
    then have "failed ! ?slot pat' seg'" using that(3) by (simp only: nth_list_update_neq)
    then show ?thesis using assms(1) that unfolding table_ok_def by blast
  qed
  then show ?thesis using assms(1) unfolding table_ok_def by (simp only: length_list_update) blast
qed

section \<open>The loop decides the meaning\<close>

lemma suffix_Cons_iff: "suffix rest (c # cs) \<longleftrightarrow> rest = c # cs \<or> suffix rest cs"
  by (auto simp: suffix_Cons)

lemma memo_correct:
  "memo star ok pat seg failed stride = (m, failed') \<Longrightarrow> stride = length S + 1 \<Longrightarrow>
     table_ok star ok P S failed \<Longrightarrow> suffix pat P \<Longrightarrow> suffix seg S \<Longrightarrow>
     m = glob_spec star ok pat seg \<and> table_ok star ok P S failed'"
  "memo_any star ok ps seg failed stride = (m, failed') \<Longrightarrow> stride = length S + 1 \<Longrightarrow>
     table_ok star ok P S failed \<Longrightarrow> suffix ps P \<Longrightarrow> suffix seg S \<Longrightarrow>
     m = (\<exists>rest. suffix rest seg \<and> glob_spec star ok ps rest) \<and> table_ok star ok P S failed'"
proof (induction star ok pat seg failed stride and star ok ps seg failed stride
    arbitrary: m failed' and m failed' rule: memo_memo_any.induct)
  case (1 star ok pat seg failed stride)
  let ?slot = "length pat * stride + length seg"
  note memo = "1.prems"(1)
  note tab = "1.prems"(3)
  show ?case
  proof (cases "failed ! ?slot")
    case True
    then have "\<not> glob_spec star ok pat seg"
      using tab "1.prems"(2,4,5) unfolding table_ok_def by blast
    with True memo tab show ?thesis by (simp add: memo.simps [of star])
  next
    case False
    obtain q f where q: "(case pat of
                   [] \<Rightarrow> (seg = [], failed)
                 | p # ps \<Rightarrow>
                     if star p then memo_any star ok ps seg failed stride
                     else (case seg of
                         [] \<Rightarrow> (False, failed)
                       | c # cs \<Rightarrow> if ok p c then memo star ok ps cs failed stride else (False, failed)))
           = (q, f)" (is "?body = _") by (cases ?body)
    have main: "q = glob_spec star ok pat seg \<and> table_ok star ok P S f"
    proof (cases pat)
      case Nil
      with q tab show ?thesis by auto
    next
      case (Cons p ps)
      from "1.prems"(4) Cons have "suffix (p # ps) P" by simp
      then have ps: "suffix ps P" by (rule suffix_ConsD)
      show ?thesis
      proof (cases "star p")
        case True
        with q Cons have "memo_any star ok ps seg failed stride = (q, f)" by simp
        from "1.IH"(1) [OF refl False Cons True this "1.prems"(2) tab ps "1.prems"(5)]
        show ?thesis by (simp add: Cons glob_spec_star [of star p, OF True])
      next
        case item: False
        show ?thesis
        proof (cases seg)
          case Nil
          with q Cons item have "q = False \<and> f = failed" by simp
          with tab show ?thesis by (simp add: Cons Nil glob_spec_item [of star p, OF item])
        next
          case seg: (Cons c cs)
          with "1.prems"(5) have "suffix (c # cs) S" by simp
          then have cs: "suffix cs S" by (rule suffix_ConsD)
          show ?thesis
          proof (cases "ok p c")
            case True
            with q Cons item seg have "memo star ok ps cs failed stride = (q, f)" by simp
            from "1.IH"(2) [OF refl False Cons item seg True this "1.prems"(2) tab ps cs]
            show ?thesis by (simp add: Cons seg True glob_spec_item [of star p, OF item])
          next
            case False
            with q Cons item seg have "q = False \<and> f = failed" by simp
            with tab False show ?thesis by (simp add: Cons seg glob_spec_item [of star p, OF item])
          qed
        qed
      qed
    qed
    have "m = q \<and> failed' = (if q then f else f[?slot := True])"
      using memo False by (auto simp: memo.simps [of star] Let_def q)
    moreover have "table_ok star ok P S (if q then f else f[?slot := True])"
      using main table_fail [of star ok P S f pat seg] "1.prems"(2,4,5) by auto
    ultimately show ?thesis using main by blast
  qed
next
  case (2 star ok ps seg failed stride)
  obtain q f where q: "memo star ok ps seg failed stride = (q, f)"
    by (cases "memo star ok ps seg failed stride")
  note first = "2.IH"(1) [OF q "2.prems"(2-5)]
  show ?case
  proof (cases q)
    case True
    with first "2.prems"(1) show ?thesis by (auto simp: memo_any.simps [of star] q)
  next
    case False
    show ?thesis
    proof (cases seg)
      case Nil
      with False "2.prems"(1) have "m = False \<and> failed' = f"
        by (simp add: memo_any.simps [of star] q [unfolded Nil])
      with first False Nil show ?thesis by simp
    next
      case (Cons c cs)
      with "2.prems"(5) have "suffix (c # cs) S" by simp
      then have cs: "suffix cs S" by (rule suffix_ConsD)
      from "2.prems"(1) False Cons have "memo_any star ok ps cs f stride = (m, failed')"
        by (simp add: memo_any.simps [of star ok ps "c # cs"] q [unfolded Cons])
      from "2.IH"(2) [OF q [symmetric] False Cons this "2.prems"(2) conjunct2 [OF first] "2.prems"(4) cs]
      show ?thesis using first False by (auto simp: Cons suffix_Cons_iff)
    qed
  qed
qed

lemma memo_decides:
  "fst (memo star ok P S (replicate ((length P + 1) * (length S + 1)) False) (length S + 1))
     \<longleftrightarrow> glob_spec star ok P S"
proof -
  have "table_ok star ok P S (replicate ((length P + 1) * (length S + 1)) False)"
    using slot_bound [of _ P _ S] by (simp add: table_ok_def del: mult_Suc_right mult_Suc)
  from memo_correct(1) [OF _ refl this suffix_order.refl suffix_order.refl] show ?thesis
    by (metis prod.collapse)
qed

section \<open>The policy\<close>

datatype path_class = Extract | Opaque | Excluded

definition path_class_as_str :: "path_class \<Rightarrow> string" where
  "path_class_as_str c = (case c of Extract \<Rightarrow> ''extract'' | Opaque \<Rightarrow> ''opaque'' | Excluded \<Rightarrow> ''excluded'')"

definition mines :: "path_class \<Rightarrow> bool" where "mines c = (c = Extract)"

definition reads :: "path_class \<Rightarrow> bool" where "reads c = (c \<noteq> Excluded)"

record path_policy =
  pp_exclude :: "string list"
  pp_opaque :: "string list"

definition policy_new :: "string list \<Rightarrow> string list \<Rightarrow> path_policy" where
  "policy_new exclude opaque = \<lparr>pp_exclude = exclude, pp_opaque = opaque\<rparr>"

definition policy_empty :: path_policy where "policy_empty = \<lparr>pp_exclude = [], pp_opaque = []\<rparr>"

definition policy_is_empty :: "path_policy \<Rightarrow> bool" where
  "policy_is_empty p = (pp_exclude p = [] \<and> pp_opaque p = [])"

definition classify :: "path_policy \<Rightarrow> string \<Rightarrow> path_class" where
  "classify p path =
     (if list_ex (\<lambda>g. glob_match g path) (pp_exclude p) then Excluded
      else if list_ex (\<lambda>g. glob_match g path) (pp_opaque p) then Opaque
      else Extract)"

text \<open>FNV-1a over 64 bits, and \<open>u64::to_le_bytes\<close> of a length.\<close>

definition fnv_fold :: "64 word \<Rightarrow> string \<Rightarrow> 64 word" where
  "fnv_fold h bytes = foldl (\<lambda>h b. (h XOR of_nat (of_char b)) * 0x100000001b3) h bytes"

fun le_bytes :: "nat \<Rightarrow> nat \<Rightarrow> string" where
  "le_bytes 0 n = []"
| "le_bytes (Suc k) n = char_of n # le_bytes k (n div 256)"

definition fingerprint :: "path_policy \<Rightarrow> 64 word" where
  "fingerprint p =
     (if policy_is_empty p then 0
      else foldl (\<lambda>h (tag, patterns).
             foldl (\<lambda>h pattern. fnv_fold (fnv_fold h (le_bytes 8 (length pattern))) pattern)
               (fnv_fold (fnv_fold h [tag]) (le_bytes 8 (length patterns))) patterns)
           0xcbf29ce484222325 [(CHR ''x'', pp_exclude p), (CHR ''o'', pp_opaque p)])"

section \<open>The fingerprint's encoding\<close>

definition encode_list :: "string list \<Rightarrow> string" where
  "encode_list ps = concat (map (\<lambda>p. le_bytes 8 (length p) @ p) ps)"

definition policy_bytes :: "path_policy \<Rightarrow> string" where
  "policy_bytes p =
     CHR ''x'' # le_bytes 8 (length (pp_exclude p)) @ encode_list (pp_exclude p)
     @ CHR ''o'' # le_bytes 8 (length (pp_opaque p)) @ encode_list (pp_opaque p)"

lemma fnv_fold_append [simp]: "fnv_fold (fnv_fold h a) b = fnv_fold h (a @ b)"
  by (simp add: fnv_fold_def)

lemma fnv_fold_patterns:
  "foldl (\<lambda>h pattern. fnv_fold h (le_bytes 8 (length pattern) @ pattern)) (fnv_fold h a) ps
     = fnv_fold h (a @ encode_list ps)"
  by (induction ps arbitrary: a) (simp_all add: encode_list_def)

lemma fingerprint_alt:
  "fingerprint p = (if policy_is_empty p then 0 else fnv_fold 0xcbf29ce484222325 (policy_bytes p))"
  by (simp add: fingerprint_def policy_bytes_def fnv_fold_patterns)

lemma length_le_bytes [simp]: "length (le_bytes k n) = k"
  by (induction k n rule: le_bytes.induct) simp_all

lemma le_bytes_inj: "le_bytes k n = le_bytes k m \<Longrightarrow> n < 256 ^ k \<Longrightarrow> m < 256 ^ k \<Longrightarrow> n = m"
proof (induction k arbitrary: n m)
  case (Suc k)
  from Suc.prems(1) have c: "(char_of n :: char) = char_of m" "le_bytes k (n div 256) = le_bytes k (m div 256)"
    by simp_all
  then have "n mod 256 = m mod 256" by (metis of_char_of)
  moreover have "n div 256 = m div 256"
    using Suc.IH [OF c(2)] Suc.prems(2,3) by (simp add: less_mult_imp_div_less mult.commute)
  ultimately show ?case by (metis div_mult_mod_eq)
qed simp

definition fits_u64 :: "'a list \<Rightarrow> bool" where "fits_u64 xs \<longleftrightarrow> length xs < 2 ^ 64"

lemma fits_u64_le_bytes: "le_bytes 8 (length xs) = le_bytes 8 (length ys) \<Longrightarrow> fits_u64 xs \<Longrightarrow> fits_u64 ys \<Longrightarrow> length xs = length ys"
  by (rule le_bytes_inj [of 8]) (simp_all add: fits_u64_def)

lemma encode_list_inj:
  "encode_list xs @ r = encode_list ys @ r' \<Longrightarrow> length xs = length ys \<Longrightarrow>
     (\<forall>x \<in> set xs. fits_u64 x) \<Longrightarrow> (\<forall>y \<in> set ys. fits_u64 y) \<Longrightarrow> xs = ys \<and> r = r'"
proof (induction xs arbitrary: ys)
  case Nil
  then show ?case by (simp add: encode_list_def)
next
  case (Cons x xs)
  then obtain y ys' where y: "ys = y # ys'" by (cases ys) auto
  from Cons.prems(1) have "le_bytes 8 (length x) @ x @ encode_list xs @ r
      = le_bytes 8 (length y) @ y @ encode_list ys' @ r'"
    by (simp add: y encode_list_def)
  then have l: "le_bytes 8 (length x) = le_bytes 8 (length y)"
    and r: "x @ encode_list xs @ r = y @ encode_list ys' @ r'" by (simp_all add: append_eq_append_conv)
  from l have "length x = length y" by (rule fits_u64_le_bytes) (use Cons.prems(3,4) y in simp_all)
  with r have "x = y" "encode_list xs @ r = encode_list ys' @ r'" by (simp_all add: append_eq_append_conv)
  with Cons.IH [of ys'] Cons.prems y show ?case by simp
qed

definition policy_fits_u64 :: "path_policy \<Rightarrow> bool" where
  "policy_fits_u64 p \<longleftrightarrow> fits_u64 (pp_exclude p) \<and> fits_u64 (pp_opaque p)
     \<and> (\<forall>x \<in> set (pp_exclude p). fits_u64 x) \<and> (\<forall>x \<in> set (pp_opaque p). fits_u64 x)"

lemma policy_bytes_inj:
  assumes "policy_bytes p = policy_bytes q" "policy_fits_u64 p" "policy_fits_u64 q"
  shows "p = q"
proof -
  note s = assms(2,3) [unfolded policy_fits_u64_def]
  from assms(1) have l: "le_bytes 8 (length (pp_exclude p)) = le_bytes 8 (length (pp_exclude q))"
    and r: "encode_list (pp_exclude p) @ CHR ''o'' # le_bytes 8 (length (pp_opaque p)) @ encode_list (pp_opaque p)
          = encode_list (pp_exclude q) @ CHR ''o'' # le_bytes 8 (length (pp_opaque q)) @ encode_list (pp_opaque q)"
    unfolding policy_bytes_def by (simp_all add: append_eq_append_conv)
  from l have "length (pp_exclude p) = length (pp_exclude q)" by (rule fits_u64_le_bytes) (use s in simp_all)
  from encode_list_inj [OF r this] s have e: "pp_exclude p = pp_exclude q"
    and r2: "le_bytes 8 (length (pp_opaque p)) @ encode_list (pp_opaque p) @ []
          = le_bytes 8 (length (pp_opaque q)) @ encode_list (pp_opaque q) @ []" by simp_all
  from r2 have l2: "le_bytes 8 (length (pp_opaque p)) = le_bytes 8 (length (pp_opaque q))"
    and r3: "encode_list (pp_opaque p) @ [] = encode_list (pp_opaque q) @ []" by (simp_all add: append_eq_append_conv)
  from l2 have "length (pp_opaque p) = length (pp_opaque q)" by (rule fits_u64_le_bytes) (use s in simp_all)
  from encode_list_inj [OF r3 this] s have "pp_opaque p = pp_opaque q" by simp
  with e show ?thesis by simp
qed

section \<open>Properties\<close>

text \<open>C9. The memoised matcher decides exactly the meaning of the glob: the path's segments split into
  consecutive runs, one per pattern segment, any run for \<open>**\<close> and one segment for anything else, whose
  characters split the same way under \<open>*\<close> and \<open>?\<close>. Remembering failures changes no answer.\<close>

theorem glob_match_meaning:
  "glob_match pattern path \<longleftrightarrow>
     glob_spec (\<lambda>t. t = ''**'')
       (\<lambda>t s. glob_spec (\<lambda>p. p = ''*'') (\<lambda>p c. p = ''?'' \<or> c = p) (chars t) (chars s))
       (split_on CHR ''/'' pattern) (split_on CHR ''/'' path)"
proof -
  have "match_token = (\<lambda>t s. glob_spec (\<lambda>p. p = ''*'') (\<lambda>p c. p = ''?'' \<or> c = p) (chars t) (chars s))"
    unfolding match_token_def Let_def memo_decides by (rule refl)
  then show ?thesis unfolding glob_match_def match_segments_def Let_def memo_decides by simp
qed

text \<open>C16. The bytes the cache fingerprint folds determine the policy: no pattern can be written so that two
  different policies fold the same bytes, whatever separators it contains. The empty policy folds nothing
  and contributes zero.\<close>

theorem fingerprint_encoding_injective:
  assumes "policy_fits_u64 p" "policy_fits_u64 q"
  shows "fingerprint p = (if policy_is_empty p then 0 else fnv_fold 0xcbf29ce484222325 (policy_bytes p))
     \<and> (policy_bytes p = policy_bytes q \<longleftrightarrow> p = q) \<and> fingerprint policy_empty = 0"
  using policy_bytes_inj [OF _ assms] by (auto simp: fingerprint_alt policy_is_empty_def policy_empty_def)

theorem fingerprint_encoding_injective_witness:
  "policy_bytes (policy_new [''a'', ''b''] []) \<noteq> policy_bytes (policy_new [''a\<newline>b''] [])"
proof -
  have "policy_fits_u64 (policy_new [''a'', ''b''] [])" "policy_fits_u64 (policy_new [''a\<newline>b''] [])"
    by (simp_all add: policy_fits_u64_def fits_u64_def policy_new_def)
  from fingerprint_encoding_injective [OF this] show ?thesis by (simp add: policy_new_def)
qed

end
