(* ===== verification/Query.thy ===== *)
theory Query imports Store Paths begin

text \<open>
  The reports of \<open>crates/rto-graph/src/query.rs\<close>: debt, debt density, config secrets, coupling,
  explanations, listings and search.

  What the reports compute with floating point is a parameter: \<open>kloc\<close> for \<open>per_kloc\<close>, \<open>instab\<close> for the
  instability quotient; no rank depends on either. \<open>lower\<close> stands for \<open>str::to_lowercase\<close>, whose
  Unicode tables are not repeated here.
\<close>

section \<open>Shared shapes\<close>

text \<open>\<open>sort_by\<close>: a stable sort under a comparison; \<open>le\<close> says the comparison is not \<open>Greater\<close>.\<close>

fun insert_by :: "('a \<Rightarrow> 'a \<Rightarrow> bool) \<Rightarrow> 'a \<Rightarrow> 'a list \<Rightarrow> 'a list" where
  "insert_by le x [] = [x]"
| "insert_by le x (y # ys) = (if le x y then x # y # ys else y # insert_by le x ys)"

definition sort_by :: "('a \<Rightarrow> 'a \<Rightarrow> bool) \<Rightarrow> 'a list \<Rightarrow> 'a list" where
  "sort_by le xs = foldr (insert_by le) xs []"

text \<open>A \<open>BTreeSet\<close> in iteration order.\<close>

definition set_insert :: "'a::linorder \<Rightarrow> 'a list \<Rightarrow> 'a list" where
  "set_insert x xs = (if x \<in> set xs then xs else insort x xs)"

definition window :: "'a list \<Rightarrow> nat \<Rightarrow> nat \<Rightarrow> 'a list" where
  "window items offset limit =
     (let rest = drop (min offset (length items)) items
      in if 0 < limit then take limit rest else rest)"

record node_summary =
  ns_key :: string
  ns_kind :: string
  ns_name :: string
  ns_path :: "string option"
  ns_lang :: "string option"

definition summary_from_node :: "node \<Rightarrow> node_summary" where
  "summary_from_node n = \<lparr>ns_key = n_key n, ns_kind = node_kind_as_str (n_kind n), ns_name = n_name n,
     ns_path = n_path n, ns_lang = n_lang n\<rparr>"

text \<open>\<open>u32::try_from(n).ok()\<close>, and with \<open>unwrap_or(u32::MAX)\<close>.\<close>

definition u32_try :: "nat \<Rightarrow> u32 option" where
  "u32_try n = (if int n < 0x100000000 then Some (of_nat n) else None)"

definition u32_clamp :: "nat \<Rightarrow> u32" where
  "u32_clamp n = (case u32_try n of Some w \<Rightarrow> w | None \<Rightarrow> 0xFFFFFFFF)"

definition meta_str :: "node \<Rightarrow> string \<Rightarrow> string option" where
  "meta_str n k = json_get_str (n_meta n) k"

definition meta_u32 :: "node \<Rightarrow> string \<Rightarrow> u32 option" where
  "meta_u32 n k = Option.bind (Option.bind (json_get (n_meta n) k) json_as_u64) u32_try"

definition or_else :: "'a option \<Rightarrow> 'a \<Rightarrow> 'a" where
  "or_else x d = (case x of Some v \<Rightarrow> v | None \<Rightarrow> d)"

section \<open>Debt\<close>

record debt_item =
  di_key :: string
  di_category :: string
  di_text :: string
  di_path :: "string option"
  di_line :: "u32 option"

record debt_report =
  dr_total :: nat
  dr_by_category :: "(string, nat) btree"
  dr_items :: "debt_item list"

definition debt_step ::
  "string list \<Rightarrow> string list \<Rightarrow> debt_item list \<times> (string, nat) btree \<Rightarrow> node
     \<Rightarrow> debt_item list \<times> (string, nat) btree" where
  "debt_step categories ignored = (\<lambda>(items, by_category) n.
     let category = or_else (meta_str n ''category'') ''other''
     in if categories \<noteq> [] \<and> category \<notin> set categories then (items, by_category)
        else if (case n_path n of None \<Rightarrow> False | Some path \<Rightarrow> list_ex (\<lambda>glob. glob_match glob path) ignored)
        then (items, by_category)
        else (items @ [\<lparr>di_key = n_key n, di_category = category,
                        di_text = or_else (meta_str n ''text'') (n_name n),
                        di_path = n_path n, di_line = meta_u32 n ''line''\<rparr>],
              bt_adjust 0 Suc category by_category))"

definition debt :: "store \<Rightarrow> string list \<Rightarrow> string list \<Rightarrow> store_error + debt_report" where
  "debt s categories ignored =
     and_then (nodes_by_kind s KMarker) (\<lambda>nodes.
       case foldl (debt_step categories ignored) ([], []) nodes of (items, by_category) \<Rightarrow>
         let sorted = sort_key (\<lambda>i. (di_path i, di_line i, di_key i)) items
         in Ok \<lparr>dr_total = length sorted, dr_by_category = by_category, dr_items = sorted\<rparr>)"

section \<open>Debt density\<close>

datatype density_order = Density | Markers | Lines

definition density_order_as_str :: "density_order \<Rightarrow> string" where
  "density_order_as_str o' = (case o' of Density \<Rightarrow> ''density'' | Markers \<Rightarrow> ''markers'' | Lines \<Rightarrow> ''lines'')"

definition density_order_from_token :: "string \<Rightarrow> density_order option" where
  "density_order_from_token s =
     (if s = ''density'' then Some Density else if s = ''markers'' then Some Markers
      else if s = ''lines'' then Some Lines else None)"

definition density_order_tokens :: "string list" where
  "density_order_tokens = map density_order_as_str [Density, Markers, Lines]"

record density_item =
  dn_path :: string
  dn_markers :: u32
  dn_lines :: u32
  dn_per_kloc :: f64
  dn_by_category :: "(string, nat) btree"

record density_report =
  dd_order :: string
  dd_limit :: nat
  dd_min_lines :: u32
  dd_files_with_markers :: nat
  dd_ranked_files :: nat
  dd_short_files :: nat
  dd_unknown_length_files :: nat
  dd_total_markers :: nat
  dd_total_lines :: nat
  dd_overall_per_kloc :: f64
  dd_items :: "density_item list"

definition file_lines :: "store \<Rightarrow> string \<Rightarrow> store_error + u32 option" where
  "file_lines s path =
     and_then (get_node s (''file:'' @ path)) (\<lambda>r. case r of
         None \<Rightarrow> Ok None
       | Some n \<Rightarrow> Ok (case meta_u32 n ''lines'' of
             Some l \<Rightarrow> if 0 < l then Some l else None
           | None \<Rightarrow> None))"

type_synonym ranked_file = "string \<times> u32 \<times> u32 \<times> (string, nat) btree"

definition per_file_step ::
  "(string, (string, nat) btree) btree \<times> nat \<Rightarrow> debt_item \<Rightarrow> (string, (string, nat) btree) btree \<times> nat" where
  "per_file_step = (\<lambda>(per_file, total) item. case di_path item of
       None \<Rightarrow> (per_file, total)
     | Some path \<Rightarrow> (bt_adjust [] (bt_adjust 0 Suc (di_category item)) path per_file, Suc total))"

definition rank_step ::
  "store \<Rightarrow> u32 \<Rightarrow> ranked_file list \<times> nat \<times> nat \<Rightarrow> string \<times> (string, nat) btree
     \<Rightarrow> store_error + ranked_file list \<times> nat \<times> nat" where
  "rank_step s min_lines = (\<lambda>(ranked, short, unknown) (path, by_category).
     let markers = u32_clamp (sum_list (map snd by_category))
     in and_then (file_lines s path) (\<lambda>r. case r of
         None \<Rightarrow> Ok (ranked, short, Suc unknown)
       | Some lines \<Rightarrow>
           if lines < min_lines then Ok (ranked, Suc short, unknown)
           else Ok (ranked @ [(path, markers, lines, by_category)], short, unknown)))"

text \<open>The metric as a fraction, compared by cross multiplication: descending, the path breaking ties.\<close>

definition density_metric :: "density_order \<Rightarrow> ranked_file \<Rightarrow> nat \<times> nat" where
  "density_metric order = (\<lambda>(_, markers, lines, _). case order of
       Density \<Rightarrow> (unat markers * 1000, unat lines)
     | Markers \<Rightarrow> (unat markers, 1)
     | Lines \<Rightarrow> (unat lines, 1))"

definition density_le :: "density_order \<Rightarrow> ranked_file \<Rightarrow> ranked_file \<Rightarrow> bool" where
  "density_le order a b =
     (let (an, ad) = density_metric order a; (bn, bd) = density_metric order b
      in bn * ad < an * bd \<or> (bn * ad = an * bd \<and> fst a \<le> fst b))"

definition debt_density ::
  "(nat \<Rightarrow> nat \<Rightarrow> f64) \<Rightarrow> store \<Rightarrow> string list \<Rightarrow> string list \<Rightarrow> density_order \<Rightarrow> nat \<Rightarrow> u32
     \<Rightarrow> store_error + density_report" where
  "debt_density kloc s categories ignored order limit min_lines =
     and_then (debt s categories ignored) (\<lambda>inventory.
       case foldl per_file_step ([], 0) (dr_items inventory) of (per_file, total_markers) \<Rightarrow>
         and_then (try_fold (rank_step s min_lines) ([], 0, 0) per_file) (\<lambda>(ranked, short, unknown).
           let total_lines = sum_list (map (\<lambda>(_, _, l, _). unat l) ranked);
               ranked_markers = sum_list (map (\<lambda>(_, m, _, _). unat m) ranked);
               items = map (\<lambda>(path, m, l, c). \<lparr>dn_path = path, dn_markers = m, dn_lines = l,
                              dn_per_kloc = kloc (unat m) (unat l), dn_by_category = c\<rparr>)
                         (window (sort_by (density_le order) ranked) 0 limit)
           in Ok \<lparr>dd_order = density_order_as_str order, dd_limit = limit, dd_min_lines = min_lines,
                  dd_files_with_markers = length per_file, dd_ranked_files = length ranked,
                  dd_short_files = short, dd_unknown_length_files = unknown,
                  dd_total_markers = total_markers, dd_total_lines = total_lines,
                  dd_overall_per_kloc = kloc ranked_markers total_lines, dd_items = items\<rparr>))"

section \<open>Config secrets\<close>

definition config_key_kind :: string where "config_key_kind = ''config_key''"

definition redacted_value :: string where "redacted_value = ''<redacted>''"

definition is_secret_key :: "string \<Rightarrow> bool" where
  "is_secret_key key =
     (let flat = map to_ascii_lower (filter is_ascii_alphanumeric key)
      in list_ex (contains flat)
           [''secret'', ''password'', ''passwd'', ''passphrase'', ''token'', ''apikey'', ''credential'',
            ''privatekey'', ''accesskey'', ''pwd''])"

datatype redaction_state = Redacted | Declared | Present

definition redaction_state_as_str :: "redaction_state \<Rightarrow> string" where
  "redaction_state_as_str r = (case r of Redacted \<Rightarrow> ''redacted'' | Declared \<Rightarrow> ''declared'' | Present \<Rightarrow> ''present'')"

record secret_item =
  si_key :: string
  si_path :: "string option"
  si_name :: string
  si_state :: redaction_state
  si_source :: "string option"

record secret_report =
  sr_limit :: nat
  sr_config_keys :: nat
  sr_secret_named :: nat
  sr_redacted :: nat
  sr_declared :: nat
  sr_unredacted :: nat
  sr_redacted_not_secret_named :: nat
  sr_files :: nat
  sr_items :: "secret_item list"

text \<open>Items, the four counters, and the files seen.\<close>

type_synonym secret_scan = "secret_item list \<times> nat \<times> nat \<times> nat \<times> nat \<times> string list"

definition secret_step :: "secret_scan \<Rightarrow> node \<Rightarrow> secret_scan" where
  "secret_step = (\<lambda>(items, redacted, declared, unredacted, other, files) n.
     let name = or_else (meta_str n ''key'') (n_name n);
         value = meta_str n ''value''
     in if \<not> is_secret_key name
        then (items, redacted, declared, unredacted,
              if value = Some redacted_value then Suc other else other, files)
        else let state = (case value of
                     Some v \<Rightarrow> if v = redacted_value then Redacted else Present
                   | None \<Rightarrow> Declared)
             in (items @ [\<lparr>si_key = n_key n, si_path = n_path n, si_name = name, si_state = state,
                           si_source = meta_str n ''source''\<rparr>],
                 if state = Redacted then Suc redacted else redacted,
                 if state = Declared then Suc declared else declared,
                 if state = Present then Suc unredacted else unredacted,
                 other,
                 (case n_path n of Some path \<Rightarrow> set_insert path files | None \<Rightarrow> files)))"

definition config_secrets :: "store \<Rightarrow> nat \<Rightarrow> store_error + secret_report" where
  "config_secrets s limit =
     and_then (nodes_by_kind s (KOther config_key_kind)) (\<lambda>nodes.
       case foldl secret_step ([], 0, 0, 0, 0, []) nodes of
         (items, redacted, declared, unredacted, other, files) \<Rightarrow>
           Ok \<lparr>sr_limit = limit, sr_config_keys = length nodes, sr_secret_named = length items,
               sr_redacted = redacted, sr_declared = declared, sr_unredacted = unredacted,
               sr_redacted_not_secret_named = other, sr_files = length files,
               sr_items = window (sort_key (\<lambda>i. (si_path i, si_name i, si_key i)) items) 0 limit\<rparr>)"

section \<open>Coupling\<close>

datatype coupling_order = CTotal | CFanIn | CFanOut

definition coupling_order_as_str :: "coupling_order \<Rightarrow> string" where
  "coupling_order_as_str o' = (case o' of CTotal \<Rightarrow> ''total'' | CFanIn \<Rightarrow> ''fan_in'' | CFanOut \<Rightarrow> ''fan_out'')"

definition coupling_order_from_token :: "string \<Rightarrow> coupling_order option" where
  "coupling_order_from_token s =
     (if s = ''total'' then Some CTotal else if s = ''fan_in'' then Some CFanIn
      else if s = ''fan_out'' then Some CFanOut else None)"

definition coupling_order_tokens :: "string list" where
  "coupling_order_tokens = map coupling_order_as_str [CTotal, CFanIn, CFanOut]"

definition sym_lang :: "string \<Rightarrow> string option" where
  "sym_lang key =
     Option.bind (strip_prefix ''sym:'' key) (\<lambda>rest.
     Option.bind (split_once CHR '':'' rest) (\<lambda>(lang, _).
       if lang \<noteq> [] then Some lang else None))"

definition same_language :: "string \<Rightarrow> string \<Rightarrow> bool" where
  "same_language src dst =
     (case (sym_lang src, sym_lang dst) of (Some a, Some b) \<Rightarrow> a = b | _ \<Rightarrow> True)"

type_synonym key_sets = "(string, string list) btree"

definition count_of :: "key_sets \<Rightarrow> string \<Rightarrow> u32" where
  "count_of m key = (case map_of m key of None \<Rightarrow> 0 | Some keys \<Rightarrow> u32_clamp (length keys))"

record coupling_item =
  ci_key :: string
  ci_kind :: string
  ci_name :: string
  ci_path :: "string option"
  ci_fan_in :: u32
  ci_fan_out :: u32
  ci_total :: u32
  ci_instability :: f64

record coupling_report =
  cr_edge_kind :: string
  cr_order :: string
  cr_limit :: nat
  cr_call_edges :: nat
  cr_self_calls :: nat
  cr_cross_language_calls :: nat
  cr_coupled_nodes :: nat
  cr_items :: "coupling_item list"

record coupling_scan =
  cs_inbound :: key_sets
  cs_outbound :: key_sets
  cs_calls :: nat
  cs_self :: nat
  cs_cross :: nat

definition coupling_step :: "coupling_scan \<Rightarrow> edge \<Rightarrow> coupling_scan" where
  "coupling_step c e =
     (if e_kind e \<noteq> ECalls then c
      else let c = c\<lparr>cs_calls := Suc (cs_calls c)\<rparr>
      in if e_src e = e_dst e then c\<lparr>cs_self := Suc (cs_self c)\<rparr>
         else if \<not> same_language (e_src e) (e_dst e) then c\<lparr>cs_cross := Suc (cs_cross c)\<rparr>
         else c\<lparr>cs_inbound := bt_adjust [] (set_insert (e_src e)) (e_dst e) (cs_inbound c),
                cs_outbound := bt_adjust [] (set_insert (e_dst e)) (e_src e) (cs_outbound c)\<rparr>)"

definition coupling_metric :: "coupling_order \<Rightarrow> u32 \<times> u32 \<times> string \<Rightarrow> u32" where
  "coupling_metric order = (\<lambda>(fan_in, fan_out, _). case order of
       CTotal \<Rightarrow> fan_in + fan_out | CFanIn \<Rightarrow> fan_in | CFanOut \<Rightarrow> fan_out)"

definition coupling_le :: "coupling_order \<Rightarrow> u32 \<times> u32 \<times> string \<Rightarrow> u32 \<times> u32 \<times> string \<Rightarrow> bool" where
  "coupling_le order a b =
     (coupling_metric order b < coupling_metric order a
      \<or> (coupling_metric order a = coupling_metric order b \<and> snd (snd a) \<le> snd (snd b)))"

definition coupling_scan_edges :: "edge list \<Rightarrow> coupling_scan" where
  "coupling_scan_edges es = foldl coupling_step
     \<lparr>cs_inbound = [], cs_outbound = [], cs_calls = 0, cs_self = 0, cs_cross = 0\<rparr> es"

definition coupling_ranked :: "coupling_order \<Rightarrow> coupling_scan \<Rightarrow> (u32 \<times> u32 \<times> string) list" where
  "coupling_ranked order c =
     sort_by (coupling_le order)
       (map (\<lambda>key. (count_of (cs_inbound c) key, count_of (cs_outbound c) key, key))
         (sort (remdups (map fst (cs_inbound c) @ map fst (cs_outbound c)))))"

definition coupling_item_of :: "(nat \<Rightarrow> nat \<Rightarrow> f64) \<Rightarrow> u32 \<Rightarrow> u32 \<Rightarrow> node \<Rightarrow> coupling_item" where
  "coupling_item_of instab fan_in fan_out n =
     \<lparr>ci_key = n_key n, ci_kind = node_kind_as_str (n_kind n), ci_name = n_name n, ci_path = n_path n,
      ci_fan_in = fan_in, ci_fan_out = fan_out, ci_total = fan_in + fan_out,
      ci_instability = instab (unat fan_out) (unat (fan_in + fan_out))\<rparr>"

definition coupling_item_step ::
  "(nat \<Rightarrow> nat \<Rightarrow> f64) \<Rightarrow> store \<Rightarrow> coupling_item list \<Rightarrow> u32 \<times> u32 \<times> string \<Rightarrow> store_error + coupling_item list" where
  "coupling_item_step instab s items = (\<lambda>(fan_in, fan_out, key).
     and_then (get_node s key) (\<lambda>r. case r of
         None \<Rightarrow> Ok items
       | Some n \<Rightarrow> Ok (items @ [coupling_item_of instab fan_in fan_out n])))"

definition coupling ::
  "(nat \<Rightarrow> nat \<Rightarrow> f64) \<Rightarrow> store \<Rightarrow> coupling_order \<Rightarrow> nat \<Rightarrow> store_error + coupling_report" where
  "coupling instab s order limit =
     and_then (all_edges s) (\<lambda>edges.
       let c = coupling_scan_edges edges;
           ranked = coupling_ranked order c
       in and_then (try_fold (coupling_item_step instab s) [] (window ranked 0 limit)) (\<lambda>items.
            Ok \<lparr>cr_edge_kind = edge_kind_as_str ECalls, cr_order = coupling_order_as_str order,
                cr_limit = limit, cr_call_edges = cs_calls c, cr_self_calls = cs_self c,
                cr_cross_language_calls = cs_cross c, cr_coupled_nodes = length ranked,
                cr_items = items\<rparr>))"

section \<open>Explanations and listings\<close>

record edge_ref =
  rf_kind :: string
  rf_provenance :: string
  rf_confidence :: "f64 option"
  rf_node :: string

record explanation =
  ex_node :: node_summary
  ex_meta :: json
  ex_outgoing :: "edge_ref list"
  ex_incoming :: "edge_ref list"

record listing =
  ls_kind :: string
  ls_nodes :: "node_summary list"

definition out_ref :: "edge \<Rightarrow> edge_ref" where
  "out_ref e = \<lparr>rf_kind = edge_kind_as_str (e_kind e), rf_provenance = provenance_as_str (e_provenance e),
     rf_confidence = e_confidence e, rf_node = e_dst e\<rparr>"

definition in_ref :: "edge \<Rightarrow> edge_ref" where
  "in_ref e = \<lparr>rf_kind = edge_kind_as_str (e_kind e), rf_provenance = provenance_as_str (e_provenance e),
     rf_confidence = e_confidence e, rf_node = e_src e\<rparr>"

definition sort_refs :: "edge_ref list \<Rightarrow> edge_ref list" where
  "sort_refs refs = sort_key (\<lambda>r. (rf_kind r, rf_node r, rf_provenance r)) refs"

definition explain :: "store \<Rightarrow> string \<Rightarrow> store_error + explanation option" where
  "explain s key =
     and_then (get_node s key) (\<lambda>r. case r of
         None \<Rightarrow> Ok None
       | Some n \<Rightarrow>
           and_then (edges_from s key) (\<lambda>outs. and_then (edges_to s key) (\<lambda>ins.
             Ok (Some \<lparr>ex_node = summary_from_node n, ex_meta = n_meta n,
                       ex_outgoing = sort_refs (map out_ref outs),
                       ex_incoming = sort_refs (map in_ref ins)\<rparr>))))"

definition list_kind :: "store \<Rightarrow> node_kind \<Rightarrow> store_error + listing" where
  "list_kind s kind =
     and_then (nodes_by_kind s kind) (\<lambda>nodes.
       Ok \<lparr>ls_kind = node_kind_as_str kind, ls_nodes = map summary_from_node nodes\<rparr>)"

section \<open>Search\<close>

definition SNIPPET_MAX :: nat where "SNIPPET_MAX = 300"

definition ellipsis :: string where "ellipsis = map (char_of :: nat \<Rightarrow> char) [0xE2, 0x80, 0xA6]"

text \<open>The collapsing loop over the characters: the collapsed text so far and whether a space is due.
  It stops as soon as one character more than fits has been collected.\<close>

fun collapse :: "string list \<Rightarrow> string list \<Rightarrow> bool \<Rightarrow> string list" where
  "collapse [] collapsed pending = collapsed"
| "collapse (ch # rest) collapsed pending =
     (if is_whitespace ch then collapse rest collapsed (collapsed \<noteq> [])
      else let collapsed = (if pending then collapsed @ ['' ''] else collapsed)
           in if pending \<and> SNIPPET_MAX < length collapsed then collapsed
              else let collapsed = collapsed @ [ch]
                   in if SNIPPET_MAX < length collapsed then collapsed
                      else collapse rest collapsed False)"

definition snippet_of :: "string \<Rightarrow> string option" where
  "snippet_of content =
     (let collapsed = collapse (chars content) [] False
      in if collapsed = [] then None
         else if SNIPPET_MAX < length collapsed
         then Some (concat (take (SNIPPET_MAX - 1) collapsed) @ ellipsis)
         else Some (concat collapsed))"

definition content_snippet :: "json \<Rightarrow> string option" where
  "content_snippet meta = Option.bind (json_get_str meta ''content'') snippet_of"

record search_hit =
  sh_score :: nat
  sh_node :: node_summary
  sh_snippet :: "string option"

text \<open>The last piece after a slash.\<close>

definition base_name :: "string \<Rightarrow> string" where
  "base_name path = last (split_on CHR ''/'' path)"

definition is_overview_path :: "string \<Rightarrow> bool" where
  "is_overview_path path \<longleftrightarrow>
     starts_with (base_name path) ''readme'' \<or> starts_with (base_name path) ''overview''"

definition is_test_path :: "string \<Rightarrow> bool" where
  "is_test_path path \<longleftrightarrow> contains path ''/tests/'' \<or> contains path ''/test/''"

definition query_tokens :: "string \<Rightarrow> string list" where
  "query_tokens q = concat (map split_whitespace (split_on2 CHR '':'' CHR '':'' q))"

definition token_score :: "string \<Rightarrow> string \<Rightarrow> string \<Rightarrow> string \<Rightarrow> string \<Rightarrow> int" where
  "token_score name key path content t =
     (if contains name t then 12 else if contains key t then 6
      else if contains content t then 8 else if contains path t then 3 else 0)"

definition relevance :: "(string \<Rightarrow> string) \<Rightarrow> string \<Rightarrow> string list \<Rightarrow> node \<Rightarrow> int" where
  "relevance lower q tokens n =
     (let name = lower (n_name n); key = lower (n_key n); path = lower (or_else (n_path n) []);
          content = or_else (map_option lower (meta_str n ''content'')) []
      in (if name = q then 100 else if contains name q then 60 else if contains content q then 25 else 0)
         + sum_list (map (token_score name key path content) tokens)
         + (if tier (n_provenance n) = Authored then (if is_external (n_provenance n) then 20 else 40) else 0)
         + (if is_overview_path path then 30 else 0)
         - (if is_test_path path then 60 else 0))"

definition matches_all :: "(string \<Rightarrow> string) \<Rightarrow> string list \<Rightarrow> node \<Rightarrow> bool" where
  "matches_all lower tokens n =
     (let name = lower (n_name n); key = lower (n_key n); path = lower (or_else (n_path n) []);
          content = or_else (map_option lower (meta_str n ''content'')) []
      in list_all (\<lambda>t. contains name t \<or> contains key t \<or> contains path t \<or> contains content t) tokens)"

definition hit_of :: "(string \<Rightarrow> string) \<Rightarrow> string \<Rightarrow> string list \<Rightarrow> node \<Rightarrow> search_hit" where
  "hit_of lower q tokens n =
     \<lparr>sh_score = nat (max (relevance lower q tokens n) 0), sh_node = summary_from_node n,
      sh_snippet = content_snippet (n_meta n)\<rparr>"

definition hit_le :: "search_hit \<Rightarrow> search_hit \<Rightarrow> bool" where
  "hit_le a b \<longleftrightarrow> sh_score b < sh_score a
     \<or> (sh_score a = sh_score b \<and> ns_key (sh_node a) \<le> ns_key (sh_node b))"

definition search :: "(string \<Rightarrow> string) \<Rightarrow> store \<Rightarrow> string \<Rightarrow> nat \<Rightarrow> store_error + search_hit list" where
  "search lower s query limit =
     (let q = lower (trim query); tokens = query_tokens q
      in if tokens = [] then Ok []
         else and_then (all_nodes s) (\<lambda>nodes.
           Ok (window (sort_by hit_le (map (hit_of lower q tokens) (filter (matches_all lower tokens) nodes)))
                 0 limit)))"

definition generated_score :: "string \<Rightarrow> string list \<Rightarrow> string \<Rightarrow> string \<Rightarrow> nat" where
  "generated_score q tokens text path =
     nat (max ((if contains text q then 25 else 0)
       + sum_list (map (\<lambda>t. if contains text t then 8 else if contains path t then 3 else 0) tokens)) (0 :: int))"

end
