(* ===== verification/Sorting.thy ===== *)
theory Sorting imports Query begin

text \<open>
  What the reports' sorting by a comparison and their windows keep: the elements, the order, the prefix.
\<close>

section \<open>Sorting by a comparison\<close>

lemma mset_insert_by [simp]: "mset (insert_by le x xs) = add_mset x (mset xs)"
  by (induction xs) auto

lemma mset_sort_by [simp]: "mset (sort_by le xs) = mset xs"
  unfolding sort_by_def by (induction xs) auto

lemma set_sort_by [simp]: "set (sort_by le xs) = set xs"
  by (metis mset_sort_by set_mset_mset)

lemma length_sort_by [simp]: "length (sort_by le xs) = length xs"
  by (metis mset_sort_by size_mset)

definition total_on_list :: "('a \<Rightarrow> 'a \<Rightarrow> bool) \<Rightarrow> 'a set \<Rightarrow> bool" where
  "total_on_list le A \<longleftrightarrow> (\<forall>x \<in> A. \<forall>y \<in> A. le x y \<or> le y x)
     \<and> (\<forall>x \<in> A. \<forall>y \<in> A. \<forall>z \<in> A. le x y \<longrightarrow> le y z \<longrightarrow> le x z)"

lemma total_on_list_subset: "total_on_list le B \<Longrightarrow> A \<subseteq> B \<Longrightarrow> total_on_list le A"
  unfolding total_on_list_def by (meson subsetD)

lemma sorted_insert_by:
  assumes "total_on_list le (insert x (set xs))" "sorted_wrt le xs"
  shows "sorted_wrt le (insert_by le x xs)"
  using assms
proof (induction xs)
  case (Cons y ys)
  show ?case
  proof (cases "le x y")
    case True
    have "le x z" if "z \<in> set ys" for z
      using Cons.prems that True unfolding total_on_list_def by (metis insertCI list.set_intros sorted_wrt.simps(2))
    with True Cons.prems(2) show ?thesis by simp
  next
    case False
    have "total_on_list le (insert x (set ys))"
      by (rule total_on_list_subset [OF Cons.prems(1)]) auto
    with Cons have s: "sorted_wrt le (insert_by le x ys)" by simp
    have "le y x" using False Cons.prems(1) unfolding total_on_list_def by (meson insertCI list.set_intros(1))
    moreover have "set (insert_by le x ys) = insert x (set ys)"
      by (metis mset_insert_by set_mset_add_mset_insert set_mset_mset)
    ultimately show ?thesis using False s Cons.prems(2) by simp
  qed
qed simp

lemma sorted_sort_by:
  assumes "total_on_list le (set xs)"
  shows "sorted_wrt le (sort_by le xs)"
  using assms unfolding sort_by_def
proof (induction xs)
  case (Cons x xs)
  have "total_on_list le (set xs)" by (rule total_on_list_subset [OF Cons.prems]) auto
  with Cons.IH have "sorted_wrt le (foldr (insert_by le) xs [])" by simp
  moreover have "set (foldr (insert_by le) xs []) = set xs" using set_sort_by [of le xs] by (simp add: sort_by_def)
  ultimately show ?case using Cons.prems sorted_insert_by [of le x "foldr (insert_by le) xs []"] by simp
qed simp

lemma window_take: "window xs 0 limit = (if 0 < limit then take limit xs else xs)"
  by (simp add: window_def Let_def)

lemma set_window: "set (window xs k limit) \<subseteq> set xs"
  by (auto simp: window_def Let_def split: if_splits dest: in_set_takeD in_set_dropD)

lemma sorted_window: "sorted_wrt le xs \<Longrightarrow> sorted_wrt le (window xs 0 limit)"
  by (simp add: window_take sorted_wrt_take)

end
