(* ===== verification/StoreInv.thy ===== *)
theory StoreInv imports Store begin

text \<open>
  The invariant of the store and what each write does to its contents. The contents are two maps,
  independent of row ids and row order: node key to columns, and edge identity
  (source key, target key, kind, provenance) to confidence and source reference. The interface
  \<open>graph_tables\<close> states what the writes do to them; the SQL model is its interpretation.
\<close>

section \<open>The invariant\<close>

definition row_ok :: "node_row \<Rightarrow> bool" where
  "row_ok r \<longleftrightarrow> (\<exists>n. r = node_columns n (nr_id r))"

definition edge_row_ok :: "edge_row \<Rightarrow> bool" where
  "edge_row_ok r \<longleftrightarrow> (\<exists>e. edge_is_valid e \<and> r = edge_columns e (er_src r) (er_dst r))"

definition store_wf :: "store \<Rightarrow> bool" where
  "store_wf s \<longleftrightarrow>
     distinct (map nr_key (nodes_t s)) \<and> distinct (map nr_id (nodes_t s))
     \<and> distinct (map edge_row_key (edges_t s))
     \<and> (\<forall>e \<in> set (edges_t s). er_src e \<in> nr_id ` set (nodes_t s)
                              \<and> er_dst e \<in> nr_id ` set (nodes_t s) \<and> edge_row_ok e)
     \<and> (\<forall>r \<in> set (nodes_t s). row_ok r)"

lemma store_wfD:
  assumes "store_wf s"
  shows "distinct (map nr_key (nodes_t s))" "distinct (map nr_id (nodes_t s))"
    "distinct (map edge_row_key (edges_t s))"
    "e \<in> set (edges_t s) \<Longrightarrow> er_src e \<in> nr_id ` set (nodes_t s)"
    "e \<in> set (edges_t s) \<Longrightarrow> er_dst e \<in> nr_id ` set (nodes_t s)"
    "e \<in> set (edges_t s) \<Longrightarrow> edge_row_ok e"
    "r \<in> set (nodes_t s) \<Longrightarrow> row_ok r"
  using assms by (auto simp: store_wf_def)

lemma empty_store_wf: "store_wf empty_store"
  by (simp add: store_wf_def empty_store_def)

lemma row_ok_columns [simp]: "row_ok (node_columns n i)"
  by (auto simp: row_ok_def node_columns_def)

lemma edge_row_ok_columns: "edge_is_valid e \<Longrightarrow> edge_row_ok (edge_columns e i j)"
  by (auto simp: edge_row_ok_def edge_columns_def)

lemma node_columns_sel [simp]:
  "nr_key (node_columns n i) = n_key n" "nr_id (node_columns n i) = i"
  by (simp_all add: node_columns_def)

lemma edge_columns_sel [simp]:
  "er_src (edge_columns e i j) = i" "er_dst (edge_columns e i j) = j"
  by (simp_all add: edge_columns_def)

lemma next_row_id_fresh: "next_row_id s \<notin> nr_id ` set (nodes_t s)"
proof
  assume "next_row_id s \<in> nr_id ` set (nodes_t s)"
  then have "next_row_id s \<le> fold max (map nr_id (nodes_t s)) 0"
    by (intro le_fold_max) simp
  then show False by (simp add: next_row_id_def)
qed

lemma find_map_list: "List.find P (map f xs) = map_option f (List.find (\<lambda>x. P (f x)) xs)"
  by (induction xs) auto

lemma find_append: "List.find P (xs @ ys) = (case List.find P xs of None \<Rightarrow> List.find P ys | Some x \<Rightarrow> Some x)"
  by (induction xs) auto

lemma find_distinct:
  assumes "distinct (map f xs)"
  shows "List.find (\<lambda>x. f x = k) xs = Some x \<longleftrightarrow> x \<in> set xs \<and> f x = k"
  using assms distinct_map_find [of f xs x] by (auto dest: find_SomeD)

section \<open>Row ids and keys\<close>

definition key_of :: "store \<Rightarrow> nat \<Rightarrow> string option" where
  "key_of s i = map_option nr_key (row_by_id s i)"

lemma node_row_id_None: "node_row_id s k = None \<longleftrightarrow> k \<notin> nr_key ` set (nodes_t s)"
  by (simp add: node_row_id_def find_None_map)

lemma node_row_id_Some:
  "store_wf s \<Longrightarrow> node_row_id s k = Some i \<longleftrightarrow> (\<exists>r \<in> set (nodes_t s). nr_key r = k \<and> nr_id r = i)"
  by (auto simp: node_row_id_def find_distinct store_wfD(1))

lemma key_of_Some:
  "store_wf s \<Longrightarrow> key_of s i = Some k \<longleftrightarrow> (\<exists>r \<in> set (nodes_t s). nr_key r = k \<and> nr_id r = i)"
  by (auto simp: key_of_def row_by_id_def find_distinct store_wfD(2))

lemma key_of_id: "store_wf s \<Longrightarrow> key_of s i = Some k \<longleftrightarrow> node_row_id s k = Some i"
  by (simp add: key_of_Some node_row_id_Some)

lemma key_of_None: "key_of s i = None \<longleftrightarrow> i \<notin> nr_id ` set (nodes_t s)"
  by (simp add: key_of_def row_by_id_def find_None_map)

lemma key_of_inj: "store_wf s \<Longrightarrow> key_of s i = Some k \<Longrightarrow> key_of s j = Some k \<Longrightarrow> i = j"
  by (simp add: key_of_id)

definition joined :: "(nat \<Rightarrow> string option) \<Rightarrow> edge_row \<Rightarrow> edge_join" where
  "joined f r =
     \<lparr>j_src = the (f (er_src r)), j_dst = the (f (er_dst r)), j_kind = er_kind r,
      j_provenance = er_provenance r, j_confidence = er_confidence r, j_src_ref = er_src_ref r\<rparr>"

lemma join_row_alt:
  "join_row s r =
     (if key_of s (er_src r) \<noteq> None \<and> key_of s (er_dst r) \<noteq> None
      then Some (joined (key_of s) r) else None)"
  by (auto simp: join_row_def key_of_def joined_def split: option.splits)

lemma edge_select_wf: "store_wf s \<Longrightarrow> edge_select s = map (joined (key_of s)) (edges_t s)"
proof -
  assume wf: "store_wf s"
  have "List.map_filter (join_row s) xs = map (joined (key_of s)) xs" if "set xs \<subseteq> set (edges_t s)" for xs
    using that
  proof (induction xs)
    case (Cons r xs)
    then have "join_row s r = Some (joined (key_of s) r)"
      using store_wfD(4,5) [OF wf] by (simp add: join_row_alt key_of_None)
    with Cons show ?case by (simp add: List.map_filter_simps)
  qed (simp add: List.map_filter_simps)
  then show ?thesis by (simp add: edge_select_def)
qed

type_synonym ekey = "string \<times> string \<times> string \<times> string"

definition join_key :: "edge_join \<Rightarrow> ekey" where
  "join_key j = (j_src j, j_dst j, j_kind j, j_provenance j)"

definition ekey :: "edge \<Rightarrow> ekey" where
  "ekey e = (e_src e, e_dst e, edge_kind_as_str (e_kind e), provenance_as_str (e_provenance e))"

lemma joined_key_inj:
  assumes wf: "store_wf s" and "r \<in> set (edges_t s)" "r' \<in> set (edges_t s)"
    and "join_key (joined (key_of s) r) = join_key (joined (key_of s) r')"
  shows "edge_row_key r = edge_row_key r'"
proof -
  have "key_of s (er_src r) \<noteq> None" "key_of s (er_dst r) \<noteq> None"
    "key_of s (er_src r') \<noteq> None" "key_of s (er_dst r') \<noteq> None"
    using assms store_wfD(4,5) [OF wf] by (simp_all add: key_of_None)
  then show ?thesis
    using assms(4) key_of_inj [OF wf] by (auto simp: join_key_def joined_def edge_row_key_def)
qed

lemma distinct_join_keys: "store_wf s \<Longrightarrow> distinct (map join_key (edge_select s))"
  using store_wfD(3) [of s]
  by (auto simp: edge_select_wf distinct_map comp_def inj_on_def dest: joined_key_inj)

section \<open>Contents\<close>

definition node_map :: "store \<Rightarrow> string \<Rightarrow> node_row option" where
  "node_map s k = map_option (\<lambda>r. r\<lparr>nr_id := 0\<rparr>) (List.find (\<lambda>r. nr_key r = k) (nodes_t s))"

definition edge_map :: "store \<Rightarrow> ekey \<Rightarrow> (f64 option \<times> string option) option" where
  "edge_map s k = map_option (\<lambda>j. (j_confidence j, j_src_ref j))
                    (List.find (\<lambda>j. join_key j = k) (edge_select s))"

lemma node_map_None: "node_map s k = None \<longleftrightarrow> node_row_id s k = None"
  by (simp add: node_map_def node_row_id_def)

lemma edge_map_Some:
  assumes "store_wf s"
  shows "edge_map s k = Some v \<longleftrightarrow>
           (\<exists>j \<in> set (edge_select s). join_key j = k \<and> (j_confidence j, j_src_ref j) = v)"
  using find_distinct [OF distinct_join_keys [OF assms]] by (auto simp: edge_map_def)

lemma edge_map_endpoints:
  assumes "store_wf s" and "edge_map s (a, b, k, p) = Some v"
  shows "node_map s a \<noteq> None \<and> node_map s b \<noteq> None"
proof -
  from assms obtain r where r: "r \<in> set (edges_t s)" "join_key (joined (key_of s) r) = (a, b, k, p)"
    by (auto simp: edge_map_Some edge_select_wf)
  with store_wfD(4,5) [OF assms(1) r(1)] obtain x y
    where "key_of s (er_src r) = Some x" "key_of s (er_dst r) = Some y"
    by (metis key_of_None not_None_eq)
  with r(2) show ?thesis
    by (auto simp: join_key_def joined_def node_map_None key_of_id [OF assms(1)])
qed

section \<open>What each write does\<close>

lemma upsert_node_rows:
  assumes "store_wf s"
  shows "edges_t (upsert_node s n) = edges_t s" "sync_t (upsert_node s n) = sync_t s"
    "imports_t (upsert_node s n) = imports_t s" "context_t (upsert_node s n) = context_t s"
  by (simp_all add: upsert_node_def)

lemma upsert_node_wf: "store_wf s \<Longrightarrow> store_wf (upsert_node s n)"
proof (cases "node_row_id s (n_key n) = None")
  case True
  assume wf: "store_wf s"
  have "nr_key ` set (nodes_t s) \<inter> {n_key n} = {}" using True by (auto simp: node_row_id_None)
  with True wf next_row_id_fresh [of s] show ?thesis
    by (auto simp: upsert_node_def store_wf_def node_row_id_None)
next
  case False
  assume wf: "store_wf s"
  let ?f = "\<lambda>r. if nr_key r = n_key n then node_columns n (nr_id r) else r"
  have "map nr_key (map ?f xs) = map nr_key xs" "map nr_id (map ?f xs) = map nr_id xs" for xs
    by (induction xs) auto
  moreover have "nr_id ` ?f ` set xs = nr_id ` set xs" for xs
    unfolding image_image by (intro image_cong) auto
  moreover have "\<forall>r \<in> set (nodes_t s). row_ok (?f r)"
    using store_wfD(7) [OF wf] by simp
  ultimately show ?thesis using False wf
    by (simp add: upsert_node_def store_wf_def del: map_map if_image_distrib)
qed

lemma upsert_node_map:
  "node_map (upsert_node s n) = (node_map s)(n_key n \<mapsto> node_columns n 0)"
proof
  fix k
  show "node_map (upsert_node s n) k = ((node_map s)(n_key n \<mapsto> node_columns n 0)) k"
  proof (cases "node_row_id s (n_key n) = None")
    case True
    then show ?thesis
      by (auto simp: upsert_node_def node_map_def find_append node_columns_def node_row_id_def
          split: option.splits)
  next
    case False
    let ?f = "\<lambda>r. if nr_key r = n_key n then node_columns n (nr_id r) else r"
    have "(nr_key (?f r) = k) = (nr_key r = k)" for r by simp
    with False have find: "List.find (\<lambda>r. nr_key r = k) (nodes_t (upsert_node s n))
        = map_option ?f (List.find (\<lambda>r. nr_key r = k) (nodes_t s))"
      by (simp add: upsert_node_def find_map_list)
    from False obtain r where r: "List.find (\<lambda>r. nr_key r = n_key n) (nodes_t s) = Some r"
      by (auto simp: node_row_id_def)
    show ?thesis
    proof (cases "k = n_key n")
      case True
      with find r find_SomeD [OF r] show ?thesis
        by (simp add: node_map_def) (simp add: node_columns_def)
    next
      case other: False
      show ?thesis
      proof (cases "List.find (\<lambda>r. nr_key r = k) (nodes_t s)")
        case (Some x)
        with find_SomeD [OF Some] find other show ?thesis by (simp add: node_map_def)
      qed (use find other in \<open>simp add: node_map_def\<close>)
    qed
  qed
qed

lemma upsert_node_key_of:
  assumes "store_wf s" and "i \<in> nr_id ` set (nodes_t s)"
  shows "key_of (upsert_node s n) i = key_of s i"
proof (cases "node_row_id s (n_key n) = None")
  case True
  from assms(2) obtain r where "List.find (\<lambda>r. nr_id r = i) (nodes_t s) = Some r"
    using find_None_map [of nr_id i "nodes_t s"] by auto
  with True show ?thesis
    by (simp add: upsert_node_def key_of_def row_by_id_def find_append)
next
  case False
  have "(nr_id (if nr_key r = n_key n then node_columns n (nr_id r) else r) = i) = (nr_id r = i)" for r
    by simp
  with False show ?thesis
    by (auto simp: upsert_node_def key_of_def row_by_id_def find_map_list option.map_comp comp_def
        intro!: option.map_cong)
qed

lemma upsert_edge_select: "store_wf s \<Longrightarrow> edge_select (upsert_node s n) = edge_select s"
  using upsert_node_key_of [of s] store_wfD(4,5) [of s]
  by (simp add: edge_select_wf upsert_node_wf upsert_node_rows joined_def cong: map_cong)

lemma upsert_edge_map: "store_wf s \<Longrightarrow> edge_map (upsert_node s n) = edge_map s"
  by (simp add: edge_map_def upsert_edge_select fun_eq_iff)


lemma insert_edge_row_rows:
  "nodes_t (insert_edge_row s e i j) = nodes_t s" "sync_t (insert_edge_row s e i j) = sync_t s"
  "imports_t (insert_edge_row s e i j) = imports_t s"
  "context_t (insert_edge_row s e i j) = context_t s"
  by (simp_all add: insert_edge_row_def)

lemma insert_edge_row_key_of [simp]: "key_of (insert_edge_row s e i j) = key_of s"
  by (simp add: fun_eq_iff key_of_def row_by_id_def insert_edge_row_rows)

lemma insert_edge_row_node_map [simp]: "node_map (insert_edge_row s e i j) = node_map s"
  by (simp add: fun_eq_iff node_map_def insert_edge_row_rows)

lemma insert_edge_row_wf:
  assumes "store_wf s" "edge_is_valid e"
    and "node_row_id s (e_src e) = Some i" "node_row_id s (e_dst e) = Some j"
  shows "store_wf (insert_edge_row s e i j)"
proof -
  have "i \<in> nr_id ` set (nodes_t s)" "j \<in> nr_id ` set (nodes_t s)"
    using assms by (auto simp: node_row_id_Some)
  then show ?thesis
    using assms(1,2) by (auto simp: insert_edge_row_def store_wf_def edge_row_ok_columns)
qed

lemma edge_row_key_iff:
  assumes wf: "store_wf s"
    and ij: "node_row_id s (e_src e) = Some i" "node_row_id s (e_dst e) = Some j"
  shows "edge_row_key (edge_columns e i j) \<in> edge_row_key ` set (edges_t s) \<longleftrightarrow> edge_map s (ekey e) \<noteq> None"
proof -
  have "edge_row_key (edge_columns e i j) = edge_row_key r \<longleftrightarrow> join_key (joined (key_of s) r) = ekey e"
    if r: "r \<in> set (edges_t s)" for r
  proof -
    from store_wfD(4,5) [OF wf r] obtain x y
      where "key_of s (er_src r) = Some x" "key_of s (er_dst r) = Some y"
      by (metis key_of_None not_None_eq)
    then show ?thesis
      using ij key_of_inj [OF wf]
      by (auto simp: join_key_def joined_def ekey_def edge_row_key_def edge_columns_def
          key_of_id [OF wf, symmetric])
  qed
  then have "edge_row_key (edge_columns e i j) \<in> edge_row_key ` set (edges_t s)
      \<longleftrightarrow> (\<exists>r \<in> set (edges_t s). join_key (joined (key_of s) r) = ekey e)"
    unfolding image_iff by (rule bex_cong [OF refl])
  also have "\<dots> \<longleftrightarrow> ekey e \<in> join_key ` set (edge_select s)"
    unfolding edge_select_wf [OF wf] list.set_map image_image image_iff by metis
  also have "\<dots> \<longleftrightarrow> edge_map s (ekey e) \<noteq> None"
    by (simp add: edge_map_def find_None_map del: not_None_eq)
  finally show ?thesis .
qed

lemma insert_edge_row_map:
  assumes wf: "store_wf s" and valid: "edge_is_valid e"
    and ij: "node_row_id s (e_src e) = Some i" "node_row_id s (e_dst e) = Some j"
  shows "edge_map (insert_edge_row s e i j) =
           (if edge_map s (ekey e) = None
            then (edge_map s)(ekey e \<mapsto> (e_confidence e, e_src_ref e)) else edge_map s)"
proof (cases "edge_map s (ekey e) = None")
  case True
  then have rows: "edges_t (insert_edge_row s e i j) = edges_t s @ [edge_columns e i j]"
    using edge_row_key_iff [OF wf ij] by (simp add: insert_edge_row_def)
  have j: "joined (key_of s) (edge_columns e i j) =
      \<lparr>j_src = e_src e, j_dst = e_dst e, j_kind = edge_kind_as_str (e_kind e),
       j_provenance = provenance_as_str (e_provenance e),
       j_confidence = e_confidence e, j_src_ref = e_src_ref e\<rparr>"
    using ij by (simp add: joined_def edge_columns_def key_of_id [OF wf, symmetric])
  have "edge_select (insert_edge_row s e i j) = edge_select s @ [joined (key_of s) (edge_columns e i j)]"
    using insert_edge_row_wf [OF wf valid ij] wf by (simp add: edge_select_wf rows)
  with True show ?thesis
    by (auto simp: fun_eq_iff edge_map_def find_append j join_key_def ekey_def split: option.splits)
next
  case False
  then have "insert_edge_row s e i j = s"
    using edge_row_key_iff [OF wf ij] by (simp add: insert_edge_row_def)
  with False show ?thesis by (simp del: not_None_eq)
qed

text \<open>An edge goes in exactly when it is valid and both ends exist.\<close>

definition linkable :: "(string \<Rightarrow> node_row option) \<Rightarrow> edge \<Rightarrow> bool" where
  "linkable m e \<longleftrightarrow> edge_is_valid e \<and> m (e_src e) \<noteq> None \<and> m (e_dst e) \<noteq> None"

lemma insert_edge_cases:
  assumes "insert_edge s e = Ok s'"
  obtains i j where "edge_is_valid e" "node_row_id s (e_src e) = Some i"
    "node_row_id s (e_dst e) = Some j" "s' = insert_edge_row s e i j"
  using assms by (auto simp: insert_edge_def and_then_eq_Ok validate_edge_def
      split: option.splits if_splits)

lemma insert_edge_Ok_iff: "(\<exists>s'. insert_edge s e = Ok s') \<longleftrightarrow> linkable (node_map s) e"
  by (auto simp: insert_edge_def linkable_def validate_edge_def node_map_None split: option.splits)

lemma insert_edge_wf: "store_wf s \<Longrightarrow> insert_edge s e = Ok s' \<Longrightarrow> store_wf s'"
  by (erule insert_edge_cases) (simp add: insert_edge_row_wf)

lemma insert_edge_node_map: "insert_edge s e = Ok s' \<Longrightarrow> node_map s' = node_map s"
  by (erule insert_edge_cases) simp

lemma insert_edge_map:
  "store_wf s \<Longrightarrow> insert_edge s e = Ok s' \<Longrightarrow>
   edge_map s' = (if edge_map s (ekey e) = None
                  then (edge_map s)(ekey e \<mapsto> (e_confidence e, e_src_ref e)) else edge_map s)"
  by (erule insert_edge_cases) (simp add: insert_edge_row_map)

text \<open>Deleting an edge row removes its identity; deleting a node needs it free of edges.\<close>

lemma delete_edge_rows:
  "nodes_t (delete_edge s e) = nodes_t s" "sync_t (delete_edge s e) = sync_t s"
  "imports_t (delete_edge s e) = imports_t s" "context_t (delete_edge s e) = context_t s"
  by (simp_all add: delete_edge_def)

lemma delete_edge_key_of [simp]: "key_of (delete_edge s e) = key_of s"
  by (simp add: fun_eq_iff key_of_def row_by_id_def delete_edge_rows)

lemma delete_edge_node_map [simp]: "node_map (delete_edge s e) = node_map s"
  by (simp add: fun_eq_iff node_map_def delete_edge_rows)

lemma distinct_map_filter_key: "distinct (map f xs) \<Longrightarrow> distinct (map f (filter P xs))"
  by (simp add: distinct_map inj_on_def)

lemma edges_filter_wf: "store_wf s \<Longrightarrow> store_wf (s\<lparr>edges_t := filter P (edges_t s)\<rparr>)"
  by (auto simp: store_wf_def distinct_map_filter_key)

lemma delete_edge_wf: "store_wf s \<Longrightarrow> store_wf (delete_edge s e)"
  by (simp add: delete_edge_def edges_filter_wf)

lemma find_filter_key:
  "List.find (\<lambda>x. f x = k) (filter (\<lambda>x. f x \<noteq> k') xs) =
     (if k = k' then None else List.find (\<lambda>x. f x = k) xs)"
  by (induction xs) auto

lemma delete_edge_map:
  assumes wf: "store_wf s"
  shows "edge_map (delete_edge s e) = (edge_map s)(ekey e := None)"
proof -
  have "(Some (er_src r) = node_row_id s (e_src e) \<and> Some (er_dst r) = node_row_id s (e_dst e)
      \<and> er_kind r = edge_kind_as_str (e_kind e) \<and> er_provenance r = provenance_as_str (e_provenance e))
     \<longleftrightarrow> join_key (joined (key_of s) r) = ekey e" if r: "r \<in> set (edges_t s)" for r
  proof -
    from store_wfD(4,5) [OF wf r] obtain x y
      where "key_of s (er_src r) = Some x" "key_of s (er_dst r) = Some y"
      by (metis key_of_None not_None_eq)
    then show ?thesis
      by (auto simp: join_key_def joined_def ekey_def eq_commute [of "Some _" "node_row_id _ _"]
          key_of_id [OF wf, symmetric])
  qed
  then have "edges_t (delete_edge s e) =
      filter (\<lambda>r. join_key (joined (key_of s) r) \<noteq> ekey e) (edges_t s)"
    by (simp add: delete_edge_def cong: filter_cong)
  then have "edge_select (delete_edge s e) = filter (\<lambda>j. join_key j \<noteq> ekey e) (edge_select s)"
    using delete_edge_wf [OF wf, of e] by (simp add: edge_select_wf wf filter_map comp_def)
  then show ?thesis by (auto simp: fun_eq_iff edge_map_def find_filter_key)
qed

lemma delete_node_row_cases:
  assumes "store_wf s"
  shows "delete_node_row s k =
    (if node_map s k = None then Ok (s, 0)
     else if (\<exists>q v. edge_map s q = Some v \<and> (fst q = k \<or> fst (snd q) = k)) then Err ForeignKeyFailed
     else Ok (s\<lparr>nodes_t := filter (\<lambda>r. nr_key r \<noteq> k) (nodes_t s)\<rparr>, 1))"
proof (cases "node_row_id s k")
  case None
  then show ?thesis by (simp add: delete_node_row_def node_map_None)
next
  case (Some i)
  have "(\<exists>e \<in> set (edges_t s). er_src e = i \<or> er_dst e = i) \<longleftrightarrow>
      (\<exists>q v. edge_map s q = Some v \<and> (fst q = k \<or> fst (snd q) = k))"
  proof -
    have "(er_src r = i \<longleftrightarrow> j_src (joined (key_of s) r) = k) \<and> (er_dst r = i \<longleftrightarrow> j_dst (joined (key_of s) r) = k)"
      if r: "r \<in> set (edges_t s)" for r
    proof -
      from store_wfD(4,5) [OF assms r] obtain x y
        where "key_of s (er_src r) = Some x" "key_of s (er_dst r) = Some y"
        by (metis key_of_None not_None_eq)
      then show ?thesis
        using Some key_of_inj [OF assms] by (auto simp: joined_def key_of_id [OF assms, symmetric])
    qed
    then show ?thesis
      by (fastforce simp: edge_map_Some [OF assms] edge_select_wf [OF assms] join_key_def)
  qed
  with Some show ?thesis
    by (simp add: delete_node_row_def node_map_None list_ex_iff)
qed

lemma delete_node_row_wf:
  assumes wf: "store_wf s" and del: "delete_node_row s k = Ok (s', c)"
  shows "store_wf s' \<and> node_map s' = (node_map s)(k := None) \<and> edge_map s' = edge_map s
         \<and> sync_t s' = sync_t s \<and> imports_t s' = imports_t s \<and> context_t s' = context_t s"
proof (cases "node_row_id s k")
  case None
  with del have "s' = s" by (simp add: delete_node_row_def)
  with None wf show ?thesis by (auto simp: fun_eq_iff node_map_None)
next
  case (Some i)
  with del have free: "\<forall>e \<in> set (edges_t s). er_src e \<noteq> i \<and> er_dst e \<noteq> i"
    and s': "s' = s\<lparr>nodes_t := filter (\<lambda>r. nr_key r \<noteq> k) (nodes_t s)\<rparr>"
    by (auto simp: delete_node_row_def list_ex_iff split: if_splits)
  have id: "nr_key r \<noteq> k \<longleftrightarrow> nr_id r \<noteq> i" if "r \<in> set (nodes_t s)" for r
    using that Some wf by (auto simp: node_row_id_Some) (metis distinct_map_find option.inject store_wfD(1,2))+
  then have ids: "nr_id ` set (nodes_t s') = nr_id ` set (nodes_t s) - {i}"
    by (auto simp: s')
  have wf': "store_wf s'"
    using wf free ids by (auto simp: store_wf_def s' distinct_map_filter_key)
  have find_i: "List.find (\<lambda>r. nr_id r = h) (nodes_t s') = List.find (\<lambda>r. nr_id r = h) (nodes_t s)"
    if "h \<noteq> i" for h
  proof -
    have "filter (\<lambda>r. nr_key r \<noteq> k) (nodes_t s) = filter (\<lambda>r. nr_id r \<noteq> i) (nodes_t s)"
      using id by (rule filter_cong [OF refl])
    with that show ?thesis by (simp add: s' find_filter_key)
  qed
  have "key_of s' h = key_of s h" if "h \<noteq> i" for h
    using find_i [OF that] by (simp add: key_of_def row_by_id_def)
  then have "joined (key_of s') r = joined (key_of s) r" if "r \<in> set (edges_t s)" for r
    using free that by (simp add: joined_def)
  moreover have "edges_t s' = edges_t s" by (simp add: s')
  ultimately have "edge_select s' = edge_select s"
    unfolding edge_select_wf [OF wf] edge_select_wf [OF wf'] by (simp cong: map_cong)
  moreover have "node_map s' = (node_map s)(k := None)"
    by (auto simp: fun_eq_iff node_map_def s' find_filter_key)
  ultimately show ?thesis using wf' by (simp add: fun_eq_iff edge_map_def s')
qed

end
