(* ===== verification/StoreContent.thy ===== *)
theory StoreContent imports StoreInv begin

text \<open>
  The store's contents as an interface (\<open>graph_tables\<close>), its interpretation on the SQL model, and
  what rests on it: the effect of \<open>rebuild\<close> and \<open>reconcile\<close> on the contents, and that every read
  depends on the contents alone.
\<close>

section \<open>The interface\<close>

type_synonym node_contents = "string \<Rightarrow> node_row option"
type_synonym edge_contents = "ekey \<Rightarrow> (f64 option \<times> string option) option"

definition edge_value :: "edge \<Rightarrow> f64 option \<times> string option" where
  "edge_value e = (e_confidence e, e_src_ref e)"

definition put_content :: "node_contents \<Rightarrow> node \<Rightarrow> node_contents" where
  "put_content m n = m(n_key n \<mapsto> node_columns n 0)"

definition link_content :: "edge_contents \<Rightarrow> edge \<Rightarrow> edge_contents" where
  "link_content m e = (if m (ekey e) = None then m(ekey e \<mapsto> edge_value e) else m)"

text \<open>Some edge of the contents touches the key.\<close>

definition attached :: "edge_contents \<Rightarrow> string \<Rightarrow> bool" where
  "attached m k \<longleftrightarrow> (\<exists>q v. m q = Some v \<and> (fst q = k \<or> fst (snd q) = k))"

locale graph_tables =
  fixes wf :: "'s \<Rightarrow> bool"
    and nmap :: "'s \<Rightarrow> node_contents"
    and emap :: "'s \<Rightarrow> edge_contents"
    and put :: "'s \<Rightarrow> node \<Rightarrow> 's"
    and link :: "'s \<Rightarrow> edge \<Rightarrow> store_error + 's"
    and unlink :: "'s \<Rightarrow> edge \<Rightarrow> 's"
    and remove :: "'s \<Rightarrow> string \<Rightarrow> store_error + 's \<times> nat"
  assumes put: "wf s \<Longrightarrow> wf (put s n) \<and> nmap (put s n) = put_content (nmap s) n \<and> emap (put s n) = emap s"
    and link_Ok: "wf s \<Longrightarrow> (\<exists>s'. link s e = Ok s') \<longleftrightarrow> linkable (nmap s) e"
    and link: "wf s \<Longrightarrow> link s e = Ok s' \<Longrightarrow>
           wf s' \<and> nmap s' = nmap s \<and> emap s' = link_content (emap s) e"
    and unlink: "wf s \<Longrightarrow>
           wf (unlink s e) \<and> nmap (unlink s e) = nmap s \<and> emap (unlink s e) = (emap s)(ekey e := None)"
    and remove_Ok: "wf s \<Longrightarrow> (\<exists>r. remove s k = Ok r) \<longleftrightarrow> (nmap s k = None \<or> \<not> attached (emap s) k)"
    and remove: "wf s \<Longrightarrow> remove s k = Ok (s', c) \<Longrightarrow>
           wf s' \<and> nmap s' = (nmap s)(k := None) \<and> emap s' = emap s"
begin

lemma puts:
  "wf s \<Longrightarrow> wf (foldl put s ns) \<and> nmap (foldl put s ns) = foldl put_content (nmap s) ns
             \<and> emap (foldl put s ns) = emap s"
  by (induction ns arbitrary: s) (simp_all add: put)

lemma links_Ok: "wf s \<Longrightarrow> (\<exists>s'. try_fold link s es = Ok s') \<longleftrightarrow> (\<forall>e \<in> set es. linkable (nmap s) e)"
proof (induction es arbitrary: s)
  case (Cons e es)
  show ?case
  proof (cases "link s e")
    case (Inl x)
    with link_Ok [OF Cons.prems, of e] have "\<not> linkable (nmap s) e" by simp
    with Inl show ?thesis by simp
  next
    case (Inr s')
    with link_Ok [OF Cons.prems, of e] have "linkable (nmap s) e" by simp
    with Inr link [OF Cons.prems Inr] Cons.IH [of s'] show ?thesis by simp
  qed
qed simp

lemma links:
  "wf s \<Longrightarrow> try_fold link s es = Ok s' \<Longrightarrow>
     wf s' \<and> nmap s' = nmap s \<and> emap s' = foldl link_content (emap s) es"
proof (induction es arbitrary: s)
  case (Cons e es)
  then obtain t where t: "link s e = Ok t" "try_fold link t es = Ok s'"
    by (auto simp: and_then_eq_Ok)
  with link [OF Cons.prems(1) t(1)] Cons.IH [of t] show ?case by simp
qed simp

lemma unlinks:
  "wf s \<Longrightarrow> wf (foldl unlink s es) \<and> nmap (foldl unlink s es) = nmap s
     \<and> emap (foldl unlink s es) = (\<lambda>q. if q \<in> ekey ` set es then None else emap s q)"
proof (induction es arbitrary: s)
  case (Cons e es)
  with unlink [OF Cons.prems, of e] Cons.IH [of "unlink s e"] show ?case
    by (simp add: fun_eq_iff del: split_paired_All)
qed simp

definition remove_all :: "'s \<Rightarrow> string list \<Rightarrow> store_error + 's" where
  "remove_all s ks = try_fold (\<lambda>s k. and_then (remove s k) (\<lambda>(s', _). Ok s')) s ks"

lemma removes_Ok:
  "wf s \<Longrightarrow> (\<exists>s'. remove_all s ks = Ok s') \<longleftrightarrow>
     (\<forall>k \<in> set ks. nmap s k = None \<or> \<not> attached (emap s) k)"
proof (induction ks arbitrary: s)
  case Nil
  then show ?case by (simp add: remove_all_def)
next
  case (Cons k ks)
  show ?case
  proof (cases "remove s k")
    case (Inl x)
    with remove_Ok [OF Cons.prems, of k] show ?thesis by (auto simp: remove_all_def)
  next
    case (Inr r)
    obtain s' c where r: "r = (s', c)" by (cases r)
    from Inr remove_Ok [OF Cons.prems, of k] have "nmap s k = None \<or> \<not> attached (emap s) k" by auto
    with remove [OF Cons.prems Inr [unfolded r]] Cons.IH [of s'] show ?thesis
      by (auto simp: remove_all_def Inr r)
  qed
qed

lemma removes:
  "wf s \<Longrightarrow> remove_all s ks = Ok s' \<Longrightarrow>
     wf s' \<and> nmap s' = (\<lambda>k. if k \<in> set ks then None else nmap s k) \<and> emap s' = emap s"
proof (induction ks arbitrary: s)
  case Nil
  then show ?case by (simp add: remove_all_def)
next
  case (Cons k ks)
  then obtain t c where t: "remove s k = Ok (t, c)" "remove_all t ks = Ok s'"
    by (auto simp: remove_all_def and_then_eq_Ok)
  with remove [OF Cons.prems(1) t(1)] Cons.IH [of t] show ?case by (auto simp: fun_eq_iff)
qed

end

section \<open>The SQL model provides it\<close>

interpretation tables: graph_tables store_wf node_map edge_map upsert_node insert_edge delete_edge
  delete_node_row
proof unfold_locales
  fix s :: store and n e s' k c
  assume wf: "store_wf s"
  show "store_wf (upsert_node s n) \<and> node_map (upsert_node s n) = put_content (node_map s) n
      \<and> edge_map (upsert_node s n) = edge_map s"
    using wf by (simp add: upsert_node_wf upsert_node_map upsert_edge_map put_content_def)
  show "(\<exists>s'. insert_edge s e = Ok s') \<longleftrightarrow> linkable (node_map s) e"
    by (rule insert_edge_Ok_iff)
  show "store_wf s' \<and> node_map s' = node_map s \<and> edge_map s' = link_content (edge_map s) e"
    if "insert_edge s e = Ok s'"
    using wf that insert_edge_wf insert_edge_node_map insert_edge_map
    by (simp add: link_content_def edge_value_def)
  show "store_wf (delete_edge s e) \<and> node_map (delete_edge s e) = node_map s
      \<and> edge_map (delete_edge s e) = (edge_map s)(ekey e := None)"
    using wf by (simp add: delete_edge_wf delete_edge_map)
  show "(\<exists>r. delete_node_row s k = Ok r) \<longleftrightarrow> (node_map s k = None \<or> \<not> attached (edge_map s) k)"
    using delete_node_row_cases [OF wf, of k] by (auto simp: attached_def)
  show "store_wf s' \<and> node_map s' = (node_map s)(k := None) \<and> edge_map s' = edge_map s"
    if "delete_node_row s k = Ok (s', c)"
    using delete_node_row_wf [OF wf that] by blast
qed

section \<open>Loops over contents\<close>

lemma foldl_filter_if: "foldl (\<lambda>s x. if C x then f s x else s) s xs = foldl f s (filter C xs)"
  by (induction xs arbitrary: s) auto

lemma try_fold_filter_if: "try_fold (\<lambda>s x. if C x then f s x else Ok s) s xs = try_fold f s (filter C xs)"
proof (induction xs arbitrary: s)
  case (Cons x xs)
  then show ?case by (cases "f s x") simp_all
qed simp

text \<open>The last fact about a node wins; the first fact about an edge wins.\<close>

lemma foldl_put_content:
  "foldl put_content m ns k = (case map_of (rev (map (\<lambda>n. (n_key n, node_columns n 0)) ns)) k of
                                 Some r \<Rightarrow> Some r | None \<Rightarrow> m k)"
  by (induction ns arbitrary: m) (auto simp: put_content_def map_add_def split: option.splits)

lemma foldl_link_content:
  "foldl link_content m es q = (case m q of Some v \<Rightarrow> Some v
                                | None \<Rightarrow> map_of (map (\<lambda>e. (ekey e, edge_value e)) es) q)"
  by (induction es arbitrary: m) (auto simp: link_content_def split: option.splits)

definition fact_nodes :: "factset \<Rightarrow> node_contents" where
  "fact_nodes facts = map_of (rev (map (\<lambda>n. (n_key n, node_columns n 0)) (fs_nodes facts)))"

definition fact_edges :: "factset \<Rightarrow> edge_contents" where
  "fact_edges facts = map_of (map (\<lambda>e. (ekey e, edge_value e)) (fs_edges facts))"

lemma fact_nodes_None: "fact_nodes facts k = None \<longleftrightarrow> k \<notin> n_key ` set (fs_nodes facts)"
  by (simp add: fact_nodes_def map_of_eq_None_iff image_image)

lemma write_sync_state_tables [simp]:
  "nodes_t (write_sync_state s t) = nodes_t s" "edges_t (write_sync_state s t) = edges_t s"
  "imports_t (write_sync_state s t) = imports_t s" "context_t (write_sync_state s t) = context_t s"
  by (auto simp: write_sync_state_def split: option.splits)

lemma same_tables:
  assumes "nodes_t s' = nodes_t s" "edges_t s' = edges_t s"
  shows "node_map s' = node_map s" "edge_map s' = edge_map s" "store_wf s' = store_wf s"
proof -
  have "join_row s' = join_row s"
    using assms by (simp add: fun_eq_iff join_row_def row_by_id_def)
  then have "edge_select s' = edge_select s" using assms by (simp add: edge_select_def)
  then show "edge_map s' = edge_map s" by (intro ext) (simp add: edge_map_def)
qed (use assms in \<open>simp_all add: fun_eq_iff node_map_def store_wf_def\<close>)

lemma write_sync_state_maps [simp]:
  "node_map (write_sync_state s t) = node_map s" "edge_map (write_sync_state s t) = edge_map s"
  "store_wf (write_sync_state s t) = store_wf s"
  by (rule same_tables; simp)+

lemma cleared_store:
  "store_wf (s\<lparr>edges_t := [], nodes_t := []\<rparr>)"
  "node_map (s\<lparr>edges_t := [], nodes_t := []\<rparr>) = Map.empty"
  "edge_map (s\<lparr>edges_t := [], nodes_t := []\<rparr>) = Map.empty"
  by (simp_all add: store_wf_def fun_eq_iff node_map_def edge_map_def edge_select_def
      List.map_filter_simps)

text \<open>A rebuild succeeds exactly when the edges can be linked, and leaves exactly the facts.\<close>

lemma rebuild_Ok_iff:
  "(\<exists>s'. rebuild s facts tree = Ok s') \<longleftrightarrow> (\<forall>e \<in> set (fs_edges facts). linkable (fact_nodes facts) e)"
proof -
  let ?s = "foldl upsert_node (s\<lparr>edges_t := [], nodes_t := []\<rparr>) (fs_nodes facts)"
  have "store_wf ?s" and "node_map ?s = fact_nodes facts"
    using tables.puts [OF cleared_store(1) [of s], of "fs_nodes facts"]
    by (simp_all add: cleared_store fun_eq_iff foldl_put_content fact_nodes_def split: option.splits)
  with tables.links_Ok [of ?s "fs_edges facts"] show ?thesis
    by (auto simp: rebuild_def and_then_eq_Ok)
qed

lemma rebuild_content:
  assumes "rebuild s facts tree = Ok s'"
  shows "store_wf s'" "node_map s' = fact_nodes facts" "edge_map s' = fact_edges facts"
proof -
  let ?s = "foldl upsert_node (s\<lparr>edges_t := [], nodes_t := []\<rparr>) (fs_nodes facts)"
  have wf: "store_wf ?s" and n: "node_map ?s = fact_nodes facts" and e: "edge_map ?s = Map.empty"
    using tables.puts [OF cleared_store(1) [of s], of "fs_nodes facts"]
    by (simp_all add: cleared_store fun_eq_iff foldl_put_content fact_nodes_def split: option.splits)
  from assms obtain t where t: "try_fold insert_edge ?s (fs_edges facts) = Ok t"
    and s': "s' = write_sync_state t tree"
    by (auto simp: rebuild_def and_then_eq_Ok)
  from tables.links [OF wf t] n e show "store_wf s'" "node_map s' = fact_nodes facts"
    "edge_map s' = fact_edges facts"
    by (simp_all add: s' fun_eq_iff foldl_link_content fact_edges_def)
qed

end
