(* ===== verification/Reconcile.thy ===== *)
theory Reconcile imports StoreContent begin

text \<open>
  Reads of a well-formed store: they never fail, they depend on the contents only, and they decode
  what was written. On this rests the contract of \<open>Store::reconcile\<close>: it leaves the store that
  \<open>Store::rebuild\<close> would.
\<close>

section \<open>Decoding rows\<close>

lemma to_u32_uint [simp]: "to_u32 (uint (w :: u32)) = Ok w"
  using uint_lt2p [of w] by (simp add: to_u32_def)

lemma row_to_node_columns:
  "row_to_node (node_columns n i) = Ok (n\<lparr>n_kind := node_kind_norm (n_kind n)\<rparr>)"
  by (cases "n_span n") (simp_all add: row_to_node_def node_columns_def row_span_def node_kind_norm_def)

lemma node_columns_norm [simp]: "node_columns (n\<lparr>n_kind := node_kind_norm k\<rparr>) i = node_columns (n\<lparr>n_kind := k\<rparr>) i"
  by (simp add: node_columns_def node_kind_norm_def)

lemma row_to_node_strip [simp]: "row_to_node (r\<lparr>nr_id := i\<rparr>) = row_to_node r"
  by (simp add: row_to_node_def cong: option.case_cong)

lemma row_ok_decode:
  assumes "row_ok r"
  obtains n where "row_to_node r = Ok n" "node_columns n (nr_id r) = r"
proof -
  from assms obtain n where n: "r = node_columns n (nr_id r)" by (auto simp: row_ok_def)
  then have "row_to_node r = Ok (n\<lparr>n_kind := node_kind_norm (n_kind n)\<rparr>)"
    by (metis row_to_node_columns)
  with n that show thesis by simp
qed

lemma row_ok_strip: "row_ok r \<Longrightarrow> row_ok (r\<lparr>nr_id := 0\<rparr>)"
proof -
  assume "row_ok r"
  then obtain n where "r = node_columns n (nr_id r)" by (auto simp: row_ok_def)
  then have "r\<lparr>nr_id := 0\<rparr> = (node_columns n (nr_id r))\<lparr>nr_id := 0\<rparr>" by simp
  also have "\<dots> = node_columns n 0" by (simp add: node_columns_def)
  finally show ?thesis by simp
qed

lemma row_to_node_key: "row_to_node r = Ok n \<Longrightarrow> n_key n = nr_key r"
  by (auto simp: row_to_node_def and_then_eq_Ok split: option.splits)

lemma row_to_edge_key:
  assumes "row_to_edge j = Ok e"
  shows "ekey e = join_key j" "edge_value e = (j_confidence j, j_src_ref j)"
    "e_src e = j_src j" "e_dst e = j_dst j"
  using assms
  by (auto simp: row_to_edge_def ekey_def join_key_def edge_value_def provenance_from_token_Some
      split: option.splits)

lemma edge_row_decode:
  assumes "edge_row_ok r"
  obtains e where "row_to_edge (joined f r) = Ok e" "edge_is_valid e"
proof -
  from assms obtain e where e: "edge_is_valid e" "r = edge_columns e (er_src r) (er_dst r)"
    by (auto simp: edge_row_ok_def)
  let ?e = "e\<lparr>e_src := the (f (er_src r)), e_dst := the (f (er_dst r)), e_kind := edge_kind_norm (e_kind e)\<rparr>"
  have "er_kind r = edge_kind_as_str (e_kind e)" "er_provenance r = provenance_as_str (e_provenance e)"
    "er_confidence r = e_confidence e" "er_src_ref r = e_src_ref e"
    using e(2) by (metis edge_columns_def edge_row.select_convs)+
  then have "row_to_edge (joined f r) = Ok ?e"
    by (simp add: row_to_edge_def joined_def edge_kind_norm_def)
  moreover have "edge_is_valid ?e" using e(1) by (simp add: edge_is_valid_def)
  ultimately show thesis by (rule that)
qed

section \<open>Reads and contents\<close>

definition stripped :: "store \<Rightarrow> node_row list" where
  "stripped s = map (\<lambda>r. r\<lparr>nr_id := 0\<rparr>) (nodes_t s)"

lemma map_sort_key: "map f (sort_key (\<lambda>x. k (f x)) xs) = sort_key k (map f xs)"
proof -
  have "map f (insort_key (\<lambda>x. k (f x)) x ys) = insort_key k (f x) (map f ys)" for x ys
    by (induction ys) auto
  then show ?thesis by (induction xs) auto
qed

lemma try_map_map: "try_map f (map g xs) = try_map (\<lambda>x. f (g x)) xs"
  by (induction xs) auto

lemma select_nodes_stripped:
  assumes "\<And>r. P (r\<lparr>nr_id := 0\<rparr>) = P r"
  shows "select_nodes s P = collect_nodes (sort_key nr_key (filter P (stripped s)))"
proof -
  have "sort_key nr_key (filter P (stripped s)) =
      map (\<lambda>r. r\<lparr>nr_id := 0\<rparr>) (sort_key nr_key (filter P (nodes_t s)))"
    using map_sort_key [of "\<lambda>r. r\<lparr>nr_id := 0\<rparr>" nr_key "filter P (nodes_t s)"]
    by (simp add: stripped_def filter_map comp_def assms)
  then show ?thesis by (simp add: select_nodes_def collect_nodes_def try_map_map)
qed

lemma stripped_content:
  assumes wf: "store_wf s"
  shows "distinct (stripped s)" "r \<in> set (stripped s) \<longleftrightarrow> node_map s (nr_key r) = Some r"
    "inj_on nr_key (set (stripped s))"
proof -
  have keys: "distinct (map nr_key (stripped s))"
    using store_wfD(1) [OF wf] by (simp add: stripped_def comp_def)
  then show "distinct (stripped s)" "inj_on nr_key (set (stripped s))"
    by (simp_all add: distinct_map)
  have "node_map s k = List.find (\<lambda>r. nr_key r = k) (stripped s)" for k
    by (simp add: node_map_def stripped_def find_map_list)
  then show "r \<in> set (stripped s) \<longleftrightarrow> node_map s (nr_key r) = Some r"
    using find_distinct [OF keys, of "nr_key r" r] by simp
qed

lemma edge_select_content:
  assumes wf: "store_wf s"
  shows "distinct (edge_select s)" "inj_on join_key (set (edge_select s))"
    "j \<in> set (edge_select s) \<longleftrightarrow> edge_map s (join_key j) = Some (j_confidence j, j_src_ref j)"
proof -
  show "distinct (edge_select s)" and inj: "inj_on join_key (set (edge_select s))"
    using distinct_join_keys [OF wf] by (simp_all add: distinct_map)
  show "j \<in> set (edge_select s) \<longleftrightarrow> edge_map s (join_key j) = Some (j_confidence j, j_src_ref j)"
  proof
    assume "edge_map s (join_key j) = Some (j_confidence j, j_src_ref j)"
    then obtain i where i: "i \<in> set (edge_select s)" "join_key i = join_key j"
      "j_confidence i = j_confidence j" "j_src_ref i = j_src_ref j"
      by (auto simp: edge_map_Some [OF wf])
    then have "i = j" by (simp add: join_key_def edge_join.equality)
    with i show "j \<in> set (edge_select s)" by simp
  qed (auto simp: edge_map_Some [OF wf])
qed

lemma content_rows:
  assumes "store_wf s" "store_wf t" "node_map s = node_map t" "edge_map s = edge_map t"
  shows "set (stripped s) = set (stripped t)" "set (edge_select s) = set (edge_select t)"
  using stripped_content(2) [OF assms(1)] stripped_content(2) [OF assms(2)]
    edge_select_content(3) [OF assms(1)] edge_select_content(3) [OF assms(2)]
  by (auto simp: assms(3,4))

text \<open>Two stores with the same contents answer every query alike, whatever their row ids and order.\<close>

lemma select_nodes_content:
  assumes "store_wf s" "store_wf t" "node_map s = node_map t" "edge_map s = edge_map t"
    and P: "\<And>r. P (r\<lparr>nr_id := 0\<rparr>) = P r"
  shows "select_nodes s P = select_nodes t P"
proof -
  have "sort_key nr_key (filter P (stripped s)) = sort_key nr_key (filter P (stripped t))"
    using stripped_content [OF assms(1)] stripped_content [OF assms(2)] content_rows(1) [OF assms(1-4)]
    by (intro sort_key_content) (auto intro: inj_on_subset)
  then show ?thesis by (simp add: select_nodes_stripped P)
qed

lemma select_edges_content:
  assumes "store_wf s" "store_wf t" "node_map s = node_map t" "edge_map s = edge_map t"
    and "\<And>i j. Q i \<Longrightarrow> Q j \<Longrightarrow> k i = k j \<Longrightarrow> join_key i = join_key j"
  shows "sort_key k (filter Q (edge_select s)) = sort_key k (filter Q (edge_select t))"
proof (rule sort_key_content)
  show "inj_on k (set (filter Q (edge_select s)))"
    using edge_select_content(2) [OF assms(1)] assms(5) by (auto simp: inj_on_def)
qed (use edge_select_content(1) [OF assms(1)] edge_select_content(1) [OF assms(2)]
      content_rows(2) [OF assms(1-4)] in auto)

lemma content_reads:
  assumes "store_wf s" "store_wf t" "node_map s = node_map t" "edge_map s = edge_map t"
  shows "all_nodes s = all_nodes t" "all_edges s = all_edges t" "get_node s k = get_node t k"
    "nodes_by_kind s kd = nodes_by_kind t kd" "nodes_by_path s q = nodes_by_path t q"
    "nodes_by_provenance s p = nodes_by_provenance t p" "edges_from s k = edges_from t k"
    "edges_to s k = edges_to t k" "edges_by_provenance s p = edges_by_provenance t p"
proof -
  note nodes = select_nodes_content [OF assms] and edges = select_edges_content [OF assms]
  show "all_nodes s = all_nodes t" "nodes_by_kind s kd = nodes_by_kind t kd"
    "nodes_by_path s q = nodes_by_path t q" "nodes_by_provenance s p = nodes_by_provenance t p"
    by (simp_all add: all_nodes_def nodes_by_kind_def nodes_by_path_def nodes_by_provenance_def
        nodes)
  have "sort_key (\<lambda>j. (j_src j, j_dst j, j_kind j, j_provenance j)) (edge_select s) =
      sort_key (\<lambda>j. (j_src j, j_dst j, j_kind j, j_provenance j)) (edge_select t)"
    using edges [of "\<lambda>_. True" "\<lambda>j. (j_src j, j_dst j, j_kind j, j_provenance j)"]
    by (simp add: join_key_def)
  then show "all_edges s = all_edges t" by (simp add: all_edges_def)
  show "edges_from s k = edges_from t k" "edges_to s k = edges_to t k"
    "edges_by_provenance s p = edges_by_provenance t p"
    unfolding edges_from_def edges_to_def edges_by_provenance_def
    by (rule arg_cong [where f = collect_edges], rule edges, simp add: join_key_def)+
  have "get_node u k = (case node_map u k of Some r \<Rightarrow> and_then (row_to_node r) (\<lambda>n. Ok (Some n))
                        | None \<Rightarrow> Ok None)" for u
    by (simp add: get_node_def node_map_def split: option.splits)
  then show "get_node s k = get_node t k" by (simp add: assms(3))
qed

text \<open>Reads of a well-formed store succeed and are its contents.\<close>

lemma all_nodes_Ok:
  assumes wf: "store_wf s"
  obtains ns where "all_nodes s = Ok ns" "sorted (map n_key ns)" "distinct (map n_key ns)"
    "\<And>k r. node_map s k = Some r \<longleftrightarrow> (\<exists>n \<in> set ns. n_key n = k \<and> node_columns n 0 = r)"
proof -
  let ?rows = "sort_key nr_key (stripped s)"
  have ok: "row_ok r" if "r \<in> set (stripped s)" for r
    using that store_wfD(7) [OF wf] by (auto simp: stripped_def row_ok_strip)
  define dec where "dec r = (SOME n. row_to_node r = Ok n \<and> node_columns n (nr_id r) = r)" for r
  have dec: "row_to_node r = Ok (dec r) \<and> node_columns (dec r) (nr_id r) = r" if "row_ok r" for r
    unfolding dec_def by (rule someI_ex) (use that in \<open>blast elim: row_ok_decode\<close>)
  have all: "all_nodes s = Ok (map dec ?rows)"
  proof -
    have "try_map row_to_node ?rows = Ok (map dec ?rows)"
      by (rule try_map_total) (use ok dec in simp)
    then show ?thesis by (simp add: all_nodes_def select_nodes_stripped collect_nodes_def)
  qed
  have key: "n_key (dec r) = nr_key r" if "r \<in> set (stripped s)" for r
    using dec [OF ok [OF that]] row_to_node_key by blast
  then have keys: "map n_key (map dec ?rows) = map nr_key ?rows" by simp
  have id0: "nr_id r = 0" if "r \<in> set (stripped s)" for r using that by (auto simp: stripped_def)
  have "distinct (map nr_key ?rows)"
    using stripped_content [OF wf] by (simp add: distinct_map)
  moreover have "node_map s k = Some r \<longleftrightarrow> (\<exists>n \<in> set (map dec ?rows). n_key n = k \<and> node_columns n 0 = r)" for k r
  proof -
    have "nr_key r = k" if "node_map s k = Some r"
      using that by (auto simp: node_map_def dest: find_SomeD)
    then have "node_map s k = Some r \<longleftrightarrow> r \<in> set (stripped s) \<and> nr_key r = k"
      using stripped_content(2) [OF wf] by auto
    also have "\<dots> \<longleftrightarrow> (\<exists>x \<in> set (stripped s). n_key (dec x) = k \<and> node_columns (dec x) 0 = r)"
      using dec [OF ok] id0 key by (metis (no_types, lifting))
    finally show ?thesis by simp
  qed
  moreover have "sorted (map n_key (map dec ?rows))" unfolding keys by simp
  ultimately show thesis using that [OF all, unfolded keys] by (metis keys)
qed

lemma all_edges_Ok:
  assumes wf: "store_wf s"
  obtains es where "all_edges s = Ok es" "distinct (map ekey es)"
    "\<And>q v. edge_map s q = Some v \<longleftrightarrow> (\<exists>e \<in> set es. ekey e = q \<and> edge_value e = v)"
    "\<And>e. e \<in> set es \<Longrightarrow> edge_is_valid e"
proof -
  let ?js = "sort_key (\<lambda>j. (j_src j, j_dst j, j_kind j, j_provenance j)) (edge_select s)"
  define dec where "dec j = (SOME e. row_to_edge j = Ok e \<and> edge_is_valid e)" for j
  have dec: "row_to_edge j = Ok (dec j) \<and> edge_is_valid (dec j)" if "j \<in> set (edge_select s)" for j
  proof -
    from that obtain r where "r \<in> set (edges_t s)" "j = joined (key_of s) r"
      by (auto simp: edge_select_wf [OF wf])
    with store_wfD(6) [OF wf] have "\<exists>e. row_to_edge j = Ok e \<and> edge_is_valid e"
      by (metis edge_row_decode)
    then show ?thesis unfolding dec_def by (rule someI_ex)
  qed
  have all: "all_edges s = Ok (map dec ?js)"
    unfolding all_edges_def collect_edges_def by (rule try_map_total) (use dec in simp)
  have "map ekey (map dec ?js) = map join_key ?js" using dec row_to_edge_key(1) by auto
  moreover have "distinct (map join_key ?js)"
    using edge_select_content [OF wf] by (simp add: distinct_map)
  ultimately have "distinct (map ekey (map dec ?js))" by (simp only:)
  moreover have "edge_map s q = Some v \<longleftrightarrow> (\<exists>e \<in> set (map dec ?js). ekey e = q \<and> edge_value e = v)" for q v
  proof -
    have "ekey (dec j) = join_key j \<and> edge_value (dec j) = (j_confidence j, j_src_ref j)"
      if "j \<in> set (edge_select s)" for j
      using dec [OF that] row_to_edge_key(1,2) by simp
    then show ?thesis by (auto simp: edge_map_Some [OF wf])
  qed
  moreover have "edge_is_valid e" if "e \<in> set (map dec ?js)" for e using that dec by auto
  ultimately show thesis by (intro that [OF all]) simp_all
qed


section \<open>Writing the difference\<close>

lemma try_fold_map: "try_fold f s (map g xs) = try_fold (\<lambda>s x. f s (g x)) s xs"
proof (induction xs arbitrary: s)
  case (Cons x xs)
  then show ?case by (cases "f s (g x)") simp_all
qed simp

lemma edge_identity_eq: "edge_identity e = edge_identity e' \<longleftrightarrow> ekey e = ekey e' \<and> edge_value e = edge_value e'"
  by (auto simp: edge_identity_def ekey_def edge_value_def)

lemma edge_is_valid_identity: "edge_identity e = edge_identity e' \<Longrightarrow> edge_is_valid e = edge_is_valid e'"
  by (simp add: edge_identity_def edge_is_valid_def)

lemma map_of_keyed:
  assumes "\<And>x y. x \<in> set xs \<Longrightarrow> y \<in> set xs \<Longrightarrow> f x = f y \<Longrightarrow> g x = g y"
  shows "map_of (map (\<lambda>x. (f x, g x)) xs) k = Some v \<longleftrightarrow> (\<exists>x \<in> set xs. f x = k \<and> g x = v)"
  using assms
proof (induction xs)
  case (Cons x xs)
  show ?case
  proof (cases "f x = k")
    case True
    have same: "g y = g x" if "y \<in> set (x # xs)" "f y = k" for y
      by (rule Cons.prems [OF that(1) list.set_intros(1)], rule trans [OF that(2) True [symmetric]])
    have "(\<exists>y \<in> set (x # xs). f y = k \<and> g y = v) \<longleftrightarrow> g x = v"
    proof
      assume "\<exists>y \<in> set (x # xs). f y = k \<and> g y = v"
      then obtain y where "y \<in> set (x # xs)" "f y = k" "g y = v" by blast
      from same [OF this(1,2)] this(3) show "g x = v" by (rule trans [OF sym])
    next
      assume "g x = v"
      with True show "\<exists>y \<in> set (x # xs). f y = k \<and> g y = v" by (intro bexI [of _ x] conjI list.set_intros(1))
    qed
    then show ?thesis using True by simp
  next
    case False
    have "map_of (map (\<lambda>x. (f x, g x)) xs) k = Some v \<longleftrightarrow> (\<exists>x \<in> set xs. f x = k \<and> g x = v)"
      by (rule Cons.IH) (metis Cons.prems list.set_intros(2))
    with False show ?thesis by simp
  qed
qed simp

text \<open>No two facts about one node that say different things, none about one edge. A fact may be repeated.\<close>

definition facts_consistent :: "factset \<Rightarrow> bool" where
  "facts_consistent facts \<longleftrightarrow>
     (\<forall>m \<in> set (fs_nodes facts). \<forall>n \<in> set (fs_nodes facts). n_key m = n_key n \<longrightarrow> node_columns m 0 = node_columns n 0)
     \<and> (\<forall>d \<in> set (fs_edges facts). \<forall>e \<in> set (fs_edges facts). ekey d = ekey e \<longrightarrow> edge_value d = edge_value e)"

lemma facts_consistentD:
  assumes "facts_consistent facts"
  shows "m \<in> set (fs_nodes facts) \<Longrightarrow> n \<in> set (fs_nodes facts) \<Longrightarrow> n_key m = n_key n \<Longrightarrow> node_columns m 0 = node_columns n 0"
    "d \<in> set (fs_edges facts) \<Longrightarrow> e \<in> set (fs_edges facts) \<Longrightarrow> ekey d = ekey e \<Longrightarrow> edge_value d = edge_value e"
  using assms unfolding facts_consistent_def by blast+

text \<open>No fact is repeated.\<close>

definition facts_distinct :: "factset \<Rightarrow> bool" where
  "facts_distinct facts \<longleftrightarrow> distinct (map n_key (fs_nodes facts)) \<and> distinct (map ekey (fs_edges facts))"

lemma facts_distinct_consistent [intro]: "facts_distinct facts \<Longrightarrow> facts_consistent facts"
  unfolding facts_distinct_def facts_consistent_def distinct_map inj_on_def by blast

lemma fact_edges_Some:
  "facts_consistent facts \<Longrightarrow>
   fact_edges facts q = Some v \<longleftrightarrow> (\<exists>e \<in> set (fs_edges facts). ekey e = q \<and> edge_value e = v)"
  unfolding fact_edges_def by (rule map_of_keyed) (erule facts_consistentD)

lemma fact_nodes_Some:
  assumes "facts_consistent facts"
  shows "fact_nodes facts k = Some r \<longleftrightarrow> (\<exists>n \<in> set (fs_nodes facts). n_key n = k \<and> node_columns n 0 = r)"
proof -
  have "map_of (map (\<lambda>n. (n_key n, node_columns n 0)) (rev (fs_nodes facts))) k = Some r
      \<longleftrightarrow> (\<exists>n \<in> set (rev (fs_nodes facts)). n_key n = k \<and> node_columns n 0 = r)"
    by (rule map_of_keyed, rule facts_consistentD(1) [OF assms]) (unfold set_rev)
  then show ?thesis by (simp add: fact_nodes_def rev_map [symmetric])
qed

text \<open>What consistent facts leave depends on which facts there are, not on their order or number.\<close>

lemma facts_consistent_sets:
  assumes n: "set (fs_nodes f) = set (fs_nodes g)" and e: "set (fs_edges f) = set (fs_edges g)"
    and f: "facts_consistent f"
  shows "facts_consistent g" "fact_nodes f = fact_nodes g" "fact_edges f = fact_edges g"
proof -
  show g: "facts_consistent g" using f unfolding facts_consistent_def n e .
  have "fact_nodes f k = Some r \<longleftrightarrow> fact_nodes g k = Some r" for k r
    unfolding fact_nodes_Some [OF f] fact_nodes_Some [OF g] n ..
  then show "fact_nodes f = fact_nodes g" by (intro ext option_eqI_Some)
  have "fact_edges f q = Some v \<longleftrightarrow> fact_edges g q = Some v" for q v
    unfolding fact_edges_Some [OF f] fact_edges_Some [OF g] e ..
  then show "fact_edges f = fact_edges g" by (intro ext option_eqI_Some)
qed

definition stale_edges :: "edge list \<Rightarrow> factset \<Rightarrow> edge list" where
  "stale_edges ce facts = filter (\<lambda>e. edge_identity e \<notin> edge_identity ` set (fs_edges facts)) ce"

definition stale_keys :: "node list \<Rightarrow> factset \<Rightarrow> string list" where
  "stale_keys cn facts = map n_key (filter (\<lambda>n. n_key n \<notin> n_key ` set (fs_nodes facts)) cn)"

definition changed_nodes :: "node list \<Rightarrow> factset \<Rightarrow> node list" where
  "changed_nodes cn facts =
     filter (\<lambda>n. map_of (map (\<lambda>n. (n_key n, n)) (rev cn)) (n_key n) \<noteq> Some n) (fs_nodes facts)"

definition added_edges :: "edge list \<Rightarrow> factset \<Rightarrow> edge list" where
  "added_edges ce facts = filter (\<lambda>e. edge_identity e \<notin> edge_identity ` set ce) (fs_edges facts)"

lemma reconcile_phases:
  assumes "all_nodes s = Ok cn" "all_edges s = Ok ce"
  shows "reconcile s facts tree =
    and_then (tables.remove_all (foldl delete_edge s (stale_edges ce facts)) (stale_keys cn facts)) (\<lambda>s2.
    and_then (try_fold insert_edge (foldl upsert_node s2 (changed_nodes cn facts)) (added_edges ce facts))
      (\<lambda>s4. Ok (write_sync_state s4 tree)))"
  by (simp add: reconcile_def assms Let_def foldl_filter_if try_fold_filter_if try_fold_map
      tables.remove_all_def stale_edges_def stale_keys_def changed_nodes_def added_edges_def)

text \<open>What the code reads before it starts writing.\<close>

definition snapshot :: "store \<Rightarrow> node list \<Rightarrow> edge list \<Rightarrow> bool" where
  "snapshot s cn ce \<longleftrightarrow> store_wf s \<and> all_nodes s = Ok cn \<and> all_edges s = Ok ce"

lemma snapshot_ex:
  assumes "store_wf s"
  obtains cn ce where "snapshot s cn ce"
  using assms that all_nodes_Ok [OF assms] all_edges_Ok [OF assms] unfolding snapshot_def by metis

lemma snapshotD:
  assumes "snapshot s cn ce"
  shows "store_wf s" "distinct (map n_key cn)"
    "node_map s k = Some r \<longleftrightarrow> (\<exists>n \<in> set cn. n_key n = k \<and> node_columns n 0 = r)"
    "edge_map s q = Some v \<longleftrightarrow> (\<exists>e \<in> set ce. ekey e = q \<and> edge_value e = v)"
    "e \<in> set ce \<Longrightarrow> edge_is_valid e"
proof -
  from assms have wf: "store_wf s" and n: "all_nodes s = Ok cn" and e: "all_edges s = Ok ce"
    by (simp_all add: snapshot_def)
  show "store_wf s" by (rule wf)
  show "distinct (map n_key cn)" by (rule all_nodes_Ok [OF wf]) (simp add: n)
  show "node_map s k = Some r \<longleftrightarrow> (\<exists>n \<in> set cn. n_key n = k \<and> node_columns n 0 = r)"
    by (rule all_nodes_Ok [OF wf]) (simp add: n)
  show "edge_map s q = Some v \<longleftrightarrow> (\<exists>e \<in> set ce. ekey e = q \<and> edge_value e = v)"
    by (rule all_edges_Ok [OF wf]) (simp add: e)
  show "e \<in> set ce \<Longrightarrow> edge_is_valid e"
    by (rule all_edges_Ok [OF wf]) (simp add: e)
qed

lemma fresh_iff:
  assumes "facts_consistent facts"
  shows "edge_identity e \<in> edge_identity ` set (fs_edges facts)
           \<longleftrightarrow> fact_edges facts (ekey e) = Some (edge_value e)"
  unfolding fact_edges_Some [OF assms] image_iff edge_identity_eq by metis

lemma current_iff:
  assumes "snapshot s cn ce"
  shows "edge_identity e \<in> edge_identity ` set ce \<longleftrightarrow> edge_map s (ekey e) = Some (edge_value e)"
  unfolding snapshotD(4) [OF assms] image_iff edge_identity_eq by metis

lemma after_unlink:
  assumes d: "facts_consistent facts" and sn: "snapshot s cn ce"
  shows "(if q \<in> ekey ` set (stale_edges ce facts) then None else edge_map s q)
     = (if edge_map s q = fact_edges facts q then edge_map s q else None)"
proof (cases "edge_map s q")
  case (Some v)
  then obtain e where e: "e \<in> set ce" "ekey e = q" "edge_value e = v" by (auto simp: snapshotD(4) [OF sn])
  have "q \<in> ekey ` set (stale_edges ce facts) \<longleftrightarrow> fact_edges facts q \<noteq> Some v"
  proof
    assume "q \<in> ekey ` set (stale_edges ce facts)"
    then obtain e' where e': "e' \<in> set ce" "ekey e' = q" "fact_edges facts q \<noteq> Some (edge_value e')"
      by (auto simp: stale_edges_def fresh_iff [OF d])
    with snapshotD(4) [OF sn] have "edge_map s q = Some (edge_value e')" by blast
    with Some e'(3) show "fact_edges facts q \<noteq> Some v" by simp
  next
    assume "fact_edges facts q \<noteq> Some v"
    with e show "q \<in> ekey ` set (stale_edges ce facts)"
      by (force simp: stale_edges_def fresh_iff [OF d])
  qed
  with Some show ?thesis by auto
qed simp

lemma stale_iff:
  assumes sn: "snapshot s cn ce"
  shows "k \<in> set (stale_keys cn facts) \<longleftrightarrow> fact_nodes facts k = None \<and> node_map s k \<noteq> None"
proof -
  have "node_map s k \<noteq> None \<longleftrightarrow> k \<in> n_key ` set cn"
    using snapshotD(3) [OF sn] by (metis (no_types, lifting) image_iff not_None_eq)
  moreover have "set (stale_keys cn facts) = n_key ` set cn - n_key ` set (fs_nodes facts)"
    by (auto simp: stale_keys_def)
  ultimately show ?thesis by (auto simp: fact_nodes_None)
qed

lemma after_put:
  assumes d: "facts_consistent facts" and sn: "snapshot s cn ce"
    and m: "\<And>k. m k = (if fact_nodes facts k = None then None else node_map s k)"
  shows "foldl put_content m (changed_nodes cn facts) = fact_nodes facts"
proof
  fix k
  let ?c = "map_of (rev (map (\<lambda>n. (n_key n, node_columns n 0)) (changed_nodes cn facts)))"
  have c: "?c k = Some r \<longleftrightarrow> (\<exists>n \<in> set (changed_nodes cn facts). n_key n = k \<and> node_columns n 0 = r)" for r
  proof -
    have "map_of (map (\<lambda>n. (n_key n, node_columns n 0)) (rev (changed_nodes cn facts))) k = Some r
        \<longleftrightarrow> (\<exists>n \<in> set (rev (changed_nodes cn facts)). n_key n = k \<and> node_columns n 0 = r)"
      by (rule map_of_keyed) (metis (no_types, lifting) facts_consistentD(1) [OF d] changed_nodes_def filter_is_subset set_rev subsetD)
    then show ?thesis by (simp add: rev_map)
  qed
  show "foldl put_content m (changed_nodes cn facts) k = fact_nodes facts k"
  proof (cases "?c k")
    case (Some r)
    then obtain n where "n \<in> set (changed_nodes cn facts)" "n_key n = k" "node_columns n 0 = r"
      using c by blast
    then have "fact_nodes facts k = Some r"
      by (auto simp: fact_nodes_Some [OF d] changed_nodes_def)
    with Some show ?thesis by (simp add: foldl_put_content)
  next
    case None
    have "node_map s k = Some r" if r: "fact_nodes facts k = Some r" for r
    proof -
      from r obtain n where n: "n \<in> set (fs_nodes facts)" "n_key n = k" "node_columns n 0 = r"
        by (auto simp: fact_nodes_Some [OF d])
      with None have "n \<notin> set (changed_nodes cn facts)" using c by (metis option.distinct(1))
      with n have "map_of (map (\<lambda>n. (n_key n, n)) (rev cn)) k = Some n"
        by (auto simp: changed_nodes_def)
      then have "n \<in> set cn" by (auto dest: map_of_SomeD)
      with n show ?thesis by (auto simp: snapshotD(3) [OF sn])
    qed
    with None m show ?thesis
      by (cases "fact_nodes facts k") (simp_all add: foldl_put_content)
  qed
qed

lemma after_link:
  assumes d: "facts_consistent facts" and sn: "snapshot s cn ce"
    and m: "\<And>q. m q = (if edge_map s q = fact_edges facts q then edge_map s q else None)"
  shows "foldl link_content m (added_edges ce facts) = fact_edges facts"
proof
  fix q
  have "map_of (map (\<lambda>e. (ekey e, edge_value e)) (added_edges ce facts)) q = Some v
      \<longleftrightarrow> (\<exists>e \<in> set (added_edges ce facts). ekey e = q \<and> edge_value e = v)" for v
    by (rule map_of_keyed) (metis (no_types, lifting) facts_consistentD(2) [OF d] added_edges_def filter_is_subset subsetD)
  then have a: "map_of (map (\<lambda>e. (ekey e, edge_value e)) (added_edges ce facts)) q = Some v
      \<longleftrightarrow> fact_edges facts q = Some v \<and> edge_map s q \<noteq> Some v" for v
    unfolding fact_edges_Some [OF d] by (auto simp: added_edges_def current_iff [OF sn])
  have "map_of (map (\<lambda>e. (ekey e, edge_value e)) (added_edges ce facts)) q
      = (if edge_map s q = fact_edges facts q then None else fact_edges facts q)"
    by (rule option_eqI_Some) (auto simp: a)
  then show "foldl link_content m (added_edges ce facts) q = fact_edges facts q"
    using m [of q] by (auto simp: foldl_link_content split: option.splits)
qed

text \<open>An edge the difference keeps in place was valid when it was written, and its ends survive.\<close>

lemma kept_linkable:
  assumes d: "facts_consistent facts" and sn: "snapshot s cn ce"
    and e: "e \<in> set (fs_edges facts)" "e \<notin> set (added_edges ce facts)"
    and free: "\<And>k. fact_nodes facts k = None \<Longrightarrow> node_map s k \<noteq> None \<Longrightarrow>
        \<not> attached (\<lambda>q. if edge_map s q = fact_edges facts q then edge_map s q else None) k"
  shows "linkable (fact_nodes facts) e"
proof -
  from e have id: "edge_identity e \<in> edge_identity ` set ce" by (simp add: added_edges_def)
  then have valid: "edge_is_valid e"
    using snapshotD(5) [OF sn] edge_is_valid_identity by blast
  from id have cur: "edge_map s (ekey e) = Some (edge_value e)" by (simp add: current_iff [OF sn])
  moreover have "fact_edges facts (ekey e) = Some (edge_value e)"
    using e(1) by (auto simp: fact_edges_Some [OF d])
  ultimately have "attached (\<lambda>q. if edge_map s q = fact_edges facts q then edge_map s q else None) k"
    if "k = e_src e \<or> k = e_dst e" for k
    using that unfolding attached_def by (intro exI [of _ "ekey e"] exI [of _ "edge_value e"])
      (auto simp: ekey_def)
  moreover have "node_map s (e_src e) \<noteq> None \<and> node_map s (e_dst e) \<noteq> None"
    using edge_map_endpoints [OF snapshotD(1) [OF sn] cur [unfolded ekey_def]] .
  ultimately show ?thesis using free valid unfolding linkable_def by blast
qed


text \<open>The two writes agree, on success and on what they leave.\<close>

lemma reconcile_content:
  assumes d: "facts_consistent facts" and sn: "snapshot s cn ce"
    and r: "reconcile s facts tree = Ok t"
  shows "store_wf t \<and> node_map t = fact_nodes facts \<and> edge_map t = fact_edges facts"
proof -
  let ?s1 = "foldl delete_edge s (stale_edges ce facts)"
  from r sn obtain s2 s4 where s2: "tables.remove_all ?s1 (stale_keys cn facts) = Ok s2"
    and s4: "try_fold insert_edge (foldl upsert_node s2 (changed_nodes cn facts)) (added_edges ce facts) = Ok s4"
    and t: "t = write_sync_state s4 tree"
    by (auto simp: reconcile_phases snapshot_def and_then_eq_Ok)
  note u1 = tables.unlinks [OF snapshotD(1) [OF sn], of "stale_edges ce facts"]
  have wf1: "store_wf ?s1" using u1 by blast
  note u2 = tables.removes [OF wf1 s2]
  have wf2: "store_wf s2" using u2 by blast
  let ?s3 = "foldl upsert_node s2 (changed_nodes cn facts)"
  note u3 = tables.puts [OF wf2, of "changed_nodes cn facts"]
  have wf3: "store_wf ?s3" using u3 by blast
  note u4 = tables.links [OF wf3 s4]
  have "node_map s2 k = (if fact_nodes facts k = None then None else node_map s k)" for k
    using u1 u2 stale_iff [OF sn, of k facts] by auto
  then have n3: "node_map ?s3 = fact_nodes facts"
    using u3 after_put [OF d sn] by simp
  have "edge_map ?s3 q = (if edge_map s q = fact_edges facts q then edge_map s q else None)" for q
    using u1 u2 u3 after_unlink [OF d sn, of q] by simp
  then have "edge_map s4 = fact_edges facts"
    using u4 after_link [OF d sn, of "edge_map ?s3"] by simp
  with n3 show ?thesis using u4 by (simp add: t)
qed

lemma reconcile_Ok_iff:
  assumes d: "facts_consistent facts" and sn: "snapshot s cn ce"
  shows "(\<exists>t. reconcile s facts tree = Ok t) \<longleftrightarrow> (\<forall>e \<in> set (fs_edges facts). linkable (fact_nodes facts) e)"
proof -
  let ?s1 = "foldl delete_edge s (stale_edges ce facts)"
  let ?m = "\<lambda>q. if edge_map s q = fact_edges facts q then edge_map s q else None"
  note u1 = tables.unlinks [OF snapshotD(1) [OF sn], of "stale_edges ce facts"]
  have wf1: "store_wf ?s1" and n1: "node_map ?s1 = node_map s" using u1 by auto
  have e1: "edge_map ?s1 = ?m" using u1 after_unlink [OF d sn] by auto
  have free: "(\<exists>s2. tables.remove_all ?s1 (stale_keys cn facts) = Ok s2) \<longleftrightarrow>
      (\<forall>k. fact_nodes facts k = None \<longrightarrow> node_map s k \<noteq> None \<longrightarrow> \<not> attached ?m k)"
  proof -
    have "(\<exists>s2. tables.remove_all ?s1 (stale_keys cn facts) = Ok s2) \<longleftrightarrow>
        (\<forall>k \<in> set (stale_keys cn facts). node_map s k = None \<or> \<not> attached ?m k)"
      using tables.removes_Ok [OF wf1, of "stale_keys cn facts"] by (simp only: n1 e1)
    also have "(\<forall>k \<in> set (stale_keys cn facts). node_map s k = None \<or> \<not> A k) \<longleftrightarrow>
        (\<forall>k. fact_nodes facts k = None \<longrightarrow> node_map s k \<noteq> None \<longrightarrow> \<not> A k)" for A
      unfolding Ball_def stale_iff [OF sn] by auto
    finally show ?thesis .
  qed
  have adds: "(\<exists>s4. try_fold insert_edge (foldl upsert_node s2 (changed_nodes cn facts)) (added_edges ce facts) = Ok s4)
      \<longleftrightarrow> (\<forall>e \<in> set (added_edges ce facts). linkable (fact_nodes facts) e)"
    if s2: "tables.remove_all ?s1 (stale_keys cn facts) = Ok s2" for s2
  proof -
    note u2 = tables.removes [OF wf1 s2]
    have wf2: "store_wf s2" using u2 by blast
    note u3 = tables.puts [OF wf2, of "changed_nodes cn facts"]
    have "node_map s2 k = (if fact_nodes facts k = None then None else node_map s k)" for k
      using u1 u2 stale_iff [OF sn, of k facts] by auto
    then have "node_map (foldl upsert_node s2 (changed_nodes cn facts)) = fact_nodes facts"
      using u3 after_put [OF d sn] by simp
    with u3 tables.links_Ok show ?thesis by metis
  qed
  have "(\<exists>t. reconcile s facts tree = Ok t) \<longleftrightarrow>
      (\<exists>s2. tables.remove_all ?s1 (stale_keys cn facts) = Ok s2 \<and>
        (\<exists>s4. try_fold insert_edge (foldl upsert_node s2 (changed_nodes cn facts)) (added_edges ce facts) = Ok s4))"
    using sn by (simp add: reconcile_phases snapshot_def and_then_eq_Ok) blast
  also have "\<dots> \<longleftrightarrow> (\<exists>s2. tables.remove_all ?s1 (stale_keys cn facts) = Ok s2)
      \<and> (\<forall>e \<in> set (added_edges ce facts). linkable (fact_nodes facts) e)"
    using adds by blast
  also have "\<dots> \<longleftrightarrow> (\<forall>e \<in> set (fs_edges facts). linkable (fact_nodes facts) e)"
  proof
    assume l: "\<forall>e \<in> set (fs_edges facts). linkable (fact_nodes facts) e"
    have "\<not> attached ?m k" if "fact_nodes facts k = None" for k
    proof
      assume "attached ?m k"
      then obtain q v where "fact_edges facts q = Some v" "fst q = k \<or> fst (snd q) = k"
        by (auto simp: attached_def split: if_splits)
      then obtain e where "e \<in> set (fs_edges facts)" "e_src e = k \<or> e_dst e = k"
        by (auto simp: fact_edges_Some [OF d] ekey_def)
      with l that show False by (auto simp: linkable_def)
    qed
    then show "(\<exists>s2. tables.remove_all ?s1 (stale_keys cn facts) = Ok s2)
        \<and> (\<forall>e \<in> set (added_edges ce facts). linkable (fact_nodes facts) e)"
      using free l by (auto simp: added_edges_def)
  next
    assume "(\<exists>s2. tables.remove_all ?s1 (stale_keys cn facts) = Ok s2)
        \<and> (\<forall>e \<in> set (added_edges ce facts). linkable (fact_nodes facts) e)"
    then show "\<forall>e \<in> set (fs_edges facts). linkable (fact_nodes facts) e"
      using free kept_linkable [OF d sn] by blast
  qed
  finally show ?thesis .
qed

end
