(* ===== verification/Imports.thy ===== *)
theory Imports imports Reconcile begin

text \<open>
  The rest of \<open>store.rs\<close>'s graph half: durable import layers (\<open>apply_import_layer\<close>,
  \<open>reapply_imports\<close>) and the context cache, the reachable stores, and the properties of the store.

  The \<open>imports\<close> table is kept in \<open>src_ref\<close> order, which is the order its reads ask for; the
  \<open>imported_at\<close> column, a wall-clock stamp no read returns, is left out.
\<close>

section \<open>Import layers\<close>

record import_applied =
  ia_layers :: nat
  ia_nodes :: nat
  ia_edges_applied :: nat
  ia_edges_pruned :: nat
  ia_nodes_removed :: nat

definition put_import_row :: "store \<Rightarrow> string \<Rightarrow> factset \<Rightarrow> store" where
  "put_import_row s src_ref facts = s\<lparr>imports_t := bt_insert src_ref facts (imports_t s)\<rparr>"

definition delete_import :: "store \<Rightarrow> string \<Rightarrow> store \<times> bool" where
  "delete_import s src_ref =
     (s\<lparr>imports_t := filter (\<lambda>(r, _). r \<noteq> src_ref) (imports_t s)\<rparr>,
      map_of (imports_t s) src_ref \<noteq> None)"

definition import_refs :: "store \<Rightarrow> string list" where
  "import_refs s = sort (map fst (imports_t s))"

text \<open>A \<open>BTreeSet\<close> of keys, in iteration order.\<close>

definition key_set :: "node list \<Rightarrow> string list" where
  "key_set ns = sort (remdups (map n_key ns))"

definition import_layer_node_keys :: "store \<Rightarrow> string \<Rightarrow> string list" where
  "import_layer_node_keys s src_ref =
     (case map_of (imports_t s) src_ref of None \<Rightarrow> [] | Some facts \<Rightarrow> key_set (fs_nodes facts))"

definition apply_edges_pruning ::
  "store \<Rightarrow> edge list \<Rightarrow> store_error + store \<times> edge list \<times> nat \<times> nat" where
  "apply_edges_pruning s edges =
     try_fold (\<lambda>(s, kept, applied, pruned) e.
         and_then (insert_edge_if_present s e) (\<lambda>(s', present).
           if present then Ok (s', kept @ [e], Suc applied, pruned)
           else Ok (s', kept, applied, Suc pruned)))
       (s, [], 0, 0) edges"

definition context_cache_delete :: "store \<Rightarrow> string \<Rightarrow> store \<times> bool" where
  "context_cache_delete s key =
     (s\<lparr>context_t := filter (\<lambda>(k, _). k \<noteq> key) (context_t s)\<rparr>,
      map_of (context_t s) key \<noteq> None)"

definition context_cache_get :: "store \<Rightarrow> string \<Rightarrow> (string \<times> string) option" where
  "context_cache_get s key = map_of (context_t s) key"

definition context_cache_fingerprint :: "store \<Rightarrow> string \<Rightarrow> string option" where
  "context_cache_fingerprint s key = map_option fst (map_of (context_t s) key)"

definition context_cache_put :: "store \<Rightarrow> string \<Rightarrow> string \<Rightarrow> string \<Rightarrow> store" where
  "context_cache_put s key fingerprint json =
     s\<lparr>context_t := bt_insert key (fingerprint, json) (context_t s)\<rparr>"

definition context_cache_keys :: "store \<Rightarrow> string list" where
  "context_cache_keys s = sort (map fst (context_t s))"

definition claimed_elsewhere :: "store \<Rightarrow> string \<Rightarrow> string list" where
  "claimed_elsewhere s src_ref =
     concat (map (\<lambda>(r, facts). if r \<noteq> src_ref then map n_key (fs_nodes facts) else []) (imports_t s))"

text \<open>\<open>SELECT EXISTS (\<dots>)\<close>: no node of that key compares to NULL, which is not true.\<close>

definition has_edges :: "store \<Rightarrow> string \<Rightarrow> bool" where
  "has_edges s key =
     (case node_row_id s key of
        None \<Rightarrow> False
      | Some i \<Rightarrow> list_ex (\<lambda>e. er_src e = i \<or> er_dst e = i) (edges_t s))"

definition remove_withdrawn_nodes ::
  "store \<Rightarrow> string \<Rightarrow> string list \<Rightarrow> node list \<Rightarrow> store_error + store \<times> nat" where
  "remove_withdrawn_nodes s src_ref prior current =
     (let held = n_key ` set current;
          withdrawn = filter (\<lambda>k. k \<notin> held) prior
      in if withdrawn = [] then Ok (s, 0)
         else let claimed = set (claimed_elsewhere s src_ref)
              in try_fold (\<lambda>(s, removed) key.
                   if key \<in> claimed then Ok (s, removed)
                   else if has_edges s key then Ok (s, removed)
                   else and_then (delete_node_row s key) (\<lambda>(s', gone).
                     if 0 < gone then Ok (fst (context_cache_delete s' key), Suc removed)
                     else Ok (s', removed)))
                 (s, 0) withdrawn)"

definition apply_import_layer ::
  "store \<Rightarrow> string \<Rightarrow> factset \<Rightarrow> store_error + store \<times> import_applied" where
  "apply_import_layer s src_ref facts =
     (let prior = import_layer_node_keys s src_ref;
          s1 = fst (delete_edges_by_src_ref s src_ref);
          s2 = foldl upsert_node s1 (fs_nodes facts)
      in and_then (apply_edges_pruning s2 (fs_edges facts)) (\<lambda>(s3, kept, applied, pruned).
         let s4 = put_import_row s3 src_ref \<lparr>fs_nodes = fs_nodes facts, fs_edges = kept\<rparr>
         in and_then (remove_withdrawn_nodes s4 src_ref prior (fs_nodes facts)) (\<lambda>(s5, removed).
            Ok (s5, \<lparr>ia_layers = 1, ia_nodes = length (fs_nodes facts),
                     ia_edges_applied = applied, ia_edges_pruned = pruned,
                     ia_nodes_removed = removed\<rparr>))))"

definition import_node_provenance :: "string \<Rightarrow> provenance" where
  "import_node_provenance key =
     (if strip_prefix ''graphify:'' key \<noteq> None then Inferred
      else if strip_prefix ''okf:'' key \<noteq> None then ExternalInferred
      else Authored)"

definition load_import_layers :: "store \<Rightarrow> (string \<times> factset) list" where
  "load_import_layers s =
     map (\<lambda>(src_ref, facts).
        (src_ref, facts\<lparr>fs_nodes := map (\<lambda>n. if n_provenance n = Derived
             then n\<lparr>n_provenance := import_node_provenance (n_key n)\<rparr> else n) (fs_nodes facts)\<rparr>))
       (sort_key fst (imports_t s))"

definition reapply_imports :: "store \<Rightarrow> store_error + store \<times> import_applied" where
  "reapply_imports s =
     (let layers = load_import_layers s;
          s1 = foldl (\<lambda>s (_, facts). foldl upsert_node s (fs_nodes facts)) s layers;
          start = \<lparr>ia_layers = length layers, ia_nodes = 0, ia_edges_applied = 0,
                   ia_edges_pruned = 0, ia_nodes_removed = 0\<rparr>
      in try_fold (\<lambda>(s, a) (src_ref, facts).
           and_then (apply_edges_pruning s (fs_edges facts)) (\<lambda>(s', kept, applied, pruned).
             let a' = a\<lparr>ia_nodes := ia_nodes a + length (fs_nodes facts),
                        ia_edges_applied := ia_edges_applied a + applied,
                        ia_edges_pruned := ia_edges_pruned a + pruned\<rparr>;
                 s'' = (if length kept \<noteq> length (fs_edges facts)
                        then put_import_row s' src_ref \<lparr>fs_nodes = fs_nodes facts, fs_edges = kept\<rparr>
                        else s')
             in Ok (s'', a')))
         (s1, start) layers)"

section \<open>Frames and the invariant\<close>

lemma foldl_inv: "P s \<Longrightarrow> (\<And>s x. P s \<Longrightarrow> P (f s x)) \<Longrightarrow> P (foldl f s xs)"
  by (induction xs arbitrary: s) auto

lemma upserts_wf: "store_wf s \<Longrightarrow> store_wf (foldl upsert_node s ns)"
  by (rule foldl_inv) (auto intro: upsert_node_wf)

lemma upserts_frame:
  "edges_t (foldl upsert_node s ns) = edges_t s" "sync_t (foldl upsert_node s ns) = sync_t s"
  "imports_t (foldl upsert_node s ns) = imports_t s" "context_t (foldl upsert_node s ns) = context_t s"
  by (induction ns arbitrary: s) (simp_all add: upsert_node_def)

lemma insert_edge_frame:
  "insert_edge s e = Ok s' \<Longrightarrow> sync_t s' = sync_t s \<and> imports_t s' = imports_t s
     \<and> context_t s' = context_t s \<and> nodes_t s' = nodes_t s"
  by (erule insert_edge_cases) (simp add: insert_edge_row_rows)

lemma insert_edges_frame:
  "try_fold insert_edge s es = Ok s' \<Longrightarrow> sync_t s' = sync_t s \<and> imports_t s' = imports_t s
     \<and> context_t s' = context_t s \<and> nodes_t s' = nodes_t s"
  by (rule try_fold_inv [where P = "\<lambda>t. sync_t t = sync_t s \<and> imports_t t = imports_t s
        \<and> context_t t = context_t s \<and> nodes_t t = nodes_t s"]) (auto dest: insert_edge_frame)

lemma insert_edges_wf: "try_fold insert_edge s es = Ok s' \<Longrightarrow> store_wf s \<Longrightarrow> store_wf s'"
  by (erule try_fold_inv) (auto intro: insert_edge_wf)

lemma delete_node_row_frame:
  "delete_node_row s k = Ok (s', c) \<Longrightarrow> sync_t s' = sync_t s \<and> imports_t s' = imports_t s
     \<and> context_t s' = context_t s \<and> edges_t s' = edges_t s"
  by (auto simp: delete_node_row_def split: option.splits if_splits)

lemma rebuild_frame:
  assumes "rebuild s facts tree = Ok t"
  shows "sync_t t = sync_t (write_sync_state s tree)" "imports_t t = imports_t s" "context_t t = context_t s"
proof -
  from assms obtain u where u: "try_fold insert_edge (foldl upsert_node (s\<lparr>edges_t := [], nodes_t := []\<rparr>)
        (fs_nodes facts)) (fs_edges facts) = Ok u" and t: "t = write_sync_state u tree"
    by (auto simp: rebuild_def and_then_eq_Ok)
  from insert_edges_frame [OF u] have "sync_t u = sync_t s" "imports_t u = imports_t s" "context_t u = context_t s"
    by (simp_all add: upserts_frame)
  then show "sync_t t = sync_t (write_sync_state s tree)" "imports_t t = imports_t s" "context_t t = context_t s"
    by (simp_all add: t write_sync_state_def split: option.splits)
qed

lemma delete_edges_frame:
  "sync_t (foldl delete_edge s es) = sync_t s \<and> imports_t (foldl delete_edge s es) = imports_t s
   \<and> context_t (foldl delete_edge s es) = context_t s"
  by (induction es arbitrary: s) (simp_all add: delete_edge_rows)

lemma remove_all_frame:
  "tables.remove_all s ks = Ok s' \<Longrightarrow> sync_t s' = sync_t s \<and> imports_t s' = imports_t s
     \<and> context_t s' = context_t s"
  unfolding tables.remove_all_def
  by (rule try_fold_inv [where P = "\<lambda>t. sync_t t = sync_t s \<and> imports_t t = imports_t s
        \<and> context_t t = context_t s"]) (auto simp: and_then_eq_Ok dest!: delete_node_row_frame)

text \<open>Whatever the facts, what \<open>reconcile\<close> leaves is well-formed and outside the graph only \<open>sync_state\<close> moves.\<close>

lemma reconcile_wf_frame:
  assumes wf: "store_wf s" and r: "reconcile s facts tree = Ok t"
  shows "store_wf t" "sync_t t = sync_t (write_sync_state s tree)" "imports_t t = imports_t s"
    "context_t t = context_t s"
proof -
  from wf obtain cn ce where sn: "snapshot s cn ce" by (rule snapshot_ex)
  let ?s1 = "foldl delete_edge s (stale_edges ce facts)"
  from r sn obtain s2 s4 where s2: "tables.remove_all ?s1 (stale_keys cn facts) = Ok s2"
    and s4: "try_fold insert_edge (foldl upsert_node s2 (changed_nodes cn facts)) (added_edges ce facts) = Ok s4"
    and t: "t = write_sync_state s4 tree"
    by (auto simp: reconcile_phases snapshot_def and_then_eq_Ok)
  have "store_wf ?s1" using tables.unlinks [OF wf] by blast
  with s2 have "store_wf s2" using tables.removes by blast
  with s4 have "store_wf s4" using upserts_wf insert_edges_wf by blast
  then show "store_wf t" by (simp add: t)
  have "sync_t s4 = sync_t s" "imports_t s4 = imports_t s" "context_t s4 = context_t s"
    using delete_edges_frame [of s "stale_edges ce facts"] remove_all_frame [OF s2] insert_edges_frame [OF s4]
    by (simp_all add: upserts_frame)
  then show "sync_t t = sync_t (write_sync_state s tree)" "imports_t t = imports_t s"
    "context_t t = context_t s"
    by (simp_all add: t write_sync_state_def split: option.splits)
qed


section \<open>What applying a layer does\<close>

lemma insert_edge_if_present_cases:
  assumes "insert_edge_if_present s e = Ok (s', present)"
  shows "edge_is_valid e \<and> (present \<longleftrightarrow> linkable (node_map s) e)
         \<and> (present \<longrightarrow> insert_edge s e = Ok s') \<and> (\<not> present \<longrightarrow> s' = s)"
  using assms
  by (auto simp: insert_edge_if_present_def insert_edge_def and_then_eq_Ok validate_edge_def linkable_def
      node_map_None split: option.splits if_splits)

lemma insert_edge_if_present_Ok: "edge_is_valid e \<Longrightarrow> \<exists>r. insert_edge_if_present s e = Ok r"
  by (auto simp: insert_edge_if_present_def validate_edge_def split: option.splits)

definition prune_step ::
  "store \<times> edge list \<times> nat \<times> nat \<Rightarrow> edge \<Rightarrow> store_error + store \<times> edge list \<times> nat \<times> nat" where
  "prune_step = (\<lambda>(s, kept, applied, pruned) e.
     and_then (insert_edge_if_present s e) (\<lambda>(s', present).
       if present then Ok (s', kept @ [e], Suc applied, pruned)
       else Ok (s', kept, applied, Suc pruned)))"

lemma apply_edges_pruning_alt: "apply_edges_pruning s es = try_fold prune_step (s, [], 0, 0) es"
  by (simp add: apply_edges_pruning_def prune_step_def)

lemma prune_loop:
  "try_fold prune_step (s, ks, a, p) es = Ok (t, kept, a', p') \<Longrightarrow> store_wf s \<Longrightarrow>
     store_wf t \<and> node_map t = node_map s \<and> kept = ks @ filter (linkable (node_map s)) es
     \<and> a' = a + length (filter (linkable (node_map s)) es) \<and> a' + p' = a + p + length es
     \<and> edge_map t = foldl link_content (edge_map s) (filter (linkable (node_map s)) es)
     \<and> sync_t t = sync_t s \<and> imports_t t = imports_t s \<and> context_t t = context_t s"
proof (induction es arbitrary: s ks a p)
  case (Cons e es)
  from Cons.prems(1) obtain s' b where b: "insert_edge_if_present s e = Ok (s', b)"
    and rest: "try_fold prune_step (if b then (s', ks @ [e], Suc a, p) else (s', ks, a, Suc p)) es
                 = Ok (t, kept, a', p')"
    by (auto simp: prune_step_def and_then_eq_Ok split: if_splits)
  note c = insert_edge_if_present_cases [OF b]
  show ?case
  proof (cases b)
    case True
    with c have i: "insert_edge s e = Ok s'" and l: "linkable (node_map s) e" by auto
    note tables.link [OF Cons.prems(2) i] insert_edge_frame [OF i]
    with Cons.IH [of s' "ks @ [e]" "Suc a" p] rest True l show ?thesis by simp
  next
    case False
    with c have "s' = s" "\<not> linkable (node_map s) e" by auto
    with Cons.IH [of s ks a "Suc p"] Cons.prems(2) rest False show ?thesis by simp
  qed
qed simp

lemma prune_Ok: "(\<And>e. e \<in> set es \<Longrightarrow> edge_is_valid e) \<Longrightarrow> \<exists>r. try_fold prune_step acc es = Ok r"
proof (induction es arbitrary: acc)
  case Nil
  show ?case by (cases acc) simp
next
  case (Cons e es)
  obtain s ks a p where acc: "acc = (s, ks, a, p)" by (cases acc)
  from insert_edge_if_present_Ok [of e s] Cons.prems obtain s' b
    where "insert_edge_if_present s e = Ok (s', b)" by force
  then obtain acc' where "prune_step acc e = Ok acc'" by (cases b) (auto simp: prune_step_def acc)
  with Cons show ?case by simp
qed

lemma prune_valid: "try_fold prune_step acc es = Ok r \<Longrightarrow> e \<in> set es \<Longrightarrow> edge_is_valid e"
proof (induction es arbitrary: acc)
  case (Cons x es)
  then show ?case
    by (auto simp: and_then_eq_Ok prune_step_def split: prod.splits if_splits
        dest!: insert_edge_if_present_cases)
qed simp

lemma has_edges_attached:
  assumes "store_wf s"
  shows "has_edges s k \<longleftrightarrow> node_map s k \<noteq> None \<and> attached (edge_map s) k"
proof (cases "node_row_id s k")
  case (Some i)
  have "has_edges s k \<longleftrightarrow> delete_node_row s k = Err ForeignKeyFailed"
    by (simp add: has_edges_def delete_node_row_def Some)
  also have "\<dots> \<longleftrightarrow> attached (edge_map s) k"
    using Some by (simp add: delete_node_row_cases [OF assms] attached_def node_map_None)
  finally show ?thesis using Some by (simp add: node_map_None)
qed (simp add: has_edges_def node_map_None)

definition withdraw_step :: "string set \<Rightarrow> store \<times> nat \<Rightarrow> string \<Rightarrow> store_error + store \<times> nat" where
  "withdraw_step claimed = (\<lambda>(s, removed) key.
     if key \<in> claimed then Ok (s, removed)
     else if has_edges s key then Ok (s, removed)
     else and_then (delete_node_row s key) (\<lambda>(s', gone).
       if 0 < gone then Ok (fst (context_cache_delete s' key), Suc removed)
       else Ok (s', removed)))"

lemma context_cache_delete_frame:
  "nodes_t (fst (context_cache_delete s k)) = nodes_t s" "edges_t (fst (context_cache_delete s k)) = edges_t s"
  "sync_t (fst (context_cache_delete s k)) = sync_t s" "imports_t (fst (context_cache_delete s k)) = imports_t s"
  by (simp_all add: context_cache_delete_def)

lemma withdraw_step:
  assumes wf: "store_wf s"
  obtains s' m' where "withdraw_step claimed (s, m) k = Ok (s', m')" "store_wf s'" "edge_map s' = edge_map s"
    "node_map s' = (if k \<in> claimed \<or> attached (edge_map s) k then node_map s else (node_map s)(k := None))"
    "imports_t s' = imports_t s" "sync_t s' = sync_t s"
proof (cases "k \<in> claimed \<or> has_edges s k")
  case True
  then have "withdraw_step claimed (s, m) k = Ok (s, m)" by (auto simp: withdraw_step_def)
  moreover have "k \<in> claimed \<or> attached (edge_map s) k" using True has_edges_attached [OF wf] by blast
  ultimately show thesis using wf by (intro that [of s m]) simp_all
next
  case False
  then have free: "node_map s k = None \<or> \<not> attached (edge_map s) k" using has_edges_attached [OF wf] by blast
  then obtain s' c where d: "delete_node_row s k = Ok (s', c)"
    using tables.remove_Ok [OF wf, of k] by auto
  have none: "\<not> attached (edge_map s) k"
  proof
    assume "attached (edge_map s) k"
    then obtain a b x p v where "edge_map s (a, b, x, p) = Some v" "a = k \<or> b = k"
      by (auto simp: attached_def)
    with edge_map_endpoints [OF wf] have "node_map s k \<noteq> None" by blast
    with free \<open>attached (edge_map s) k\<close> show False by blast
  qed
  let ?s = "if 0 < c then fst (context_cache_delete s' k) else s'"
  have t: "nodes_t ?s = nodes_t s'" "edges_t ?s = edges_t s'" "imports_t ?s = imports_t s'" "sync_t ?s = sync_t s'"
    by (simp_all add: context_cache_delete_frame)
  have "withdraw_step claimed (s, m) k = Ok (?s, if 0 < c then Suc m else m)"
    using False d by (simp add: withdraw_step_def)
  then show thesis
    using tables.remove [OF wf d] same_tables [OF t(1,2)] delete_node_row_frame [OF d] False none
    by (intro that [of ?s "if 0 < c then Suc m else m"]) (simp_all add: t)
qed

lemma withdraw_loop:
  assumes "store_wf s"
  obtains t n where "try_fold (withdraw_step claimed) (s, m) ks = Ok (t, n)" "store_wf t"
    "edge_map t = edge_map s" "imports_t t = imports_t s" "sync_t t = sync_t s"
    "node_map t = (\<lambda>k. if k \<in> set ks \<and> k \<notin> claimed \<and> \<not> attached (edge_map s) k then None else node_map s k)"
  using assms
proof (induction ks arbitrary: s m thesis)
  case Nil
  then show ?case by simp
next
  case (Cons k ks)
  from withdraw_step [OF Cons.prems(2), of claimed m k] obtain s' m'
    where s': "withdraw_step claimed (s, m) k = Ok (s', m')" "store_wf s'" "edge_map s' = edge_map s"
      "node_map s' = (if k \<in> claimed \<or> attached (edge_map s) k then node_map s else (node_map s)(k := None))"
      "imports_t s' = imports_t s" "sync_t s' = sync_t s"
    by blast
  from Cons.IH [OF _ s'(2), of m'] obtain t n where
    "try_fold (withdraw_step claimed) (s', m') ks = Ok (t, n)" "store_wf t" "edge_map t = edge_map s'"
    "imports_t t = imports_t s'" "sync_t t = sync_t s'"
    "node_map t = (\<lambda>k. if k \<in> set ks \<and> k \<notin> claimed \<and> \<not> attached (edge_map s') k then None else node_map s' k)"
    by blast
  then show ?case unfolding s'(3)
    by (intro Cons.prems(1) [of t n]) (auto simp: s'(1,4-))
qed

lemma remove_withdrawn_nodes_alt:
  "remove_withdrawn_nodes s r prior current =
     try_fold (withdraw_step (set (claimed_elsewhere s r))) (s, 0)
       (filter (\<lambda>k. k \<notin> n_key ` set current) prior)"
  by (simp add: remove_withdrawn_nodes_def withdraw_step_def Let_def)

end
