(* ===== verification/Layers.thy ===== *)
theory Layers imports Imports begin

text \<open>
  What applying an import layer leaves, by contents: once, again, and after a rebuild.
\<close>

section \<open>Layers, by contents\<close>

definition retract :: "edge_contents \<Rightarrow> string \<Rightarrow> edge_contents" where
  "retract m r = (\<lambda>q. case m q of Some (c, ref) \<Rightarrow> if ref = Some r then None else Some (c, ref) | None \<Rightarrow> None)"

lemma find_filter_distinct:
  "distinct (map f xs) \<Longrightarrow> List.find (\<lambda>x. f x = k) (filter P xs) =
     (case List.find (\<lambda>x. f x = k) xs of Some x \<Rightarrow> if P x then Some x else None | None \<Rightarrow> None)"
  by (induction xs) (auto simp: find_None_iff split: option.splits dest!: find_SomeD)

lemma delete_by_src_ref:
  fixes s :: store and r :: string
  assumes wf: "store_wf s"
  defines "s' \<equiv> fst (delete_edges_by_src_ref s r)"
  shows "store_wf s'" "node_map s' = node_map s" "edge_map s' = retract (edge_map s) r"
    "imports_t s' = imports_t s" "sync_t s' = sync_t s" "context_t s' = context_t s"
proof -
  have s': "s' = s\<lparr>edges_t := filter (\<lambda>x. er_src_ref x \<noteq> Some r) (edges_t s)\<rparr>"
    by (simp add: s'_def delete_edges_by_src_ref_def comp_def)
  then show wf': "store_wf s'" using edges_filter_wf [OF wf] by simp
  show "node_map s' = node_map s" "imports_t s' = imports_t s" "sync_t s' = sync_t s"
    "context_t s' = context_t s"
    by (simp_all add: s' fun_eq_iff node_map_def)
  have "key_of s' = key_of s" by (simp add: s' fun_eq_iff key_of_def row_by_id_def)
  with edge_select_wf [OF wf'] have "edge_select s' = map (joined (key_of s)) (edges_t s')" by simp
  also have "edges_t s' = filter (\<lambda>x. er_src_ref x \<noteq> Some r) (edges_t s)" by (simp add: s')
  finally have "edge_select s' = filter (\<lambda>j. j_src_ref j \<noteq> Some r) (edge_select s)"
    by (simp add: edge_select_wf [OF wf] filter_map comp_def joined_def)
  then show "edge_map s' = retract (edge_map s) r"
    by (auto simp: fun_eq_iff edge_map_def retract_def find_filter_distinct [OF distinct_join_keys [OF wf]]
        split: option.splits)
qed

lemma filter_bt_insert: "filter (\<lambda>(x, _). x \<noteq> k) (bt_insert k v m) = filter (\<lambda>(x, _). x \<noteq> k) m"
  by (induction k v m rule: bt_insert.induct) auto

lemma bt_insert_twice: "bt_insert k v (bt_insert k w m) = bt_insert k v m"
  by (induction k w m rule: bt_insert.induct) auto

lemma set_claimed_elsewhere:
  "set (claimed_elsewhere s r) =
     (\<Union>(_, f) \<in> set (filter (\<lambda>(x, _). x \<noteq> r) (imports_t s)). n_key ` set (fs_nodes f))"
  by (auto simp: claimed_elsewhere_def split: if_splits)

lemma set_key_set [simp]: "set (key_set ns) = n_key ` set ns"
  by (simp add: key_set_def)

lemma foldl_put_None:
  "foldl put_content m ns k = None \<longleftrightarrow> m k = None \<and> k \<notin> n_key ` set ns"
  by (induction ns arbitrary: m) (auto simp: put_content_def)

text \<open>The contents a layer's application leaves.\<close>

definition layer_nodes :: "store \<Rightarrow> factset \<Rightarrow> node_contents" where
  "layer_nodes s facts = foldl put_content (node_map s) (fs_nodes facts)"

definition layer_kept :: "store \<Rightarrow> factset \<Rightarrow> edge list" where
  "layer_kept s facts = filter (linkable (layer_nodes s facts)) (fs_edges facts)"

definition layer_edges :: "store \<Rightarrow> string \<Rightarrow> factset \<Rightarrow> edge_contents" where
  "layer_edges s r facts = foldl link_content (retract (edge_map s) r) (layer_kept s facts)"

definition layer_withdrawn :: "store \<Rightarrow> string \<Rightarrow> factset \<Rightarrow> string \<Rightarrow> bool" where
  "layer_withdrawn s r facts k \<longleftrightarrow>
     k \<in> set (import_layer_node_keys s r) \<and> k \<notin> n_key ` set (fs_nodes facts)
     \<and> k \<notin> set (claimed_elsewhere s r) \<and> \<not> attached (layer_edges s r facts) k"

definition keep_edges :: "store \<Rightarrow> factset \<Rightarrow> factset" where
  "keep_edges s facts = \<lparr>fs_nodes = fs_nodes facts, fs_edges = layer_kept s facts\<rparr>"

lemma put_import_row_frame:
  "nodes_t (put_import_row s r f) = nodes_t s" "edges_t (put_import_row s r f) = edges_t s"
  "sync_t (put_import_row s r f) = sync_t s" "context_t (put_import_row s r f) = context_t s"
  by (simp_all add: put_import_row_def)

lemma put_import_row_imports: "imports_t (put_import_row s r f) = bt_insert r f (imports_t s)"
  by (simp add: put_import_row_def)

lemmas put_import_row_maps = same_tables [OF put_import_row_frame(1,2)]

lemma layer_start:
  fixes s :: store and r :: string and facts :: factset
  assumes wf: "store_wf s"
  defines "s2 \<equiv> foldl upsert_node (fst (delete_edges_by_src_ref s r)) (fs_nodes facts)"
  shows "store_wf s2" "node_map s2 = layer_nodes s facts" "edge_map s2 = retract (edge_map s) r"
    "imports_t s2 = imports_t s" "sync_t s2 = sync_t s"
proof -
  note d = delete_by_src_ref [OF wf, of r]
  from tables.puts [OF d(1), of "fs_nodes facts"] d
  show "store_wf s2" "node_map s2 = layer_nodes s facts" "edge_map s2 = retract (edge_map s) r"
    "imports_t s2 = imports_t s" "sync_t s2 = sync_t s"
    by (simp_all add: s2_def layer_nodes_def upserts_frame)
qed

lemma apply_layer_cases:
  assumes wf: "store_wf s" and ok: "apply_import_layer s r facts = Ok (t, a)"
  shows "store_wf t \<and> edge_map t = layer_edges s r facts
     \<and> node_map t = (\<lambda>k. if layer_withdrawn s r facts k then None else layer_nodes s facts k)
     \<and> imports_t t = bt_insert r (keep_edges s facts) (imports_t s) \<and> sync_t t = sync_t s
     \<and> ia_edges_applied a = length (layer_kept s facts)
     \<and> ia_edges_applied a + ia_edges_pruned a = length (fs_edges facts)
     \<and> ia_layers a = 1 \<and> ia_nodes a = length (fs_nodes facts)"
proof -
  let ?s2 = "foldl upsert_node (fst (delete_edges_by_src_ref s r)) (fs_nodes facts)"
  note s2 = layer_start [OF wf, of r facts]
  from ok obtain s3 kept ap pr s5 m where
    p: "try_fold prune_step (?s2, [], 0, 0) (fs_edges facts) = Ok (s3, kept, ap, pr)"
    and w: "remove_withdrawn_nodes (put_import_row s3 r \<lparr>fs_nodes = fs_nodes facts, fs_edges = kept\<rparr>) r
              (import_layer_node_keys s r) (fs_nodes facts) = Ok (s5, m)"
    and t: "t = s5" and a: "a = \<lparr>ia_layers = 1, ia_nodes = length (fs_nodes facts),
       ia_edges_applied = ap, ia_edges_pruned = pr, ia_nodes_removed = m\<rparr>"
    by (auto simp: apply_import_layer_def Let_def and_then_eq_Ok apply_edges_pruning_alt)
  from prune_loop [OF p s2(1)] s2 have
    s3: "store_wf s3" "node_map s3 = layer_nodes s facts" "edge_map s3 = layer_edges s r facts"
      "imports_t s3 = imports_t s" "sync_t s3 = sync_t s" and kept: "kept = layer_kept s facts"
    and ap: "ap = length (layer_kept s facts)" "ap + pr = length (fs_edges facts)"
    by (simp_all add: layer_kept_def layer_edges_def)
  let ?s4 = "put_import_row s3 r \<lparr>fs_nodes = fs_nodes facts, fs_edges = kept\<rparr>"
  have i4: "imports_t ?s4 = bt_insert r (keep_edges s facts) (imports_t s)"
    by (simp add: put_import_row_def s3 keep_edges_def kept)
  have cl: "set (claimed_elsewhere ?s4 r) = set (claimed_elsewhere s r)"
    by (simp add: set_claimed_elsewhere i4 filter_bt_insert)
  have wf4: "store_wf ?s4" using s3(1) by (simp add: put_import_row_maps)
  from w have "try_fold (withdraw_step (set (claimed_elsewhere s r))) (?s4, 0)
      (filter (\<lambda>k. k \<notin> n_key ` set (fs_nodes facts)) (import_layer_node_keys s r)) = Ok (s5, m)"
    by (simp add: remove_withdrawn_nodes_alt cl)
  moreover obtain u n where "try_fold (withdraw_step (set (claimed_elsewhere s r))) (?s4, 0)
      (filter (\<lambda>k. k \<notin> n_key ` set (fs_nodes facts)) (import_layer_node_keys s r)) = Ok (u, n)"
    and u: "store_wf u" "edge_map u = edge_map ?s4" "imports_t u = imports_t ?s4" "sync_t u = sync_t ?s4"
    "node_map u = (\<lambda>k. if k \<in> set (filter (\<lambda>k. k \<notin> n_key ` set (fs_nodes facts)) (import_layer_node_keys s r))
        \<and> k \<notin> set (claimed_elsewhere s r) \<and> \<not> attached (edge_map ?s4) k then None else node_map ?s4 k)"
    by (rule withdraw_loop [OF wf4])
  ultimately have "s5 = u" by simp
  then show ?thesis
    using s3 i4 ap u by (simp add: t a put_import_row_frame put_import_row_maps layer_withdrawn_def cong: if_cong)
qed

lemma apply_layer_Ok_iff:
  assumes wf: "store_wf s"
  shows "(\<exists>x. apply_import_layer s r facts = Ok x) \<longleftrightarrow> (\<forall>e \<in> set (fs_edges facts). edge_is_valid e)"
proof
  assume "\<exists>x. apply_import_layer s r facts = Ok x"
  then show "\<forall>e \<in> set (fs_edges facts). edge_is_valid e"
    by (auto simp: apply_import_layer_def Let_def and_then_eq_Ok apply_edges_pruning_alt dest: prune_valid)
next
  assume v: "\<forall>e \<in> set (fs_edges facts). edge_is_valid e"
  let ?s2 = "foldl upsert_node (fst (delete_edges_by_src_ref s r)) (fs_nodes facts)"
  note s2 = layer_start [OF wf, of r facts]
  from prune_Ok [of "fs_edges facts" "(?s2, [], 0, 0)"] v obtain s3 kept ap pr where
    p: "try_fold prune_step (?s2, [], 0, 0) (fs_edges facts) = Ok (s3, kept, ap, pr)" by force
  from prune_loop [OF p s2(1)] have "store_wf s3" by blast
  then have "store_wf (put_import_row s3 r \<lparr>fs_nodes = fs_nodes facts, fs_edges = kept\<rparr>)"
    by (simp add: put_import_row_maps)
  then obtain s5 m where "remove_withdrawn_nodes (put_import_row s3 r \<lparr>fs_nodes = fs_nodes facts, fs_edges = kept\<rparr>) r
      (import_layer_node_keys s r) (fs_nodes facts) = Ok (s5, m)"
    unfolding remove_withdrawn_nodes_alt by (rule withdraw_loop)
  with p show "\<exists>x. apply_import_layer s r facts = Ok x"
    by (simp add: apply_import_layer_def Let_def apply_edges_pruning_alt)
qed


section \<open>Applying a layer again\<close>

lemma kept_endpoints:
  assumes "e \<in> set (layer_kept s facts)"
  shows "attached (layer_edges s r facts) (e_src e)" "attached (layer_edges s r facts) (e_dst e)"
proof -
  from assms have "map_of (map (\<lambda>e. (ekey e, edge_value e)) (layer_kept s facts)) (ekey e) \<noteq> None"
    by (auto simp: map_of_eq_None_iff image_image)
  then have "layer_edges s r facts (ekey e) \<noteq> None"
    by (auto simp: layer_edges_def foldl_link_content split: option.splits)
  then show "attached (layer_edges s r facts) (e_src e)" "attached (layer_edges s r facts) (e_dst e)"
    by (auto simp: attached_def simp del: split_paired_Ex intro!: exI [of _ "ekey e"]) (simp_all add: ekey_def)
qed

lemma retract_retract: "retract (retract m r) r = retract m r"
  by (auto simp: retract_def fun_eq_iff split: option.splits)

text \<open>Taking the layer's edges out and putting the same ones back, whatever origin they state, changes nothing.\<close>

lemma relink:
  "foldl link_content (retract (foldl link_content (retract m r) es) r) es = foldl link_content (retract m r) es"
  by (auto simp: fun_eq_iff foldl_link_content retract_def split: option.splits if_splits)

lemma foldl_put_known:
  "k \<in> n_key ` set ns \<Longrightarrow> foldl put_content m ns k = foldl put_content m' ns k"
  by (auto simp: foldl_put_content map_of_eq_None_iff image_image split: option.splits)

lemma foldl_put_unknown: "k \<notin> n_key ` set ns \<Longrightarrow> foldl put_content m ns k = m k"
  by (simp add: foldl_put_content map_of_eq_None_iff [THEN iffD2] image_image)

lemma apply_layer_again:
  assumes wf: "store_wf s" and ok: "apply_import_layer s r facts = Ok (t, a)"
  shows "layer_nodes t facts = node_map t" "layer_kept t facts = layer_kept s facts"
    "layer_edges t r facts = edge_map t" "\<not> layer_withdrawn t r facts k"
    "keep_edges t facts = keep_edges s facts"
proof -
  note c = apply_layer_cases [OF wf ok]
  have known: "layer_withdrawn s r facts k \<Longrightarrow> k \<notin> n_key ` set (fs_nodes facts)" for k
    by (simp add: layer_withdrawn_def)
  show n: "layer_nodes t facts = node_map t"
  proof
    fix k
    show "layer_nodes t facts k = node_map t k"
    proof (cases "k \<in> n_key ` set (fs_nodes facts)")
      case True
      then have "node_map t k = layer_nodes s facts k" using c known by auto
      also have "\<dots> = layer_nodes t facts k"
        unfolding layer_nodes_def by (rule foldl_put_known) (fact True)
      finally show ?thesis by simp
    qed (simp add: layer_nodes_def foldl_put_unknown)
  qed
  have "linkable (node_map t) e \<longleftrightarrow> linkable (layer_nodes s facts) e" if "e \<in> set (fs_edges facts)" for e
  proof
    assume l: "linkable (layer_nodes s facts) e"
    with that have "e \<in> set (layer_kept s facts)" by (simp add: layer_kept_def)
    from kept_endpoints [OF this, of r] have "\<not> layer_withdrawn s r facts (e_src e)" "\<not> layer_withdrawn s r facts (e_dst e)"
      by (auto simp: layer_withdrawn_def)
    with l show "linkable (node_map t) e" using c by (simp add: linkable_def)
  next
    assume "linkable (node_map t) e"
    with c show "linkable (layer_nodes s facts) e" by (auto simp: linkable_def split: if_splits)
  qed
  then show k: "layer_kept t facts = layer_kept s facts"
    unfolding layer_kept_def n by (auto intro: filter_cong)
  show e: "layer_edges t r facts = edge_map t"
    unfolding layer_edges_def [of t] k using c by (simp add: layer_edges_def relink)
  show "keep_edges t facts = keep_edges s facts" by (simp add: keep_edges_def k)
  have "set (import_layer_node_keys t r) = n_key ` set (fs_nodes facts)"
    using c by (simp add: import_layer_node_keys_def keep_edges_def)
  then show "\<not> layer_withdrawn t r facts k" by (simp add: layer_withdrawn_def)
qed

section \<open>Layers after a rebuild\<close>

text \<open>What \<open>reapply_imports\<close> leaves in the table: a layer that lost an edge is rewritten.\<close>

definition reapplied :: "node_contents \<Rightarrow> (string, factset) btree \<Rightarrow> string \<times> factset \<Rightarrow> (string, factset) btree" where
  "reapplied N m = (\<lambda>(r, f). if length (filter (linkable N) (fs_edges f)) \<noteq> length (fs_edges f)
     then bt_insert r \<lparr>fs_nodes = fs_nodes f, fs_edges = filter (linkable N) (fs_edges f)\<rparr> m else m)"

definition reapply_step ::
  "store \<times> import_applied \<Rightarrow> string \<times> factset \<Rightarrow> store_error + store \<times> import_applied" where
  "reapply_step = (\<lambda>(s, a) (src_ref, facts).
     and_then (apply_edges_pruning s (fs_edges facts)) (\<lambda>(s', kept, applied, pruned).
       let a' = a\<lparr>ia_nodes := ia_nodes a + length (fs_nodes facts),
                  ia_edges_applied := ia_edges_applied a + applied,
                  ia_edges_pruned := ia_edges_pruned a + pruned\<rparr>;
           s'' = (if length kept \<noteq> length (fs_edges facts)
                  then put_import_row s' src_ref \<lparr>fs_nodes = fs_nodes facts, fs_edges = kept\<rparr>
                  else s')
       in Ok (s'', a')))"

lemma reapply_step:
  assumes wf: "store_wf s" and ok: "reapply_step (s, a) (r, f) = Ok (t, b)"
  shows "store_wf t \<and> node_map t = node_map s
     \<and> edge_map t = foldl link_content (edge_map s) (filter (linkable (node_map s)) (fs_edges f))
     \<and> imports_t t = reapplied (node_map s) (imports_t s) (r, f) \<and> sync_t t = sync_t s
     \<and> ia_edges_applied b + ia_edges_pruned b
         = ia_edges_applied a + ia_edges_pruned a + length (fs_edges f)"
proof -
  from ok obtain s' kept ap pr where
    p: "try_fold prune_step (s, [], 0, 0) (fs_edges f) = Ok (s', kept, ap, pr)"
    and t: "t = (if length kept \<noteq> length (fs_edges f)
                 then put_import_row s' r \<lparr>fs_nodes = fs_nodes f, fs_edges = kept\<rparr> else s')"
    and b: "b = a\<lparr>ia_nodes := ia_nodes a + length (fs_nodes f),
                  ia_edges_applied := ia_edges_applied a + ap, ia_edges_pruned := ia_edges_pruned a + pr\<rparr>"
    by (auto simp: reapply_step_def and_then_eq_Ok Let_def apply_edges_pruning_alt)
  from prune_loop [OF p wf] show ?thesis
    by (simp add: t b reapplied_def put_import_row_frame put_import_row_maps put_import_row_imports)
qed

lemma reapply_loop:
  "store_wf s \<Longrightarrow> try_fold reapply_step (s, a) ls = Ok (t, b) \<Longrightarrow>
     store_wf t \<and> node_map t = node_map s
     \<and> edge_map t = foldl link_content (edge_map s)
          (concat (map (\<lambda>(_, f). filter (linkable (node_map s)) (fs_edges f)) ls))
     \<and> imports_t t = foldl (reapplied (node_map s)) (imports_t s) ls \<and> sync_t t = sync_t s
     \<and> ia_edges_applied b + ia_edges_pruned b
         = ia_edges_applied a + ia_edges_pruned a + (\<Sum>(_, f) \<leftarrow> ls. length (fs_edges f))"
proof (induction ls arbitrary: s a)
  case (Cons l ls)
  obtain r f where l: "l = (r, f)" by (cases l)
  from Cons.prems(2) obtain s' a' where st: "reapply_step (s, a) (r, f) = Ok (s', a')"
    and rest: "try_fold reapply_step (s', a') ls = Ok (t, b)"
    by (auto simp: l and_then_eq_Ok)
  from reapply_step [OF Cons.prems(1) st] Cons.IH [OF _ rest] show ?case by (simp add: l)
qed simp

end
