(* ===== verification/StoreProps.thy ===== *)
theory StoreProps imports Layers begin

text \<open>
  The properties of the store: the invariant every sequence of operations keeps, a reconcile is a
  rebuild, what an import layer does and may take away, and what survives in a persisted layer.
\<close>

section \<open>The stores the operations reach\<close>

inductive reachable :: "store \<Rightarrow> bool" where
  opened: "reachable empty_store"
| upsert: "reachable s \<Longrightarrow> reachable (upsert_node s n)"
| link: "reachable s \<Longrightarrow> insert_edge s e = Ok s' \<Longrightarrow> reachable s'"
| applied: "reachable s \<Longrightarrow> apply_factset s facts = Ok s' \<Longrightarrow> reachable s'"
| rebuilt: "reachable s \<Longrightarrow> rebuild s facts tree = Ok s' \<Longrightarrow> reachable s'"
| reconciled: "reachable s \<Longrightarrow> reconcile s facts tree = Ok s' \<Longrightarrow> reachable s'"
| env: "reachable s \<Longrightarrow> reachable (set_sync_env s v)"
| worktree: "reachable s \<Longrightarrow> reachable (set_synced_worktree s v)"
| delete_provenance: "reachable s \<Longrightarrow> reachable (fst (delete_edges_by_provenance s p))"
| delete_ref: "reachable s \<Longrightarrow> reachable (fst (delete_edges_by_src_ref s r))"
| layer: "reachable s \<Longrightarrow> apply_import_layer s r facts = Ok (s', a) \<Longrightarrow> reachable s'"
| forget_layer: "reachable s \<Longrightarrow> reachable (fst (delete_import s r))"
| reapplied: "reachable s \<Longrightarrow> reapply_imports s = Ok (s', a) \<Longrightarrow> reachable s'"
| cache_put: "reachable s \<Longrightarrow> reachable (context_cache_put s k fp json)"
| cache_delete: "reachable s \<Longrightarrow> reachable (fst (context_cache_delete s k))"

text \<open>Every read of nodes, or of edges, succeeds.\<close>

lemma bt_wf_filter: "bt_wf m \<Longrightarrow> bt_wf (filter P m)"
  by (simp add: bt_wf_def sorted_wrt_map sorted_wrt_filter)

lemma apply_factset_inv:
  assumes "store_wf s" "apply_factset s facts = Ok s'"
  shows "store_wf s'" "imports_t s' = imports_t s"
  using assms insert_edges_wf upserts_wf insert_edges_frame
  by (fastforce simp: apply_factset_def upserts_frame)+

lemma foldl_reapplied_wf: "bt_wf m \<Longrightarrow> bt_wf (foldl (reapplied N) m ls)"
  by (rule foldl_inv) (auto simp: reapplied_def split: prod.splits)

lemma foldl_layers_upserts:
  "foldl (\<lambda>s (_, facts). foldl upsert_node s (fs_nodes facts)) s ls =
     foldl upsert_node s (concat (map (fs_nodes \<circ> snd) ls))"
  by (induction ls arbitrary: s) auto

definition layers_nodes :: "store \<Rightarrow> node list" where
  "layers_nodes s = concat (map (fs_nodes \<circ> snd) (load_import_layers s))"

lemma reapply_cases:
  assumes wf: "store_wf s" and ok: "reapply_imports s = Ok (t, a)"
  defines "N \<equiv> foldl put_content (node_map s) (layers_nodes s)"
  shows "store_wf t" "node_map t = N"
    "imports_t t = foldl (reapplied N) (imports_t s) (load_import_layers s)"
    "edge_map t = foldl link_content (edge_map s)
          (concat (map (\<lambda>(_, f). filter (linkable N) (fs_edges f)) (load_import_layers s)))"
    "sync_t t = sync_t s"
    "ia_edges_applied a + ia_edges_pruned a = (\<Sum>(_, f) \<leftarrow> load_import_layers s. length (fs_edges f))"
proof -
  let ?s1 = "foldl upsert_node s (layers_nodes s)"
  from ok have "try_fold reapply_step (?s1, \<lparr>ia_layers = length (load_import_layers s), ia_nodes = 0,
      ia_edges_applied = 0, ia_edges_pruned = 0, ia_nodes_removed = 0\<rparr>) (load_import_layers s) = Ok (t, a)"
    by (simp add: reapply_imports_def reapply_step_def Let_def foldl_layers_upserts layers_nodes_def)
  from reapply_loop [OF _ this] tables.puts [OF wf, of "layers_nodes s"]
  show "store_wf t" "node_map t = N"
    "imports_t t = foldl (reapplied N) (imports_t s) (load_import_layers s)"
    "edge_map t = foldl link_content (edge_map s)
          (concat (map (\<lambda>(_, f). filter (linkable N) (fs_edges f)) (load_import_layers s)))"
    "sync_t t = sync_t s"
    "ia_edges_applied a + ia_edges_pruned a = (\<Sum>(_, f) \<leftarrow> load_import_layers s. length (fs_edges f))"
    by (simp_all add: N_def upserts_frame)
qed

lemma reachable_inv: "reachable s \<Longrightarrow> store_wf s \<and> bt_wf (imports_t s)"
proof (induction rule: reachable.induct)
  case opened
  then show ?case by (simp add: empty_store_wf) (simp add: empty_store_def)
next
  case (upsert s n)
  then show ?case using upserts_frame(3) [of s "[n]"] by (simp add: upsert_node_wf)
next
  case (link s e s')
  then show ?case using insert_edge_wf insert_edge_frame by metis
next
  case (applied s facts s')
  then show ?case using apply_factset_inv by metis
next
  case (rebuilt s facts tree s')
  then show ?case using rebuild_content(1) rebuild_frame(2) by metis
next
  case (reconciled s facts tree s')
  then show ?case using reconcile_wf_frame(1,3) by metis
next
  case (env s v)
  then show ?case by (simp add: set_sync_env_def store_wf_def)
next
  case (worktree s v)
  then show ?case by (simp add: set_synced_worktree_def store_wf_def)
next
  case (delete_provenance s p)
  then show ?case
    using edges_filter_wf [of s "\<lambda>r. er_provenance r \<noteq> provenance_as_str p"]
    by (simp add: delete_edges_by_provenance_def comp_def)
next
  case (delete_ref s r)
  then show ?case using delete_by_src_ref by metis
next
  case (layer s r facts s' a)
  then show ?case using apply_layer_cases bt_insert_wf by metis
next
  case (forget_layer s r)
  then show ?case by (simp add: delete_import_def store_wf_def bt_wf_filter)
next
  case (reapplied s s' a)
  then show ?case using reapply_cases(1,3) foldl_reapplied_wf by metis
next
  case (cache_put s k fp json)
  then show ?case by (simp add: context_cache_put_def store_wf_def)
next
  case (cache_delete s k)
  then show ?case by (simp add: context_cache_delete_def store_wf_def)
qed


section \<open>Reads\<close>

lemma try_map_length: "try_map f xs = Ok ys \<Longrightarrow> length ys = length xs"
  by (simp add: try_map_Ok_iff list_all2_lengthD [symmetric])

lemma counts:
  assumes wf: "store_wf s"
  shows "all_nodes s = Ok ns \<Longrightarrow> node_count s = length ns" "all_edges s = Ok es \<Longrightarrow> edge_count s = length es"
  by (auto simp: all_nodes_def select_nodes_def collect_nodes_def node_count_def all_edges_def
      collect_edges_def edge_count_def edge_select_wf [OF wf] dest!: try_map_length)

lemma all_nodes_facts:
  assumes wf: "store_wf t" and m: "node_map t = fact_nodes facts" and d: "facts_distinct facts"
  shows "all_nodes t = Ok (map (\<lambda>n. n\<lparr>n_kind := node_kind_norm (n_kind n)\<rparr>) (sort_key n_key (fs_nodes facts)))"
proof -
  let ?cols = "map (\<lambda>n. node_columns n 0) (fs_nodes facts)"
  have "distinct (map nr_key ?cols)" using d by (simp add: facts_distinct_def comp_def)
  then have "distinct ?cols" unfolding distinct_map by blast
  moreover have "set (stripped t) = set ?cols"
    using stripped_content(2) [OF wf] by (auto simp: m fact_nodes_Some [OF facts_distinct_consistent [OF d]])
  ultimately have "sort_key nr_key (stripped t) = sort_key nr_key ?cols"
    using stripped_content(1,3) [OF wf] by (intro sort_key_content) simp_all
  also have "\<dots> = map (\<lambda>n. node_columns n 0) (sort_key n_key (fs_nodes facts))"
    using map_sort_key [of "\<lambda>n. node_columns n 0" nr_key "fs_nodes facts"] by simp
  finally show ?thesis
    by (simp add: all_nodes_def select_nodes_stripped collect_nodes_def try_map_map row_to_node_columns)
      (rule try_map_total, rule refl)
qed

definition join_of :: "edge \<Rightarrow> edge_join" where
  "join_of e = \<lparr>j_src = e_src e, j_dst = e_dst e, j_kind = edge_kind_as_str (e_kind e),
     j_provenance = provenance_as_str (e_provenance e), j_confidence = e_confidence e,
     j_src_ref = e_src_ref e\<rparr>"

lemma row_to_edge_join_of: "row_to_edge (join_of e) = Ok (e\<lparr>e_kind := edge_kind_norm (e_kind e)\<rparr>)"
  by (simp add: row_to_edge_def join_of_def edge_kind_norm_def)

lemma join_key_join_of: "join_key (join_of e) = ekey e"
  by (simp add: join_key_def join_of_def ekey_def)

lemma all_edges_facts:
  assumes wf: "store_wf t" and m: "edge_map t = fact_edges facts" and d: "facts_distinct facts"
  shows "all_edges t = Ok (map (\<lambda>e. e\<lparr>e_kind := edge_kind_norm (e_kind e)\<rparr>) (sort_key ekey (fs_edges facts)))"
proof -
  let ?js = "map join_of (fs_edges facts)"
  have dk: "distinct (map join_key ?js)" using d by (simp add: facts_distinct_def comp_def join_key_join_of)
  then have dj: "distinct ?js" unfolding distinct_map by blast
  have "set (edge_select t) = set ?js"
  proof (intro set_eqI)
    fix j
    have "j \<in> set (edge_select t) \<longleftrightarrow>
        (\<exists>e \<in> set (fs_edges facts). ekey e = join_key j \<and> edge_value e = (j_confidence j, j_src_ref j))"
      by (simp add: edge_select_content(3) [OF wf] m fact_edges_Some [OF facts_distinct_consistent [OF d]])
    also have "\<dots> \<longleftrightarrow> j \<in> set ?js"
      by (cases j) (auto simp: ekey_def edge_value_def join_key_def join_of_def image_iff Bex_def)
    finally show "j \<in> set (edge_select t) \<longleftrightarrow> j \<in> set ?js" .
  qed
  with edge_select_content(1,2) [OF wf] dj have "sort_key join_key (edge_select t) = sort_key join_key ?js"
    by (intro sort_key_content) simp_all
  also have "\<dots> = map join_of (sort_key ekey (fs_edges facts))"
    using map_sort_key [of join_of join_key "fs_edges facts"] by (simp add: join_key_join_of)
  finally have "sort_key (\<lambda>j. (j_src j, j_dst j, j_kind j, j_provenance j)) (edge_select t) =
      map join_of (sort_key ekey (fs_edges facts))"
    by (simp add: join_key_def [abs_def])
  then show ?thesis
    by (simp add: all_edges_def collect_edges_def try_map_map row_to_edge_join_of)
      (rule try_map_total, rule refl)
qed


section \<open>Properties\<close>

text \<open>C4. Whatever the sequence of operations, every read of the store succeeds: the nodes come back
  in key order without repetition, each edge comes back valid, once, between two stored nodes, and the
  counts agree with what is listed.\<close>

theorem reachable_reads:
  assumes "reachable s"
  shows "\<exists>ns es. all_nodes s = Ok ns \<and> all_edges s = Ok es
     \<and> sorted (map n_key ns) \<and> distinct (map n_key ns) \<and> distinct (map ekey es)
     \<and> node_count s = length ns \<and> edge_count s = length es
     \<and> (\<forall>e \<in> set es. edge_is_valid e \<and> e_src e \<in> n_key ` set ns \<and> e_dst e \<in> n_key ` set ns)"
proof -
  have wf: "store_wf s" using reachable_inv [OF assms] by blast
  obtain ns where ns: "all_nodes s = Ok ns" "sorted (map n_key ns)" "distinct (map n_key ns)"
    "\<And>k r. node_map s k = Some r \<longleftrightarrow> (\<exists>n \<in> set ns. n_key n = k \<and> node_columns n 0 = r)"
    by (rule all_nodes_Ok [OF wf]) blast
  obtain es where es: "all_edges s = Ok es" "distinct (map ekey es)"
    "\<And>q v. edge_map s q = Some v \<longleftrightarrow> (\<exists>e \<in> set es. ekey e = q \<and> edge_value e = v)"
    "\<And>e. e \<in> set es \<Longrightarrow> edge_is_valid e"
    by (rule all_edges_Ok [OF wf]) blast
  have known: "k \<in> n_key ` set ns" if "node_map s k \<noteq> None" for k using that ns(4) by auto
  have "e_src e \<in> n_key ` set ns \<and> e_dst e \<in> n_key ` set ns" if "e \<in> set es" for e
  proof -
    from that es(3) have "edge_map s (ekey e) = Some (edge_value e)" by blast
    then have "node_map s (e_src e) \<noteq> None \<and> node_map s (e_dst e) \<noteq> None"
      unfolding ekey_def by (rule edge_map_endpoints [OF wf])
    then show ?thesis using known by blast
  qed
  with ns es counts [OF wf] show ?thesis by blast
qed

definition demo_store :: store where
  "demo_store = foldl upsert_node empty_store
     [node_new ''a'' KFn ''a'', node_new ''b'' KFn ''b'', node_new ''c'' KFile ''c'']"

lemma demo_reachable: "reachable demo_store"
  by (simp add: demo_store_def reachable.opened reachable.upsert)

lemma demo_wf: "store_wf demo_store"
  using reachable_inv [OF demo_reachable] by blast

definition demo_facts :: factset where
  "demo_facts = \<lparr>fs_nodes = [node_new ''a'' KFn ''a'', node_new ''d'' KFn ''d''],
     fs_edges = [edge_derived ''a'' ''d'' ECalls, edge_derived ''d'' ''a'' ECalls]\<rparr>"

lemma demo_rebuild: "\<exists>t. rebuild s demo_facts tree = Ok t"
  by (simp add: rebuild_Ok_iff demo_facts_def linkable_def fact_nodes_None node_new_def edge_derived_def
      edge_is_valid_def)

lemma demo_distinct: "facts_distinct demo_facts"
  by (simp add: facts_distinct_def demo_facts_def node_new_def edge_derived_def ekey_def)

theorem reachable_reads_witness:
  "\<exists>ns es. all_nodes demo_store = Ok ns \<and> all_edges demo_store = Ok es
     \<and> sorted (map n_key ns) \<and> distinct (map n_key ns) \<and> distinct (map ekey es)
     \<and> node_count demo_store = length ns \<and> edge_count demo_store = length es
     \<and> (\<forall>e \<in> set es. edge_is_valid e \<and> e_src e \<in> n_key ` set ns \<and> e_dst e \<in> n_key ` set ns)"
  by (rule reachable_reads [OF demo_reachable])

text \<open>C1. The incremental write is the full one: on a fact set that does not say two different things of one
  node or of one edge,  \<open>reconcile\<close> succeeds exactly when \<open>rebuild\<close> does, and the two stores answer every read of nodes and
  edges alike, hold the same sync stamp and keep the same import layers.\<close>

theorem reconcile_is_rebuild:
  assumes "reachable s" and "facts_consistent facts"
  shows "case reconcile s facts tree of
      Err _ \<Rightarrow> \<exists>e. rebuild s facts tree = Err e
    | Ok t \<Rightarrow> \<exists>u. rebuild s facts tree = Ok u
        \<and> export_factset t = export_factset u \<and> (\<forall>k. get_node t k = get_node u k)
        \<and> (\<forall>k. nodes_by_kind t k = nodes_by_kind u k) \<and> (\<forall>q. nodes_by_path t q = nodes_by_path u q)
        \<and> (\<forall>p. nodes_by_provenance t p = nodes_by_provenance u p)
        \<and> (\<forall>k. edges_from t k = edges_from u k \<and> edges_to t k = edges_to u k)
        \<and> (\<forall>p. edges_by_provenance t p = edges_by_provenance u p)
        \<and> sync_t t = sync_t u \<and> imports_t t = imports_t u"
proof -
  have wf: "store_wf s" using reachable_inv [OF assms(1)] by blast
  then obtain cn ce where sn: "snapshot s cn ce" by (rule snapshot_ex)
  have iff: "(\<exists>t. reconcile s facts tree = Ok t) = (\<exists>u. rebuild s facts tree = Ok u)"
    by (simp add: reconcile_Ok_iff [OF assms(2) sn] rebuild_Ok_iff)
  show ?thesis
  proof (cases "reconcile s facts tree")
    case (Inl e)
    with iff show ?thesis by (cases "rebuild s facts tree") auto
  next
    case (Inr t)
    with iff obtain u where b: "rebuild s facts tree = Ok u" by auto
    note c = reconcile_content [OF assms(2) sn Inr] and rb = rebuild_content [OF b]
    have n: "node_map t = node_map u" and e: "edge_map t = edge_map u" using c rb by simp_all
    note reads = content_reads [OF conjunct1 [OF c] rb(1) n e]
    show ?thesis
      using reads reconcile_wf_frame(2,3) [OF wf Inr] rebuild_frame(1,2) [OF b]
      by (simp add: export_factset_def Inr b)
  qed
qed

theorem reconcile_is_rebuild_witness:
  "\<exists>t u. reconcile demo_store demo_facts (Some ''t'') = Ok t
     \<and> rebuild demo_store demo_facts (Some ''t'') = Ok u \<and> export_factset t = export_factset u"
proof -
  from demo_rebuild obtain u where "rebuild demo_store demo_facts (Some ''t'') = Ok u" by blast
  then show ?thesis
    using reconcile_is_rebuild [OF demo_reachable facts_distinct_consistent [OF demo_distinct], of "Some ''t''"]
    by (auto split: sum.splits)
qed

text \<open>Without that proviso they differ: when the store already holds the last of two facts about one
  node, a rebuild leaves that last fact, a reconcile writes the first one over it.\<close>

lemma reconcile_repeated_node:
  "let n1 = node_new ''k'' KFn ''first''; n2 = node_new ''k'' KFn ''last'';
       facts = \<lparr>fs_nodes = [n1, n2], fs_edges = []\<rparr>; s = upsert_node empty_store n2
   in and_then (rebuild s facts None) (\<lambda>u. get_node u ''k'') = Ok (Some n2)
      \<and> and_then (reconcile s facts None) (\<lambda>t. get_node t ''k'') = Ok (Some n1)"
  by code_simp

text \<open>The facts that settle a set which repeats a key: the last about each node, the first about each edge.\<close>

primrec last_per_key :: "node list \<Rightarrow> node list" where
  "last_per_key [] = []"
| "last_per_key (n # ns) = (if n_key n \<in> n_key ` set ns then last_per_key ns else n # last_per_key ns)"

primrec first_per_key :: "edge list \<Rightarrow> edge list" where
  "first_per_key [] = []"
| "first_per_key (e # es) = e # filter (\<lambda>d. ekey d \<noteq> ekey e) (first_per_key es)"

lemma last_per_key_keys: "n_key ` set (last_per_key ns) = n_key ` set ns"
  by (induction ns) auto

lemma last_per_key_distinct: "distinct (map n_key (last_per_key ns))"
  by (induction ns) (simp_all add: last_per_key_keys)

lemma last_per_key_map: "map_of (rev (map (\<lambda>n. (n_key n, f n)) (last_per_key ns))) = map_of (rev (map (\<lambda>n. (n_key n, f n)) ns))"
proof (induction ns)
  case (Cons n ns)
  have "map_of (rev (map (\<lambda>n. (n_key n, f n)) ns)) (n_key n) \<noteq> None" if "n_key n \<in> n_key ` set ns"
    using that by (simp add: map_of_eq_None_iff image_image)
  with Cons show ?case by (auto simp: fun_eq_iff map_add_def split: option.splits)
qed simp

lemma first_per_key_distinct: "distinct (map ekey (first_per_key es))"
proof (induction es)
  case (Cons e es)
  have "distinct (map ekey (filter P (first_per_key es)))" for P
    using Cons by (rule distinct_map_filter)
  then show ?case by auto
qed simp

lemma map_of_filter_other:
  "k \<noteq> c \<Longrightarrow> map_of (map (\<lambda>e. (ekey e, f e)) (filter (\<lambda>d. ekey d \<noteq> c) es)) k = map_of (map (\<lambda>e. (ekey e, f e)) es) k"
  by (induction es) auto

lemma first_per_key_map: "map_of (map (\<lambda>e. (ekey e, f e)) (first_per_key es)) = map_of (map (\<lambda>e. (ekey e, f e)) es)"
  by (induction es) (auto simp: fun_eq_iff map_of_filter_other)

text \<open>C5. A rebuild stores the facts and nothing else: exporting the store it leaves gives back the fact set, in the
  reads' order (nodes by key; edges by source, target, kind and provenance), up to the spelling of a kind that names a
  built-in one. Of several facts about one node the last is the one kept, of several about one edge the first.\<close>

theorem rebuild_export:
  assumes "rebuild s facts tree = Ok t"
  shows "export_factset t = Ok
    \<lparr>fs_nodes = map (\<lambda>n. n\<lparr>n_kind := node_kind_norm (n_kind n)\<rparr>) (sort_key n_key (last_per_key (fs_nodes facts))),
     fs_edges = map (\<lambda>e. e\<lparr>e_kind := edge_kind_norm (e_kind e)\<rparr>) (sort_key ekey (first_per_key (fs_edges facts)))\<rparr>"
proof -
  let ?settled = "\<lparr>fs_nodes = last_per_key (fs_nodes facts), fs_edges = first_per_key (fs_edges facts)\<rparr> :: factset"
  have d: "facts_distinct ?settled"
    by (simp add: facts_distinct_def last_per_key_distinct first_per_key_distinct)
  have "fact_nodes facts = fact_nodes ?settled" "fact_edges facts = fact_edges ?settled"
    by (simp_all add: fact_nodes_def fact_edges_def last_per_key_map first_per_key_map)
  with rebuild_content [OF assms] have "store_wf t" "node_map t = fact_nodes ?settled" "edge_map t = fact_edges ?settled"
    by simp_all
  with d show ?thesis by (simp add: export_factset_def all_nodes_facts all_edges_facts)
qed

theorem rebuild_export_witness:
  "and_then (rebuild demo_store demo_facts None) export_factset = Ok demo_facts"
proof -
  from demo_rebuild obtain t where t: "rebuild demo_store demo_facts None = Ok t" by blast
  have "map (\<lambda>n. n\<lparr>n_kind := node_kind_norm (n_kind n)\<rparr>) (sort_key n_key (last_per_key (fs_nodes demo_facts))) = fs_nodes demo_facts"
    by code_simp
  moreover have "map (\<lambda>e. e\<lparr>e_kind := edge_kind_norm (e_kind e)\<rparr>) (sort_key ekey (first_per_key (fs_edges demo_facts))) = fs_edges demo_facts"
    by code_simp
  ultimately show ?thesis using rebuild_export [OF t] by (simp add: t)
qed


lemma retract_Some: "m q = Some (c, ref) \<Longrightarrow> ref \<noteq> Some r \<Longrightarrow> retract m r q = Some (c, ref)"
  by (simp add: retract_def)

lemma layer_edges_keep: "retract (edge_map s) r q = Some v \<Longrightarrow> layer_edges s r facts q = Some v"
  by (simp add: layer_edges_def foldl_link_content)

text \<open>C3. Replacing an import layer takes away only what the layer itself put there: a node that is gone
  was in the layer's previous facts, is in none of its new ones, is claimed by no other layer and has no
  edge left, and every edge of another origin is untouched.\<close>

theorem import_layer_withdraws_only_its_own:
  assumes "reachable s" and "apply_import_layer s r facts = Ok (t, a)"
  shows "(\<forall>k. node_map s k \<noteq> None \<longrightarrow> node_map t k = None \<longrightarrow>
            k \<in> set (import_layer_node_keys s r) \<and> k \<notin> n_key ` set (fs_nodes facts)
            \<and> (\<forall>(r', f) \<in> set (imports_t s). r' \<noteq> r \<longrightarrow> k \<notin> n_key ` set (fs_nodes f))
            \<and> \<not> attached (edge_map t) k)
       \<and> (\<forall>q c ref. edge_map s q = Some (c, ref) \<longrightarrow> ref \<noteq> Some r \<longrightarrow> edge_map t q = Some (c, ref))"
proof -
  have wf: "store_wf s" using reachable_inv [OF assms(1)] by blast
  note c = apply_layer_cases [OF wf assms(2)]
  have other: "k \<notin> n_key ` set (fs_nodes f)"
    if "k \<notin> set (claimed_elsewhere s r)" "(r', f) \<in> set (imports_t s)" "r' \<noteq> r" for k r' f
    using that by (auto simp: set_claimed_elsewhere)
  have gone: "layer_withdrawn s r facts k" if "node_map s k \<noteq> None" "node_map t k = None" for k
    using that c by (auto simp: layer_nodes_def foldl_put_None split: if_splits)
  have "edge_map t q = Some (x, ref)" if "edge_map s q = Some (x, ref)" "ref \<noteq> Some r" for q x ref
    using c layer_edges_keep [OF retract_Some [of "edge_map s" q x ref r, OF that]] by simp
  moreover have "k \<in> set (import_layer_node_keys s r) \<and> k \<notin> n_key ` set (fs_nodes facts)
            \<and> (\<forall>(r', f) \<in> set (imports_t s). r' \<noteq> r \<longrightarrow> k \<notin> n_key ` set (fs_nodes f))
            \<and> \<not> attached (edge_map t) k"
    if "node_map s k \<noteq> None" "node_map t k = None" for k
    using gone [OF that] other c by (auto simp: layer_withdrawn_def)
  ultimately show ?thesis by blast
qed

definition demo_layer :: factset where
  "demo_layer = \<lparr>fs_nodes = [node_new ''okf:x'' KDoc ''x''],
     fs_edges = [(edge_derived ''okf:x'' ''a'' EReferences)\<lparr>e_src_ref := Some ''r''\<rparr>,
                 (edge_derived ''okf:x'' ''gone'' EReferences)\<lparr>e_src_ref := Some ''r''\<rparr>]\<rparr>"

lemma demo_layer_valid: "\<forall>e \<in> set (fs_edges demo_layer). edge_is_valid e"
  by (simp add: demo_layer_def edge_derived_def edge_is_valid_def)

lemma demo_layered:
  obtains t a where "apply_import_layer demo_store ''r'' demo_layer = Ok (t, a)"
  using apply_layer_Ok_iff [OF demo_wf, of "''r''" demo_layer] demo_layer_valid by auto

theorem import_layer_withdraws_only_its_own_witness:
  "\<exists>t a. apply_import_layer demo_store ''r'' demo_layer = Ok (t, a) \<and> node_map t ''b'' \<noteq> None"
proof -
  obtain t a where ok: "apply_import_layer demo_store ''r'' demo_layer = Ok (t, a)" by (rule demo_layered)
  have "''b'' \<notin> set (import_layer_node_keys demo_store ''r'')" and "node_map demo_store ''b'' \<noteq> None"
    by code_simp+
  with import_layer_withdraws_only_its_own [OF demo_reachable ok] ok show ?thesis by blast
qed

text \<open>C6. An import layer is applied exactly when every edge it states is valid. Then its nodes are all
  stored, of its edges exactly those whose two ends exist are applied, counted and persisted with the
  layer, and the graph holds no edge of the layer's origin that the layer does not state.\<close>

theorem import_layer_effect:
  assumes "reachable s"
  shows "case apply_import_layer s r facts of
      Err _ \<Rightarrow> \<exists>e \<in> set (fs_edges facts). \<not> edge_is_valid e
    | Ok (t, a) \<Rightarrow>
        (\<forall>e \<in> set (fs_edges facts). edge_is_valid e)
        \<and> (\<forall>n \<in> set (fs_nodes facts). node_map t (n_key n) \<noteq> None)
        \<and> (let kept = filter (linkable (foldl put_content (node_map s) (fs_nodes facts))) (fs_edges facts)
           in map_of (imports_t t) r = Some \<lparr>fs_nodes = fs_nodes facts, fs_edges = kept\<rparr>
              \<and> ia_edges_applied a = length kept
              \<and> ia_edges_pruned a = length (fs_edges facts) - length kept
              \<and> (\<forall>e \<in> set kept. edge_map t (ekey e) \<noteq> None)
              \<and> (\<forall>q c. edge_map t q = Some (c, Some r) \<longrightarrow> q \<in> ekey ` set kept))"
proof -
  have wf: "store_wf s" using reachable_inv [OF assms] by blast
  show ?thesis
  proof (cases "apply_import_layer s r facts")
    case (Inl x)
    with apply_layer_Ok_iff [OF wf, of r facts] show ?thesis by auto
  next
    case (Inr ta)
    obtain t a where ta: "ta = (t, a)" by (cases ta)
    note c = apply_layer_cases [OF wf Inr [unfolded ta]]
    have kept: "filter (linkable (foldl put_content (node_map s) (fs_nodes facts))) (fs_edges facts)
        = layer_kept s facts" by (simp add: layer_kept_def layer_nodes_def)
    have nodes: "node_map t (n_key n) \<noteq> None" if "n \<in> set (fs_nodes facts)" for n
      using c that by (auto simp: layer_withdrawn_def layer_nodes_def foldl_put_None)
    have edges: "edge_map t (ekey e) \<noteq> None" if "e \<in> set (layer_kept s facts)" for e
    proof -
      from that have "map_of (map (\<lambda>e. (ekey e, edge_value e)) (layer_kept s facts)) (ekey e) \<noteq> None"
        by (auto simp: map_of_eq_None_iff image_image)
      then show ?thesis using c by (auto simp: layer_edges_def foldl_link_content split: option.splits)
    qed
    have only: "q \<in> ekey ` set (layer_kept s facts)" if "edge_map t q = Some (x, Some r)" for q x
    proof -
      from that c have "map_of (map (\<lambda>e. (ekey e, edge_value e)) (layer_kept s facts)) q = Some (x, Some r)"
        by (auto simp: layer_edges_def foldl_link_content retract_def split: option.splits if_splits)
      then show ?thesis by (auto dest!: map_of_SomeD)
    qed
    from c have "map_of (imports_t t) r = Some \<lparr>fs_nodes = fs_nodes facts, fs_edges = layer_kept s facts\<rparr>"
      and "ia_edges_applied a = length (layer_kept s facts)"
      and "ia_edges_pruned a = length (fs_edges facts) - length (layer_kept s facts)"
      by (auto simp: keep_edges_def)
    moreover have "\<forall>e \<in> set (fs_edges facts). edge_is_valid e"
      using apply_layer_Ok_iff [OF wf, of r facts] Inr by blast
    ultimately show ?thesis using nodes edges only
      by (simp only: Inr ta sum.case prod.case Let_def kept) blast
  qed
qed

theorem import_layer_effect_witness:
  "\<exists>t a. apply_import_layer demo_store ''r'' demo_layer = Ok (t, a)
     \<and> ia_edges_applied a = 1 \<and> ia_edges_pruned a = 1 \<and> node_map t ''okf:x'' \<noteq> None"
proof -
  obtain t a where ok: "apply_import_layer demo_store ''r'' demo_layer = Ok (t, a)" by (rule demo_layered)
  have "length (filter (linkable (foldl put_content (node_map demo_store) (fs_nodes demo_layer))) (fs_edges demo_layer)) = 1"
    and "length (fs_edges demo_layer) = 2"
    and "node_new ''okf:x'' KDoc ''x'' \<in> set (fs_nodes demo_layer)"
    and "n_key (node_new ''okf:x'' KDoc ''x'') = ''okf:x''"
    by code_simp+
  with import_layer_effect [OF demo_reachable, where r = "''r''" and facts = demo_layer] ok show ?thesis
    by (auto simp: Let_def)
qed


text \<open>C7. Applying the same layer a second time succeeds and changes nothing a read returns, whatever origin the
  layer's edges state: the edges of the layer's origin are dropped and put back, its nodes rewritten as they are, and
  no node is withdrawn.\<close>

theorem import_layer_idempotent:
  assumes "reachable s" and "apply_import_layer s r facts = Ok (t, a)"
  shows "\<exists>u b. apply_import_layer t r facts = Ok (u, b) \<and> export_factset u = export_factset t
     \<and> imports_t u = imports_t t \<and> sync_t u = sync_t t
     \<and> ia_edges_applied b = ia_edges_applied a \<and> ia_edges_pruned b = ia_edges_pruned a"
proof -
  have wf: "store_wf s" using reachable_inv [OF assms(1)] by blast
  note c = apply_layer_cases [OF wf assms(2)] and again = apply_layer_again [OF wf assms(2)]
  then have wft: "store_wf t" by blast
  from apply_layer_Ok_iff [OF wf, of r facts] apply_layer_Ok_iff [OF wft, of r facts] assms(2)
  obtain u b where u: "apply_import_layer t r facts = Ok (u, b)" by auto
  note cu = apply_layer_cases [OF wft u]
  have n: "node_map u = node_map t" and e: "edge_map u = edge_map t"
    using cu again by (simp_all add: fun_eq_iff)
  have "export_factset u = export_factset t"
    using content_reads [OF conjunct1 [OF cu] wft n e] by (simp add: export_factset_def)
  moreover have "imports_t u = imports_t t" using cu c again(5) by (simp add: bt_insert_twice)
  moreover have "ia_edges_applied b = ia_edges_applied a" "ia_edges_pruned b = ia_edges_pruned a"
    using cu c again(2) by auto
  ultimately show ?thesis using u cu by blast
qed

theorem import_layer_idempotent_witness:
  "\<exists>t a u b. apply_import_layer demo_store ''r'' demo_layer = Ok (t, a)
     \<and> apply_import_layer t ''r'' demo_layer = Ok (u, b) \<and> export_factset u = export_factset t"
proof -
  obtain t a where ok: "apply_import_layer demo_store ''r'' demo_layer = Ok (t, a)" by (rule demo_layered)
  from import_layer_idempotent [OF demo_reachable ok] ok show ?thesis by blast
qed

lemma map_of_reapplied:
  "distinct (map fst ls) \<Longrightarrow> map_of (foldl (reapplied N) m ls) r =
     (case map_of ls r of
        Some f \<Rightarrow> if length (filter (linkable N) (fs_edges f)) \<noteq> length (fs_edges f)
                  then Some \<lparr>fs_nodes = fs_nodes f, fs_edges = filter (linkable N) (fs_edges f)\<rparr>
                  else map_of m r
      | None \<Rightarrow> map_of m r)"
proof (induction ls arbitrary: m)
  case (Cons l ls)
  obtain r' f where l: "l = (r', f)" by (cases l)
  show ?case
  proof (cases "r = r'")
    case True
    with Cons.prems have "map_of ls r = None" by (simp add: l map_of_eq_None_iff)
    with Cons.IH [of "reapplied N m l"] Cons.prems True show ?thesis by (simp add: l) (simp add: reapplied_def)
  next
    case False
    then have "map_of (reapplied N m l) r = map_of m r" by (simp add: l reapplied_def)
    with Cons.IH [of "reapplied N m l"] Cons.prems False show ?thesis by (simp add: l cong: option.case_cong if_cong)
  qed
qed simp

lemma map_of_load_layers:
  assumes "distinct (map fst (imports_t s))"
  shows "distinct (map fst (load_import_layers s))"
    and "map_of (imports_t s) r = Some f \<Longrightarrow>
           \<exists>g. map_of (load_import_layers s) r = Some g \<and> fs_edges g = fs_edges f
               \<and> map n_key (fs_nodes g) = map n_key (fs_nodes f)"
    and "map_of (imports_t s) r = None \<Longrightarrow> map_of (load_import_layers s) r = None"
proof -
  let ?h = "\<lambda>f. f\<lparr>fs_nodes := map (\<lambda>n. if n_provenance n = Derived
             then n\<lparr>n_provenance := import_node_provenance (n_key n)\<rparr> else n) (fs_nodes f)\<rparr>"
  have l: "load_import_layers s = map (\<lambda>(r, f). (r, ?h f)) (sort_key fst (imports_t s))"
    by (simp add: load_import_layers_def)
  have ds: "distinct (map fst (sort_key fst (imports_t s)))"
  proof -
    have "mset (map fst (sort_key fst (imports_t s))) = mset (map fst (imports_t s))" by simp
    then show ?thesis using assms mset_eq_imp_distinct_iff by blast
  qed
  have fst: "map fst (load_import_layers s) = map fst (sort_key fst (imports_t s))"
    by (simp add: l comp_def case_prod_beta)
  then show "distinct (map fst (load_import_layers s))" using ds by simp
  have m: "map_of (sort_key fst (imports_t s)) r = map_of (imports_t s) r" for r
  proof (rule option_eqI_Some)
    show "map_of (sort_key fst (imports_t s)) r = Some v \<longleftrightarrow> map_of (imports_t s) r = Some v" for v
      using ds assms by simp
  qed
  have "map_of (load_import_layers s) r = map_option ?h (map_of (imports_t s) r)" for r
    unfolding l m [symmetric] by (induction "sort_key fst (imports_t s)" rule: list.induct)
      (simp_all add: map_of_map)
  then show "map_of (imports_t s) r = Some f \<Longrightarrow>
           \<exists>g. map_of (load_import_layers s) r = Some g \<and> fs_edges g = fs_edges f
               \<and> map n_key (fs_nodes g) = map n_key (fs_nodes f)"
    "map_of (imports_t s) r = None \<Longrightarrow> map_of (load_import_layers s) r = None"
    by (auto simp: comp_def)
qed


lemma bt_insert_present: "bt_wf m \<Longrightarrow> k \<in> fst ` set m \<Longrightarrow> map fst (bt_insert k v m) = map fst m"
  by (induction k v m rule: bt_insert.induct) (auto simp: bt_wf_def)

lemma length_filter_eq: "length (filter P xs) = length xs \<Longrightarrow> filter P xs = xs"
  by (metis filter_id_conv length_filter_less less_irrefl)

lemma foldl_reapplied_keys:
  "bt_wf m \<Longrightarrow> fst ` set ls \<subseteq> fst ` set m \<Longrightarrow> map fst (foldl (reapplied N) m ls) = map fst m"
proof (induction ls arbitrary: m)
  case (Cons l ls)
  have "map fst (reapplied N m l) = map fst m"
    using Cons.prems bt_insert_present [of m "fst l"] by (auto simp: reapplied_def split: prod.splits)
  moreover from this have "fst ` set (reapplied N m l) = fst ` set m" by (metis set_map)
  moreover have "bt_wf (reapplied N m l)" using Cons.prems by (auto simp: reapplied_def split: prod.splits)
  ultimately show ?case using Cons by simp
qed simp

text \<open>C8. After the graph is rewritten, re-applying the layers puts every layer's nodes back, and every valid edge of a
  layer whose two ends are then stored: it is in the graph and stays with its layer. It keeps every node and edge already
  there, accounts for every edge of every layer, and leaves no layer holding an edge that dangles: each edge persisted
  with a layer is in the graph, between two stored nodes.\<close>

theorem reapply_imports_restores:
  assumes "reachable s" and "reapply_imports s = Ok (t, a)"
  shows "(\<forall>(r, f) \<in> set (imports_t s). \<forall>n \<in> set (fs_nodes f). node_map t (n_key n) \<noteq> None)
     \<and> (\<forall>(r, f) \<in> set (imports_t t). \<forall>e \<in> set (fs_edges f).
          node_map t (e_src e) \<noteq> None \<and> node_map t (e_dst e) \<noteq> None \<and> edge_map t (ekey e) \<noteq> None)
     \<and> (\<forall>(r, f) \<in> set (imports_t s). \<forall>e \<in> set (fs_edges f).
          edge_is_valid e \<and> node_map t (e_src e) \<noteq> None \<and> node_map t (e_dst e) \<noteq> None \<longrightarrow>
          edge_map t (ekey e) \<noteq> None \<and> (\<exists>g. (r, g) \<in> set (imports_t t) \<and> e \<in> set (fs_edges g)))
     \<and> (\<forall>k. node_map s k \<noteq> None \<longrightarrow> node_map t k \<noteq> None)
     \<and> (\<forall>q v. edge_map s q = Some v \<longrightarrow> edge_map t q = Some v)
     \<and> import_refs t = import_refs s
     \<and> ia_edges_applied a + ia_edges_pruned a = (\<Sum>(_, f) \<leftarrow> load_import_layers s. length (fs_edges f))"
proof -
  have wf: "store_wf s" and bt: "bt_wf (imports_t s)" using reachable_inv [OF assms(1)] by auto
  then have ds: "distinct (map fst (imports_t s))" using bt_wf_distinct by blast
  note c = reapply_cases [OF wf assms(2)] and ls = map_of_load_layers [OF ds]
  let ?N = "foldl put_content (node_map s) (layers_nodes s)"
  have sub: "fst ` set (load_import_layers s) \<subseteq> fst ` set (imports_t s)"
    using ls(3) by (metis map_of_eq_None_iff subsetI)
  have keys: "map fst (imports_t t) = map fst (imports_t s)"
    unfolding c(3) by (rule foldl_reapplied_keys [OF bt sub])
  have present: "node_map t (n_key n) \<noteq> None" if "(r, f) \<in> set (imports_t s)" "n \<in> set (fs_nodes f)" for r f n
  proof -
    from that(1) ds have "map_of (imports_t s) r = Some f" by simp
    from ls(2) [OF this] obtain g where g: "map_of (load_import_layers s) r = Some g"
      "map n_key (fs_nodes g) = map n_key (fs_nodes f)" by blast
    from that(2) g(2) have "n_key n \<in> n_key ` set (fs_nodes g)" by (metis image_eqI set_map)
    with map_of_SomeD [OF g(1)] have "n_key n \<in> n_key ` set (layers_nodes s)"
      by (force simp: layers_nodes_def)
    then show ?thesis by (simp add: c(2) foldl_put_None)
  qed
  have linked: "edge_map t (ekey e) \<noteq> None"
    if "(r, g) \<in> set (load_import_layers s)" "e \<in> set (filter (linkable ?N) (fs_edges g))" for r g e
  proof -
    have "e \<in> set (concat (map (\<lambda>(_, f). filter (linkable ?N) (fs_edges f)) (load_import_layers s)))"
      using that by force
    then have "map_of (map (\<lambda>e. (ekey e, edge_value e)) (concat (map (\<lambda>(_, f).
        filter (linkable ?N) (fs_edges f)) (load_import_layers s)))) (ekey e) \<noteq> None"
      by (simp only: map_of_eq_None_iff) force
    then show ?thesis unfolding c(4) foldl_link_content by (auto split: option.splits)
  qed
  have again: "edge_map t (ekey e) \<noteq> None \<and> (\<exists>g. (r, g) \<in> set (imports_t t) \<and> e \<in> set (fs_edges g))"
    if "(r, f) \<in> set (imports_t s)" "e \<in> set (fs_edges f)" "edge_is_valid e \<and> node_map t (e_src e) \<noteq> None \<and> node_map t (e_dst e) \<noteq> None"
    for r f e
  proof -
    from that(1) ds have f: "map_of (imports_t s) r = Some f" by simp
    from ls(2) [OF this] obtain g where g: "map_of (load_import_layers s) r = Some g" "fs_edges g = fs_edges f" by blast
    have e: "e \<in> set (filter (linkable ?N) (fs_edges g))" using that(2,3) g(2) by (simp add: c(2) linkable_def)
    have "map_of (imports_t t) r = (if length (filter (linkable ?N) (fs_edges g)) \<noteq> length (fs_edges g)
        then Some \<lparr>fs_nodes = fs_nodes g, fs_edges = filter (linkable ?N) (fs_edges g)\<rparr> else Some f)"
      using map_of_reapplied [OF ls(1), of ?N "imports_t s" r] unfolding c(3) g(1) f by (simp only: option.case)
    then obtain h where "map_of (imports_t t) r = Some h" "e \<in> set (fs_edges h)"
      using e g(2) by (auto split: if_splits)
    then show ?thesis using linked [OF map_of_SomeD [OF g(1)] e] map_of_SomeD by fast
  qed
  have kept: "node_map t (e_src e) \<noteq> None \<and> node_map t (e_dst e) \<noteq> None \<and> edge_map t (ekey e) \<noteq> None"
    if "(r, f) \<in> set (imports_t t)" "e \<in> set (fs_edges f)" for r f e
  proof -
    have "map_of (imports_t t) r = Some f" using that(1) keys ds by (simp add: keys)
    then have m: "map_of (foldl (reapplied ?N) (imports_t s) (load_import_layers s)) r = Some f"
      by (simp add: c(3))
    have "r \<in> fst ` set (imports_t s)" using that(1) keys by (metis fst_conv image_eqI set_map)
    then obtain f0 where f0: "map_of (imports_t s) r = Some f0" by (metis map_of_eq_None_iff not_None_eq)
    from ls(2) [OF this] obtain g where g: "map_of (load_import_layers s) r = Some g" "fs_edges g = fs_edges f0"
      by blast
    have "Some f = (if length (filter (linkable ?N) (fs_edges g)) \<noteq> length (fs_edges g)
        then Some \<lparr>fs_nodes = fs_nodes g, fs_edges = filter (linkable ?N) (fs_edges g)\<rparr> else Some f0)"
      using map_of_reapplied [OF ls(1), of ?N "imports_t s" r] unfolding m g(1) f0 by (simp only: option.case)
    then have "fs_edges f = filter (linkable ?N) (fs_edges g)"
      using g(2) by (cases "length (filter (linkable ?N) (fs_edges g)) = length (fs_edges g)")
        (simp_all only: length_filter_eq option.inject factset.select_convs if_True if_False not_True_eq_False simp_thms)
    with that(2) have e: "e \<in> set (filter (linkable ?N) (fs_edges g))" by simp
    from linked [OF map_of_SomeD [OF g(1)] this] have "edge_map t (ekey e) \<noteq> None" .
    with e show ?thesis by (simp add: c(2) linkable_def)
  qed
  have "node_map t k \<noteq> None" if "node_map s k \<noteq> None" for k using that by (simp add: c(2) foldl_put_None)
  moreover have "edge_map t q = Some v" if "edge_map s q = Some v" for q v
    using that by (simp add: c(4) foldl_link_content)
  moreover have "import_refs t = import_refs s" by (simp add: import_refs_def keys)
  ultimately show ?thesis using present kept again c(6) by blast
qed

lemma reapply_loop_Ok:
  "(\<And>r f e. (r, f) \<in> set ls \<Longrightarrow> e \<in> set (fs_edges f) \<Longrightarrow> edge_is_valid e) \<Longrightarrow>
     \<exists>x. try_fold reapply_step acc ls = Ok x"
proof (induction ls arbitrary: acc)
  case Nil
  show ?case by (cases acc) simp
next
  case (Cons l ls)
  obtain s a where acc: "acc = (s, a)" by (cases acc)
  obtain r f where l: "l = (r, f)" by (cases l)
  have "\<exists>x. try_fold prune_step (s, [], 0, 0) (fs_edges f) = Ok x"
    by (rule prune_Ok) (use Cons.prems [of r f] in \<open>simp add: l\<close>)
  then obtain s' kept ap pr where "try_fold prune_step (s, [], 0, 0) (fs_edges f) = Ok (s', kept, ap, pr)" by force
  then obtain acc' where "reapply_step (s, a) l = Ok acc'"
    by (simp add: reapply_step_def l apply_edges_pruning_alt Let_def)
  moreover have "\<exists>x. try_fold reapply_step acc' ls = Ok x" by (rule Cons.IH) (metis Cons.prems list.set_intros(2))
  ultimately show ?case by (simp add: acc)
qed

lemma reapply_Ok:
  assumes "\<And>r f e. (r, f) \<in> set (imports_t s) \<Longrightarrow> e \<in> set (fs_edges f) \<Longrightarrow> edge_is_valid e"
  shows "\<exists>x. reapply_imports s = Ok x"
proof -
  have "\<exists>x. try_fold reapply_step acc (load_import_layers s) = Ok x" for acc
    by (rule reapply_loop_Ok) (use assms in \<open>auto simp: load_import_layers_def\<close>)
  then show ?thesis
    by (simp add: reapply_imports_def reapply_step_def Let_def foldl_layers_upserts layers_nodes_def)
qed

theorem reapply_imports_restores_witness:
  "\<exists>t a u b. apply_import_layer demo_store ''r'' demo_layer = Ok (t, a)
     \<and> reapply_imports t = Ok (u, b) \<and> import_refs u = import_refs t"
proof -
  obtain t a where ok: "apply_import_layer demo_store ''r'' demo_layer = Ok (t, a)" by (rule demo_layered)
  have "imports_t demo_store = []" by code_simp
  with apply_layer_cases [OF demo_wf ok] have i: "imports_t t = [(''r'', keep_edges demo_store demo_layer)]" by simp
  have "\<exists>x. reapply_imports t = Ok x"
    by (rule reapply_Ok) (use demo_layer_valid in \<open>auto simp: i keep_edges_def layer_kept_def\<close>)
  then obtain u b where u: "reapply_imports t = Ok (u, b)" by force
  from reapply_imports_restores [OF reachable.layer [OF demo_reachable ok] u] ok u show ?thesis by blast
qed

end
