(* ===== verification/PathQuery.thy ===== *)
theory PathQuery imports StoreProps begin

text \<open>
  The shortest-path query of \<open>crates/rto-graph/src/query.rs\<close> (\<open>steps_from\<close>, \<open>hop\<close>, \<open>path\<close>): the
  breadth-first search with its map of predecessors, and the walk back from the target.

  The search terminates for every store. The walk back follows predecessors for as long as it takes, so
  it is a partial function; that it ends is proved.
\<close>

section \<open>The search as written\<close>

record path_hop =
  ph_kind :: string
  ph_provenance :: string
  ph_confidence :: "f64 option"
  ph_direction :: string
  ph_node :: string

record step =
  st_node :: string
  st_hop :: path_hop

record path_result =
  pr_from :: string
  pr_to :: string
  pr_found :: bool
  pr_length :: nat
  pr_hops :: "path_hop list"

definition hop :: "edge \<Rightarrow> string \<Rightarrow> string \<Rightarrow> path_hop" where
  "hop e direction node =
     \<lparr>ph_kind = edge_kind_as_str (e_kind e), ph_provenance = provenance_as_str (e_provenance e),
      ph_confidence = e_confidence e, ph_direction = direction, ph_node = node\<rparr>"

definition step_order :: "step \<Rightarrow> string \<times> string \<times> string \<times> string" where
  "step_order st = (st_node st, ph_kind (st_hop st), ph_provenance (st_hop st), ph_direction (st_hop st))"

definition steps_from :: "store \<Rightarrow> string \<Rightarrow> store_error + step list" where
  "steps_from s key =
     and_then (edges_from s key) (\<lambda>outs. and_then (edges_to s key) (\<lambda>ins.
       Ok (sort_key step_order
         (map (\<lambda>e. \<lparr>st_node = e_dst e, st_hop = hop e ''outgoing'' (e_dst e)\<rparr>) outs
          @ map (\<lambda>e. \<lparr>st_node = e_src e, st_hop = hop e ''incoming'' (e_src e)\<rparr>) ins))))"

definition placeholder_hop :: path_hop where
  "placeholder_hop = \<lparr>ph_kind = '''', ph_provenance = ''derived'', ph_confidence = None,
     ph_direction = ''outgoing'', ph_node = ''''\<rparr>"

type_synonym came = "(string, string \<times> path_hop) btree"

text \<open>One turn of the inner loop: a node not seen yet is recorded and queued.\<close>

definition visit :: "string \<Rightarrow> came \<times> string list \<Rightarrow> step \<Rightarrow> came \<times> string list" where
  "visit current = (\<lambda>(came, queue) st.
     if map_of came (st_node st) \<noteq> None then (came, queue)
     else (bt_insert (st_node st) (current, st_hop st) came, queue @ [st_node st]))"

definition unseen :: "store \<Rightarrow> came \<Rightarrow> string set" where
  "unseen s came = nr_key ` set (nodes_t s) - fst ` set came"

lemma edge_select_keys:
  assumes "j \<in> set (edge_select s)"
  shows "j_src j \<in> nr_key ` set (nodes_t s) \<and> j_dst j \<in> nr_key ` set (nodes_t s)"
proof -
  from assms obtain r where "join_row s r = Some j" by (auto simp: edge_select_def List.map_filter_def)
  then show ?thesis by (auto simp: join_row_def row_by_id_def split: option.splits dest!: find_SomeD)
qed

lemma steps_from_keys:
  assumes "steps_from s k = Ok ss" and "st \<in> set ss"
  shows "st_node st \<in> nr_key ` set (nodes_t s)"
proof -
  from assms(1) obtain outs ins where o: "edges_from s k = Ok outs" and i: "edges_to s k = Ok ins"
    and ss: "ss = sort_key step_order
         (map (\<lambda>e. \<lparr>st_node = e_dst e, st_hop = hop e ''outgoing'' (e_dst e)\<rparr>) outs
          @ map (\<lambda>e. \<lparr>st_node = e_src e, st_hop = hop e ''incoming'' (e_src e)\<rparr>) ins)"
    by (auto simp: steps_from_def and_then_eq_Ok)
  have "\<exists>j \<in> set (edge_select s). row_to_edge j = Ok e" if "e \<in> set outs \<or> e \<in> set ins" for e
    using that o i by (auto simp: edges_from_def edges_to_def collect_edges_def try_map_set)
  moreover have "e_src e = j_src j \<and> e_dst e = j_dst j" if "row_to_edge j = Ok e" for e j
    using row_to_edge_key [OF that] by simp
  ultimately have "e_src e \<in> nr_key ` set (nodes_t s) \<and> e_dst e \<in> nr_key ` set (nodes_t s)"
    if "e \<in> set outs \<or> e \<in> set ins" for e using that edge_select_keys by metis
  then show ?thesis using assms(2) by (auto simp: ss)
qed

lemma visits_measure:
  assumes "\<And>st. st \<in> set ss \<Longrightarrow> st_node st \<in> nr_key ` set (nodes_t s)"
    and "foldl (visit c) (came, queue) ss = (came', queue')"
  shows "2 * card (unseen s came') + length queue' \<le> 2 * card (unseen s came) + length queue"
  using assms
proof (induction ss arbitrary: came queue)
  case (Cons st ss)
  show ?case
  proof (cases "map_of came (st_node st) = None")
    case True
    have "finite (unseen s came)" by (simp add: unseen_def)
    moreover have "st_node st \<in> unseen s came"
      using True Cons.prems(1) [of st] by (simp add: unseen_def map_of_eq_None_iff)
    moreover have "unseen s (bt_insert (st_node st) (c, st_hop st) came) = unseen s came - {st_node st}"
      by (auto simp: unseen_def)
    ultimately have "Suc (card (unseen s (bt_insert (st_node st) (c, st_hop st) came))) = card (unseen s came)"
      by (metis card_Suc_Diff1)
    with Cons True show ?thesis by (fastforce simp: visit_def)
  qed (use Cons in \<open>simp add: visit_def\<close>)
qed simp

lemma visits_less:
  assumes "steps_from s current = Ok steps"
  shows "(case foldl (visit current) (came, queue) steps of
            (came', queue') \<Rightarrow> 2 * card (unseen s came') + length queue')
         < Suc (2 * card (unseen s came) + length queue)"
proof -
  obtain came' queue' where v: "foldl (visit current) (came, queue) steps = (came', queue')"
    by (cases "foldl (visit current) (came, queue) steps")
  have "2 * card (unseen s came') + length queue' \<le> 2 * card (unseen s came) + length queue"
    by (rule visits_measure [OF _ v]) (rule steps_from_keys [OF assms])
  then show ?thesis by (simp add: v)
qed

function bfs :: "store \<Rightarrow> string \<Rightarrow> came \<Rightarrow> string list \<Rightarrow> store_error + came" where
  "bfs s target came [] = Ok came"
| "bfs s target came (current # queue) =
     (if current = target then Ok came
      else case steps_from s current of
        Err e \<Rightarrow> Err e
      | Ok steps \<Rightarrow> (case foldl (visit current) (came, queue) steps of
          (came', queue') \<Rightarrow> bfs s target came' queue'))"
  by pat_completeness auto

termination
  by (relation "measure (\<lambda>(s, target, came, queue). 2 * card (unseen s came) + length queue)")
    (simp_all add: visits_less)

partial_function (option) backtrack ::
  "came \<Rightarrow> string \<Rightarrow> string \<Rightarrow> path_hop list \<Rightarrow> path_hop list option option" where
  "backtrack came from cursor hops =
     (if cursor = from then Some (Some (rev hops))
      else case map_of came cursor of
        None \<Rightarrow> Some None
      | Some (prev, h) \<Rightarrow> backtrack came from prev (hops @ [h]))"

definition path_report :: "string \<Rightarrow> string \<Rightarrow> bool \<Rightarrow> path_hop list \<Rightarrow> path_result" where
  "path_report from target found hops =
     \<lparr>pr_from = from, pr_to = target, pr_found = found, pr_length = length hops, pr_hops = hops\<rparr>"

text \<open>\<open>None\<close> when the walk back does not end.\<close>

definition path :: "store \<Rightarrow> string \<Rightarrow> string \<Rightarrow> (store_error + path_result) option" where
  "path s from target =
     (case get_node s from of
        Err e \<Rightarrow> Some (Err e)
      | Ok None \<Rightarrow> Some (Ok (path_report from target False []))
      | Ok (Some _) \<Rightarrow>
     (case get_node s target of
        Err e \<Rightarrow> Some (Err e)
      | Ok None \<Rightarrow> Some (Ok (path_report from target False []))
      | Ok (Some _) \<Rightarrow>
        if from = target then Some (Ok (path_report from target True []))
        else (case bfs s target (bt_insert from ('''', placeholder_hop) []) [from] of
           Err e \<Rightarrow> Some (Err e)
         | Ok came \<Rightarrow>
             map_option (\<lambda>r. case r of
                 None \<Rightarrow> Ok (path_report from target False [])
               | Some hops \<Rightarrow> Ok (path_report from target True hops))
               (backtrack came from target []))))"


section \<open>What a step is\<close>

definition hop_ok :: "store \<Rightarrow> string \<Rightarrow> path_hop \<Rightarrow> bool" where
  "hop_ok s a h \<longleftrightarrow>
     (\<exists>r. ph_direction h = ''outgoing''
          \<and> edge_map s (a, ph_node h, ph_kind h, ph_provenance h) = Some (ph_confidence h, r)
        \<or> ph_direction h = ''incoming''
          \<and> edge_map s (ph_node h, a, ph_kind h, ph_provenance h) = Some (ph_confidence h, r))"

definition adj :: "store \<Rightarrow> string \<Rightarrow> string \<Rightarrow> bool" where
  "adj s a b \<longleftrightarrow> (\<exists>k p. edge_map s (a, b, k, p) \<noteq> None \<or> edge_map s (b, a, k, p) \<noteq> None)"

lemma adj_hop: "adj s a b \<longleftrightarrow> (\<exists>h. hop_ok s a h \<and> ph_node h = b)"
proof
  assume "adj s a b"
  then obtain k p v where "edge_map s (a, b, k, p) = Some v \<or> edge_map s (b, a, k, p) = Some v"
    by (auto simp: adj_def)
  then show "\<exists>h. hop_ok s a h \<and> ph_node h = b"
  proof
    assume "edge_map s (a, b, k, p) = Some v"
    then show ?thesis
      by (intro exI [of _ "\<lparr>ph_kind = k, ph_provenance = p, ph_confidence = fst v,
            ph_direction = ''outgoing'', ph_node = b\<rparr>"]) (cases v, simp add: hop_ok_def)
  next
    assume "edge_map s (b, a, k, p) = Some v"
    then show ?thesis
      by (intro exI [of _ "\<lparr>ph_kind = k, ph_provenance = p, ph_confidence = fst v,
            ph_direction = ''incoming'', ph_node = b\<rparr>"]) (cases v, simp add: hop_ok_def)
  qed
next
  assume "\<exists>h. hop_ok s a h \<and> ph_node h = b"
  then show "adj s a b" unfolding adj_def hop_ok_def by (metis option.distinct(1))
qed

lemma row_to_edge_Ok:
  assumes wf: "store_wf s" and "j \<in> set (edge_select s)"
  shows "\<exists>e. row_to_edge j = Ok e"
proof -
  from assms obtain r where "r \<in> set (edges_t s)" "j = joined (key_of s) r"
    by (auto simp: edge_select_wf [OF wf])
  with store_wfD(6) [OF wf] show ?thesis by (metis edge_row_decode)
qed

lemma decode_edges:
  assumes wf: "store_wf s"
  shows "\<exists>es. collect_edges (sort_key f (filter P (edge_select s))) = Ok es
     \<and> (\<forall>e. e \<in> set es \<longleftrightarrow> (\<exists>j \<in> set (edge_select s). P j \<and> row_to_edge j = Ok e))"
proof -
  let ?xs = "sort_key f (filter P (edge_select s))"
  have "try_map row_to_edge ?xs = Ok (map (\<lambda>j. SOME e. row_to_edge j = Ok e) ?xs)"
  proof (rule try_map_total)
    fix j
    assume "j \<in> set ?xs"
    then have "\<exists>e. row_to_edge j = Ok e" by (simp add: row_to_edge_Ok [OF wf])
    then show "row_to_edge j = Ok (SOME e. row_to_edge j = Ok e)" by (rule someI_ex)
  qed
  then obtain es where es: "try_map row_to_edge ?xs = Ok es" by blast
  from try_map_set [OF es] es show ?thesis by (auto simp: collect_edges_def)
qed

definition hop_of :: "edge_join \<Rightarrow> string \<Rightarrow> string \<Rightarrow> path_hop" where
  "hop_of j direction node = \<lparr>ph_kind = j_kind j, ph_provenance = j_provenance j,
     ph_confidence = j_confidence j, ph_direction = direction, ph_node = node\<rparr>"

lemma hop_decoded: "row_to_edge j = Ok e \<Longrightarrow> hop e d n = hop_of j d n \<and> e_src e = j_src j \<and> e_dst e = j_dst j"
  using row_to_edge_key [of j e] by (auto simp: hop_def hop_of_def ekey_def join_key_def edge_value_def
      row_to_edge_def split: option.splits)

lemma hop_of_ok:
  assumes wf: "store_wf s"
  shows "hop_ok s a h \<longleftrightarrow> (\<exists>j \<in> set (edge_select s).
      j_src j = a \<and> h = hop_of j ''outgoing'' (j_dst j) \<or> j_dst j = a \<and> h = hop_of j ''incoming'' (j_src j))"
  by (cases h) (auto simp: hop_ok_def edge_map_Some [OF wf] join_key_def hop_of_def)

lemma steps_from_Ok:
  assumes wf: "store_wf s"
  shows "\<exists>ss. steps_from s k = Ok ss
     \<and> (\<forall>st. st \<in> set ss \<longleftrightarrow> hop_ok s k (st_hop st) \<and> st_node st = ph_node (st_hop st))"
proof -
  obtain outs where o: "edges_from s k = Ok outs"
    "\<And>e. e \<in> set outs \<longleftrightarrow> (\<exists>j \<in> set (edge_select s). j_src j = k \<and> row_to_edge j = Ok e)"
    using decode_edges [OF wf, of "\<lambda>j. (j_dst j, j_kind j, j_provenance j)" "\<lambda>j. j_src j = k"]
    unfolding edges_from_def by blast
  obtain ins where i: "edges_to s k = Ok ins"
    "\<And>e. e \<in> set ins \<longleftrightarrow> (\<exists>j \<in> set (edge_select s). j_dst j = k \<and> row_to_edge j = Ok e)"
    using decode_edges [OF wf, of "\<lambda>j. (j_src j, j_kind j, j_provenance j)" "\<lambda>j. j_dst j = k"]
    unfolding edges_to_def by blast
  note total = row_to_edge_Ok [OF wf]
  let ?ss = "sort_key step_order
         (map (\<lambda>e. \<lparr>st_node = e_dst e, st_hop = hop e ''outgoing'' (e_dst e)\<rparr>) outs
          @ map (\<lambda>e. \<lparr>st_node = e_src e, st_hop = hop e ''incoming'' (e_src e)\<rparr>) ins)"
  have "st \<in> set ?ss \<longleftrightarrow> hop_ok s k (st_hop st) \<and> st_node st = ph_node (st_hop st)" for st
  proof -
    have "st \<in> set ?ss \<longleftrightarrow> (\<exists>j \<in> set (edge_select s).
        j_src j = k \<and> st = \<lparr>st_node = j_dst j, st_hop = hop_of j ''outgoing'' (j_dst j)\<rparr>
        \<or> j_dst j = k \<and> st = \<lparr>st_node = j_src j, st_hop = hop_of j ''incoming'' (j_src j)\<rparr>)"
      (is "_ \<longleftrightarrow> ?R")
    proof
      assume "st \<in> set ?ss"
      then have "st \<in> (\<lambda>e. \<lparr>st_node = e_dst e, st_hop = hop e ''outgoing'' (e_dst e)\<rparr>) ` set outs
        \<union> (\<lambda>e. \<lparr>st_node = e_src e, st_hop = hop e ''incoming'' (e_src e)\<rparr>) ` set ins"
        by (simp only: set_sort set_append set_map)
      then obtain e where "e \<in> set outs \<and> st = \<lparr>st_node = e_dst e, st_hop = hop e ''outgoing'' (e_dst e)\<rparr>
        \<or> e \<in> set ins \<and> st = \<lparr>st_node = e_src e, st_hop = hop e ''incoming'' (e_src e)\<rparr>" by blast
      then obtain j where j: "j \<in> set (edge_select s)" "row_to_edge j = Ok e"
        "j_src j = k \<and> st = \<lparr>st_node = e_dst e, st_hop = hop e ''outgoing'' (e_dst e)\<rparr>
        \<or> j_dst j = k \<and> st = \<lparr>st_node = e_src e, st_hop = hop e ''incoming'' (e_src e)\<rparr>"
        unfolding o(2) i(2) by blast
      with hop_decoded [OF j(2)] show ?R by (intro bexI [of _ j]) simp_all
    next
      assume ?R
      then obtain j e where j: "j \<in> set (edge_select s)" "row_to_edge j = Ok e"
        "j_src j = k \<and> st = \<lparr>st_node = j_dst j, st_hop = hop_of j ''outgoing'' (j_dst j)\<rparr>
        \<or> j_dst j = k \<and> st = \<lparr>st_node = j_src j, st_hop = hop_of j ''incoming'' (j_src j)\<rparr>"
        using total by blast
      then have "e \<in> set outs \<and> st = \<lparr>st_node = e_dst e, st_hop = hop e ''outgoing'' (e_dst e)\<rparr>
        \<or> e \<in> set ins \<and> st = \<lparr>st_node = e_src e, st_hop = hop e ''incoming'' (e_src e)\<rparr>"
        using hop_decoded [OF j(2)] by (auto simp: o(2) i(2))
      then show "st \<in> set ?ss" by auto
    qed
    also have "\<dots> \<longleftrightarrow> hop_ok s k (st_hop st) \<and> st_node st = ph_node (st_hop st)"
      unfolding hop_of_ok [OF wf] by (cases st) (auto simp: hop_of_def)
    finally show ?thesis .
  qed
  moreover have "steps_from s k = Ok ?ss" by (simp add: steps_from_def o(1) i(1))
  ultimately show ?thesis by blast
qed


section \<open>Distance\<close>

definition conn :: "store \<Rightarrow> string \<Rightarrow> string \<Rightarrow> bool" where
  "conn s a b \<longleftrightarrow> (\<exists>n. (adj s ^^ n) a b)"

definition dist :: "store \<Rightarrow> string \<Rightarrow> string \<Rightarrow> nat" where
  "dist s a b = (LEAST n. (adj s ^^ n) a b)"

lemma dist_walk: "conn s a b \<Longrightarrow> (adj s ^^ dist s a b) a b"
  unfolding conn_def dist_def by (rule LeastI_ex)

lemma dist_le: "(adj s ^^ n) a b \<Longrightarrow> dist s a b \<le> n"
  unfolding dist_def by (rule Least_le)

lemma conn_self [simp]: "conn s a a" "dist s a a = 0"
  using dist_le [of 0 s a a] unfolding conn_def by (auto intro: exI [of _ 0])

lemma conn_step: "conn s a b \<Longrightarrow> adj s b c \<Longrightarrow> conn s a c \<and> dist s a c \<le> Suc (dist s a b)"
proof -
  assume "conn s a b" "adj s b c"
  then have "(adj s ^^ Suc (dist s a b)) a c" using dist_walk by auto
  then show ?thesis using dist_le conn_def by blast
qed

lemma dist_pred:
  assumes "conn s a b" and "dist s a b = Suc n"
  obtains u where "conn s a u" "dist s a u = n" "adj s u b"
proof -
  from dist_walk [OF assms(1)] assms(2) obtain u where u: "(adj s ^^ n) a u" "adj s u b" by auto
  then have c: "conn s a u" by (auto simp: conn_def)
  have "dist s a u = n" using dist_le [OF u(1)] conn_step [OF c u(2)] assms(2) by simp
  with that c u(2) show thesis by blast
qed

section \<open>The search\<close>

text \<open>What holds each time the queue is looked at.\<close>

definition bfs_inv :: "store \<Rightarrow> string \<Rightarrow> came \<Rightarrow> string list \<Rightarrow> bool" where
  "bfs_inv s a came queue \<longleftrightarrow>
     (let D = dom (map_of came); d = dist s a in
      a \<in> D \<and> (\<forall>k \<in> D. conn s a k)
      \<and> (\<forall>k p h. map_of came k = Some (p, h) \<longrightarrow> k \<noteq> a \<longrightarrow>
            p \<in> D \<and> hop_ok s p h \<and> ph_node h = k \<and> d k = Suc (d p))
      \<and> set queue \<subseteq> D \<and> sorted (map d queue) \<and> (\<forall>x \<in> set queue. d x \<le> Suc (d (hd queue)))
      \<and> (\<forall>k \<in> D - set queue. \<forall>b. adj s k b \<longrightarrow> b \<in> D)
      \<and> (queue \<noteq> [] \<longrightarrow> (\<forall>b. conn s a b \<longrightarrow> d b \<le> d (hd queue) \<longrightarrow> b \<in> D)))"

lemma bfs_invD:
  assumes "bfs_inv s a came queue"
  shows "a \<in> dom (map_of came)" "k \<in> dom (map_of came) \<Longrightarrow> conn s a k"
    "map_of came k = Some (p, h) \<Longrightarrow> k \<noteq> a \<Longrightarrow>
       p \<in> dom (map_of came) \<and> hop_ok s p h \<and> ph_node h = k \<and> dist s a k = Suc (dist s a p)"
    "set queue \<subseteq> dom (map_of came)" "sorted (map (dist s a) queue)"
    "x \<in> set queue \<Longrightarrow> dist s a x \<le> Suc (dist s a (hd queue))"
    "k \<in> dom (map_of came) \<Longrightarrow> k \<notin> set queue \<Longrightarrow> adj s k b \<Longrightarrow> b \<in> dom (map_of came)"
    "queue \<noteq> [] \<Longrightarrow> conn s a b \<Longrightarrow> dist s a b \<le> dist s a (hd queue) \<Longrightarrow> b \<in> dom (map_of came)"
  using assms unfolding bfs_inv_def Let_def by (blast, blast, blast, blast, blast, blast, blast, blast)

lemma dom_visit: "dom (map_of (bt_insert k v m)) = insert k (dom (map_of m))"
  by simp

lemma visit_fold:
  "foldl (visit c) (came, q) ss = (came', q') \<Longrightarrow>
     \<exists>new. q' = q @ new \<and> set new = st_node ` set ss - dom (map_of came)
       \<and> dom (map_of came') = dom (map_of came) \<union> st_node ` set ss
       \<and> (\<forall>k \<in> dom (map_of came). map_of came' k = map_of came k)
       \<and> (\<forall>k \<in> set new. \<exists>st \<in> set ss. st_node st = k \<and> map_of came' k = Some (c, st_hop st))"
proof (induction ss arbitrary: came q)
  case (Cons st ss)
  show ?case
  proof (cases "map_of came (st_node st) = None")
    case False
    with Cons.prems have "foldl (visit c) (came, q) ss = (came', q')" by (simp add: visit_def)
    from Cons.IH [OF this] obtain new where new: "q' = q @ new"
      "set new = st_node ` set ss - dom (map_of came)"
      "dom (map_of came') = dom (map_of came) \<union> st_node ` set ss"
      "\<forall>k \<in> dom (map_of came). map_of came' k = map_of came k"
      "\<forall>k \<in> set new. \<exists>st \<in> set ss. st_node st = k \<and> map_of came' k = Some (c, st_hop st)" by blast
    from False have "st_node st \<in> dom (map_of came)" by blast
    with new show ?thesis by (intro exI [of _ new]) auto
  next
    case True
    let ?came = "bt_insert (st_node st) (c, st_hop st) came"
    from Cons.prems True have "foldl (visit c) (?came, q @ [st_node st]) ss = (came', q')"
      by (simp add: visit_def)
    from Cons.IH [OF this] obtain new where new: "q' = (q @ [st_node st]) @ new"
      "set new = st_node ` set ss - dom (map_of ?came)"
      "dom (map_of came') = dom (map_of ?came) \<union> st_node ` set ss"
      "\<forall>k \<in> dom (map_of ?came). map_of came' k = map_of ?came k"
      "\<forall>k \<in> set new. \<exists>st \<in> set ss. st_node st = k \<and> map_of came' k = Some (c, st_hop st)" by blast
    have n: "st_node st \<notin> dom (map_of came)" using True by blast
    note d = dom_visit [of "st_node st" "(c, st_hop st)" came]
    have "map_of came' (st_node st) = Some (c, st_hop st)" using new(4) by simp
    moreover have "\<forall>k \<in> dom (map_of came). map_of came' k = map_of came k" using new(4) n by auto
    moreover have "set (st_node st # new) = st_node ` set (st # ss) - dom (map_of came)"
      using new(2) n unfolding d by auto
    moreover have "dom (map_of came') = dom (map_of came) \<union> st_node ` set (st # ss)"
      using new(3) unfolding d by auto
    moreover from new(5) have "\<forall>k \<in> set (st_node st # new). \<exists>x \<in> set (st # ss).
        st_node x = k \<and> map_of came' k = Some (c, st_hop x)"
      using \<open>map_of came' (st_node st) = Some (c, st_hop st)\<close> by simp
    moreover have "q' = q @ (st_node st # new)" by (simp add: new(1))
    ultimately show ?thesis by blast
  qed
qed auto

lemma bfs_inv_step:
  assumes inv: "bfs_inv s a came (c # q)"
    and st: "\<And>st. st \<in> set ss \<longleftrightarrow> hop_ok s c (st_hop st) \<and> st_node st = ph_node (st_hop st)"
    and v: "foldl (visit c) (came, q) ss = (came', q')"
  shows "bfs_inv s a came' q'"
proof -
  let ?D = "dom (map_of came)" and ?D' = "dom (map_of came')" and ?d = "dist s a"
  have a: "a \<in> ?D" by (rule bfs_invD(1) [OF inv])
  have conn: "conn s a k" if "k \<in> ?D" for k using that by (rule bfs_invD(2) [OF inv])
  have par: "p \<in> ?D \<and> hop_ok s p h \<and> ph_node h = k \<and> ?d k = Suc (?d p)"
    if "map_of came k = Some (p, h)" "k \<noteq> a" for k p h using that by (rule bfs_invD(3) [OF inv])
  have sub: "insert c (set q) \<subseteq> ?D" using bfs_invD(4) [OF inv] by (simp only: list.set)
  have srt: "sorted (map ?d (c # q))" by (rule bfs_invD(5) [OF inv])
  have q: "c \<in> ?D" "set q \<subseteq> ?D" using sub by blast+
  have q3: "sorted (map ?d q)" using srt by simp
  have q4: "?d c \<le> ?d x \<and> ?d x \<le> Suc (?d c)" if "x \<in> set q" for x
    using srt that bfs_invD(6) [OF inv, of x] by simp
  have closed: "b \<in> ?D" if "k \<in> ?D" "k \<noteq> c" "k \<notin> set q" "adj s k b" for k b
    by (rule bfs_invD(7) [OF inv that(1) _ that(4)]) (use that in simp)
  have near: "b \<in> ?D" if "conn s a b" "?d b \<le> ?d c" for b
    by (rule bfs_invD(8) [OF inv _ that(1)]) (use that in simp_all)
  obtain new where new: "q' = q @ new" "set new = st_node ` set ss - ?D"
      "?D' = ?D \<union> st_node ` set ss" "\<forall>k \<in> ?D. map_of came' k = map_of came k"
      "\<forall>k \<in> set new. \<exists>st \<in> set ss. st_node st = k \<and> map_of came' k = Some (c, st_hop st)"
    using visit_fold [OF v] by (elim exE conjE) (rule that; assumption)
  have nbrs: "st_node ` set ss = {b. adj s c b}"
  proof (intro set_eqI iffI)
    fix b
    assume "b \<in> {b. adj s c b}"
    then obtain h where h: "hop_ok s c h" "ph_node h = b" by (auto simp: adj_hop)
    then have "\<lparr>st_node = b, st_hop = h\<rparr> \<in> set ss" by (simp add: st)
    then show "b \<in> st_node ` set ss" by force
  qed (auto simp: adj_hop st)
  have D': "?D' = ?D \<union> set new" using new(2,3) by auto
  have fresh: "conn s a k \<and> ?d k = Suc (?d c)" if "k \<in> set new" for k
  proof -
    from that have "adj s c k" "k \<notin> ?D" using new(2) nbrs by auto
    with conn_step [OF conn [OF q(1)]] near [of k] show ?thesis by fastforce
  qed
  have level: "?d c \<le> ?d x \<and> ?d x \<le> Suc (?d c)" if "x \<in> set q'" for x
    using that q4 fresh by (auto simp: new(1))
  have sorted: "sorted (map ?d q')"
  proof -
    have "map ?d new = map (\<lambda>_. Suc (?d c)) new" using fresh by simp
    then have "sorted (map ?d new)" by (simp add: map_replicate_const)
    then show ?thesis using q3 q4 fresh by (auto simp: new(1) sorted_append)
  qed
  have par': "p \<in> ?D' \<and> hop_ok s p h \<and> ph_node h = k \<and> ?d k = Suc (?d p)"
    if "map_of came' k = Some (p, h)" "k \<noteq> a" for k p h
  proof (cases "k \<in> ?D")
    case True
    with that new(4) [rule_format, OF True] par [of k p h] show ?thesis by (auto simp: D')
  next
    case False
    with that(1) have "k \<in> set new" using D' by blast
    with new(5) that(1) obtain x where x: "x \<in> set ss" "st_node x = k" "p = c" "h = st_hop x" by fastforce
    then have "hop_ok s p h \<and> ph_node h = k" by (simp add: st)
    moreover have "p \<in> ?D'" unfolding D' x(3) using q(1) by (rule UnI1)
    ultimately show ?thesis using fresh [OF \<open>k \<in> set new\<close>] by (simp add: x(3))
  qed
  have closed': "b \<in> ?D'" if "k \<in> ?D' - set q'" "adj s k b" for k b
  proof (cases "k = c")
    case True
    with that(2) nbrs new(3) show ?thesis by auto
  next
    case False
    with that have "k \<in> ?D" "k \<notin> set q" by (auto simp: D' new(1))
    with closed [OF _ False _ that(2)] show ?thesis by (simp add: D')
  qed
  have near': "b \<in> ?D'" if ne: "q' \<noteq> []" and b: "conn s a b" "?d b \<le> ?d (hd q')" for b
  proof (cases "?d b \<le> ?d c")
    case True
    with near [OF b(1)] show ?thesis by (simp add: D')
  next
    case False
    have "hd q' \<in> set q'" using ne by simp
    with level False b(2) have db: "?d b = Suc (?d c)" and hd: "?d (hd q') = Suc (?d c)" by fastforce+
    from dist_pred [OF b(1) db] obtain u where u: "conn s a u" "?d u = ?d c" "adj s u b" .
    have "u \<in> ?D'" using near [OF u(1)] u(2) by (simp add: D')
    moreover have "?d (hd q') \<le> ?d x" if "x \<in> set q'" for x
      using that sorted ne by (cases q') auto
    with u(2) hd have "u \<notin> set q'" by fastforce
    ultimately show ?thesis using closed' u(3) by blast
  qed
  have "\<forall>x \<in> set q'. ?d x \<le> Suc (?d (hd q'))"
  proof
    fix x
    assume x: "x \<in> set q'"
    then have "hd q' \<in> set q'" by (cases q') auto
    with level [OF x] level show "?d x \<le> Suc (?d (hd q'))" by fastforce
  qed
  moreover have "set q' \<subseteq> ?D'" using q(2) by (auto simp: new(1) D')
  moreover have "\<forall>k \<in> ?D'. conn s a k" using conn fresh by (auto simp: D')
  moreover have "a \<in> ?D'" using a by (simp add: D')
  ultimately show ?thesis
    unfolding bfs_inv_def Let_def using par' sorted closed' near' by blast
qed


text \<open>What the search leaves: enough to walk back to the start from every node it saw, and, when the
  target is not among them, all that the start connects to.\<close>

lemma bfs_result:
  "store_wf s \<Longrightarrow> bfs_inv s a came queue \<Longrightarrow>
    \<exists>came'. bfs s b came queue = Ok came'
      \<and> (\<exists>queue'. bfs_inv s a came' queue' \<and> (map_of came' b = None \<longrightarrow> queue' = []))"
proof (induction s b came queue rule: bfs.induct)
  case (1 s target came)
  then show ?case by auto
next
  case (2 s target came current queue)
  show ?case
  proof (cases "current = target")
    case True
    have "set (current # queue) \<subseteq> dom (map_of came)" by (rule bfs_invD(4) [OF "2.prems"(2)])
    then have "map_of came target \<noteq> None" using True by auto
    then show ?thesis using True "2.prems"(2) by (auto simp del: not_None_eq)
  next
    case False
    obtain ss where ss: "steps_from s current = Ok ss"
      "\<forall>st. st \<in> set ss \<longleftrightarrow> hop_ok s current (st_hop st) \<and> st_node st = ph_node (st_hop st)"
      using steps_from_Ok [OF "2.prems"(1), of current] by blast
    obtain came1 queue1 where v: "foldl (visit current) (came, queue) ss = (came1, queue1)"
      by (cases "foldl (visit current) (came, queue) ss")
    have "bfs_inv s a came1 queue1" by (rule bfs_inv_step [OF "2.prems"(2) _ v]) (use ss(2) in blast)
    from "2.IH" [OF False ss(1) v [symmetric] "2.prems"(1) this] False show ?thesis
      by (simp add: ss(1) v)
  qed
qed

lemma bfs_start: "bfs_inv s a (bt_insert a ('''', placeholder_hop) []) [a]"
proof -
  have "b = a" if "conn s a b" "dist s a b = 0" for b using dist_walk [OF that(1)] that(2) by simp
  then show ?thesis by (auto simp: bfs_inv_def Let_def)
qed

section \<open>The walk back\<close>

fun walk :: "store \<Rightarrow> string \<Rightarrow> path_hop list \<Rightarrow> string \<Rightarrow> bool" where
  "walk s a [] b = (a = b)"
| "walk s a (h # hs) b = (hop_ok s a h \<and> walk s (ph_node h) hs b)"

lemma walk_append: "walk s a (hs @ hs') c \<longleftrightarrow> (\<exists>b. walk s a hs b \<and> walk s b hs' c)"
  by (induction hs arbitrary: a) auto

lemma backtrack_result:
  assumes inv: "bfs_inv s a came queue" and "map_of came k \<noteq> None"
  shows "\<exists>hs. backtrack came a k acc = Some (Some (hs @ rev acc)) \<and> walk s a hs k \<and> length hs = dist s a k"
  using assms(2)
proof (induction "dist s a k" arbitrary: k acc)
  case 0
  have "k = a"
  proof (rule ccontr)
    assume "k \<noteq> a"
    with 0 bfs_invD(3) [OF inv, of k] show False by auto
  qed
  then show ?case by (simp add: backtrack.simps)
next
  case (Suc n)
  then have ne: "k \<noteq> a" by auto
  from Suc.prems obtain p h where ph: "map_of came k = Some (p, h)" by auto
  from bfs_invD(3) [OF inv ph ne] Suc.hyps(2) have p: "map_of came p \<noteq> None" "hop_ok s p h" "ph_node h = k"
    "n = dist s a p" by auto
  from Suc.hyps(1) [OF p(4,1), of "acc @ [h]"] obtain hs where
    hs: "backtrack came a p (acc @ [h]) = Some (Some (hs @ rev (acc @ [h])))" "walk s a hs p"
      "length hs = dist s a p" by blast
  have "backtrack came a k acc = Some (Some ((hs @ [h]) @ rev acc))"
    using hs(1) ne ph by (subst backtrack.simps) simp
  moreover have "walk s a (hs @ [h]) k" using hs(2) p(2,3) by (auto simp: walk_append)
  ultimately show ?case using hs(3) p(4) Suc.hyps(2) by (intro exI [of _ "hs @ [h]"]) simp
qed

lemma closed_connected:
  assumes inv: "bfs_inv s a came []" and "conn s a b"
  shows "map_of came b \<noteq> None"
proof -
  have "b \<in> dom (map_of came)" if "(adj s ^^ n) a b" for n
    using that
  proof (induction n arbitrary: b)
    case 0
    then show ?case using bfs_invD(1) [OF inv] by simp
  next
    case (Suc n)
    then obtain u where u: "(adj s ^^ n) a u" "adj s u b" by auto
    show ?case by (rule bfs_invD(7) [OF inv Suc.IH [OF u(1)] _ u(2)]) simp
  qed
  with assms(2) have "b \<in> dom (map_of came)" unfolding conn_def by blast
  then show ?thesis by blast
qed

lemma walk_adj: "walk s a hs b \<Longrightarrow> (adj s ^^ length hs) a b"
proof (induction hs arbitrary: a)
  case (Cons h hs)
  then have "adj s a (ph_node h)" unfolding adj_hop by auto
  moreover have "(adj s ^^ length hs) (ph_node h) b" using Cons by simp
  ultimately show ?case by (metis list.size(4) add.right_neutral add_Suc_right relpowp_Suc_I2)
qed simp

lemma get_node_total:
  assumes wf: "store_wf s"
  shows "node_map s k = None \<Longrightarrow> get_node s k = Ok None"
    and "node_map s k \<noteq> None \<Longrightarrow> \<exists>n. get_node s k = Ok (Some n)"
proof -
  show "node_map s k = None \<Longrightarrow> get_node s k = Ok None"
    by (simp add: get_node_def node_map_def)
  assume "node_map s k \<noteq> None"
  then obtain r where r: "List.find (\<lambda>r. nr_key r = k) (nodes_t s) = Some r"
    by (auto simp: node_map_def)
  then have "row_ok r" using store_wfD(7) [OF wf] find_SomeD by metis
  then obtain n where "row_to_node r = Ok n" by (rule row_ok_decode)
  then show "\<exists>n. get_node s k = Ok (Some n)" by (simp add: get_node_def r)
qed

section \<open>Properties\<close>

text \<open>C2. On every store the operations reach, the path query answers: it finds a path exactly when both
  nodes are stored and connected by edges taken in either direction, what it returns is a walk over edges
  of the store, hop by hop from the first node to the second, with each hop's kind, provenance and
  confidence, and no walk between the two is shorter.\<close>

theorem path_shortest:
  assumes "reachable s"
  shows "\<exists>r. path s a b = Some (Ok r) \<and> pr_from r = a \<and> pr_to r = b \<and> pr_length r = length (pr_hops r)
    \<and> pr_found r = (node_map s a \<noteq> None \<and> node_map s b \<noteq> None \<and> conn s a b)
    \<and> (if pr_found r then walk s a (pr_hops r) b \<and> (\<forall>hs. walk s a hs b \<longrightarrow> pr_length r \<le> length hs)
       else pr_hops r = [])"
proof -
  have wf: "store_wf s" using reachable_inv [OF assms] by blast
  consider "node_map s a = None \<or> node_map s b = None" | "node_map s a \<noteq> None" "node_map s b \<noteq> None" "a = b"
    | "node_map s a \<noteq> None" "node_map s b \<noteq> None" "a \<noteq> b" by blast
  then show ?thesis
  proof cases
    case 1
    then have "path s a b = Some (Ok (path_report a b False []))"
      using get_node_total [OF wf, of a] get_node_total [OF wf, of b]
      by (cases "node_map s a") (auto simp: path_def)
    with 1 show ?thesis by (auto simp: path_report_def)
  next
    case 2
    then have "path s a b = Some (Ok (path_report a b True []))"
      using get_node_total(2) [OF wf, of b] by (auto simp: path_def)
    with 2 show ?thesis by (simp add: path_report_def)
  next
    case 3
    from bfs_result [OF wf bfs_start, of b a] obtain came queue where
      c: "bfs s b (bt_insert a ('''', placeholder_hop) []) [a] = Ok came"
      and inv: "bfs_inv s a came queue" and stop: "map_of came b = None \<longrightarrow> queue = []"
      by (elim exE conjE) (rule that; assumption)
    have p: "path s a b = map_option (\<lambda>r. case r of None \<Rightarrow> Ok (path_report a b False [])
        | Some hops \<Rightarrow> Ok (path_report a b True hops)) (backtrack came a b [])"
      using 3 get_node_total(2) [OF wf, of a] get_node_total(2) [OF wf, of b] c by (auto simp: path_def)
    show ?thesis
    proof (cases "map_of came b")
      case None
      with stop inv closed_connected [of s a came b] have "\<not> conn s a b" by auto
      moreover have "backtrack came a b [] = Some None" using None 3 by (subst backtrack.simps) simp
      ultimately show ?thesis by (simp add: p path_report_def)
    next
      case (Some v)
      then obtain hs where hs: "backtrack came a b [] = Some (Some hs)" "walk s a hs b" "length hs = dist s a b"
        using backtrack_result [OF inv, of b "[]"] by auto
      have "conn s a b" using walk_adj [OF hs(2)] by (auto simp: conn_def)
      with 3 hs dist_le [OF walk_adj] show ?thesis by (auto simp: p path_report_def)
    qed
  qed
qed

definition demo_graph :: store where
  "demo_graph = (case apply_factset demo_store
      \<lparr>fs_nodes = [], fs_edges = [edge_derived ''a'' ''b'' ECalls, edge_derived ''c'' ''b'' EContains]\<rparr> of
        Ok s \<Rightarrow> s | Err _ \<Rightarrow> demo_store)"

lemma demo_graph_reachable: "reachable demo_graph"
  unfolding demo_graph_def
  by (split sum.split) (auto intro: reachable.applied demo_reachable)

theorem path_shortest_witness:
  "\<exists>r. path demo_graph ''a'' ''c'' = Some (Ok r) \<and> pr_found r \<and> walk demo_graph ''a'' (pr_hops r) ''c''"
proof -
  have e1: "edge_map demo_graph (''a'', ''b'', ''calls'', ''derived'') \<noteq> None"
    and e2: "edge_map demo_graph (''c'', ''b'', ''contains'', ''derived'') \<noteq> None"
    and n: "node_map demo_graph ''a'' \<noteq> None" "node_map demo_graph ''c'' \<noteq> None" by code_simp+
  then have "adj demo_graph ''a'' ''b''" "adj demo_graph ''b'' ''c''" unfolding adj_def by blast+
  then have "conn demo_graph ''a'' ''c''" using conn_step conn_self(1) by blast
  with n path_shortest [OF demo_graph_reachable, of "''a''" "''c''"] show ?thesis by auto
qed

end
