(* ===== verification/QueryProps.thy ===== *)
theory QueryProps imports Complex_Main Sorting PathQuery begin

text \<open>
  What the reports of \<open>Query\<close> count, in which order they list it, and what they leave out.
\<close>

section \<open>Search snippets\<close>

fun join_space :: "string list list \<Rightarrow> string list" where
  "join_space [] = []"
| "join_space [w] = w"
| "join_space (w # ws) = w @ '' '' # join_space ws"

fun spaced :: "string list \<Rightarrow> bool \<Rightarrow> bool \<Rightarrow> string list" where
  "spaced [] pending started = []"
| "spaced (c # cs) pending started =
     (if is_whitespace c then spaced cs started started
      else (if pending then ['' '', c] else [c]) @ spaced cs False True)"

lemma join_space_Cons: "join_space (w # ws) = w @ (if ws = [] then [] else '' '' # join_space ws)"
  by (cases ws) simp_all

lemma spaced_words:
  "join_space (words_of cs []) = spaced cs False False
   \<and> (\<forall>acc. acc \<noteq> [] \<longrightarrow> join_space (words_of cs acc) = rev acc @ spaced cs False True)
   \<and> (if words_of cs [] = [] then [] else '' '' # join_space (words_of cs [])) = spaced cs True True"
proof (induction cs)
  case (Cons c cs)
  have ne: "acc \<noteq> [] \<Longrightarrow> words_of cs acc \<noteq> []" for cs acc
    by (induction cs arbitrary: acc) auto
  show ?case
  proof (cases "is_whitespace c")
    case True
    with Cons show ?thesis by (auto simp: join_space_Cons)
  next
    case False
    with Cons ne [of "[c]" cs] show ?thesis by simp
  qed
qed simp

lemma collapse_spaced:
  "length acc \<le> SNIPPET_MAX \<Longrightarrow> (pending \<longrightarrow> acc \<noteq> []) \<Longrightarrow>
     collapse cs acc pending = take (Suc SNIPPET_MAX) (acc @ spaced cs pending (acc \<noteq> []))"
proof (induction cs arbitrary: acc pending)
  case Nil
  then show ?case by simp
next
  case (Cons c cs)
  show ?case
  proof (cases "is_whitespace c")
    case True
    with Cons.IH [of acc "acc \<noteq> []"] Cons.prems show ?thesis by simp
  next
    case False
    let ?acc = "if pending then acc @ ['' ''] else acc"
    have r: "acc @ spaced (c # cs) pending (acc \<noteq> []) = ?acc @ c # spaced cs False True"
      using False by simp
    consider "SNIPPET_MAX < length ?acc" | "length ?acc = SNIPPET_MAX" | "length ?acc < SNIPPET_MAX" by linarith
    then show ?thesis
    proof cases
      case 1
      then have "pending" "length ?acc = Suc SNIPPET_MAX" using Cons.prems by (auto split: if_splits)
      with False 1 show ?thesis unfolding r by simp
    next
      case 2
      then have "collapse (c # cs) acc pending = ?acc @ [c]" using False by (auto simp: Let_def)
      then show ?thesis unfolding r using 2 by simp
    next
      case 3
      then have "collapse (c # cs) acc pending = collapse cs (?acc @ [c]) False"
        using False by (auto simp: Let_def)
      then show ?thesis unfolding r using Cons.IH [of "?acc @ [c]" False] 3 by simp
    qed
  qed
qed

section \<open>Counting calls\<close>

definition ordinary_calls :: "edge list \<Rightarrow> edge list" where
  "ordinary_calls es = filter (\<lambda>e. e_kind e = ECalls \<and> e_src e \<noteq> e_dst e \<and> same_language (e_src e) (e_dst e)) es"

definition callers :: "edge list \<Rightarrow> string \<Rightarrow> string set" where
  "callers es k = {e_src e | e. e \<in> set (ordinary_calls es) \<and> e_dst e = k}"

definition callees :: "edge list \<Rightarrow> string \<Rightarrow> string set" where
  "callees es k = {e_dst e | e. e \<in> set (ordinary_calls es) \<and> e_src e = k}"

lemma set_set_insert [simp]: "set (set_insert x xs) = insert x (set xs)"
  by (auto simp: set_insert_def set_insort_key)

lemma distinct_set_insert [simp]: "distinct xs \<Longrightarrow> distinct (set_insert x xs)"
  by (simp add: set_insert_def distinct_insort)

definition self_calls :: "edge list \<Rightarrow> edge list" where
  "self_calls es = filter (\<lambda>e. e_kind e = ECalls \<and> e_src e = e_dst e) es"

definition cross_calls :: "edge list \<Rightarrow> edge list" where
  "cross_calls es = filter (\<lambda>e. e_kind e = ECalls \<and> e_src e \<noteq> e_dst e \<and> \<not> same_language (e_src e) (e_dst e)) es"

lemma calls_split:
  "length (self_calls es) + length (cross_calls es) + length (ordinary_calls es)
     = length (filter (\<lambda>e. e_kind e = ECalls) es)"
  by (induction es) (auto simp: self_calls_def cross_calls_def ordinary_calls_def)

definition sets_ok :: "key_sets \<Rightarrow> (string \<Rightarrow> string set) \<Rightarrow> bool" where
  "sets_ok m f \<longleftrightarrow> (\<forall>k. map_of m k = None \<longrightarrow> f k = {})
     \<and> (\<forall>k xs. map_of m k = Some xs \<longrightarrow> distinct xs \<and> set xs = f k \<and> f k \<noteq> {})"

lemma sets_okD:
  assumes "sets_ok m f"
  shows "map_of m k = Some xs \<Longrightarrow> distinct xs \<and> set xs = f k \<and> f k \<noteq> {}"
    and "map_of m k = None \<Longrightarrow> f k = {}"
  using assms unfolding sets_ok_def by blast+

lemma sets_ok_adjust:
  assumes "sets_ok m f"
  shows "sets_ok (bt_adjust [] (set_insert x) k m) (f(k := insert x (f k)))"
proof -
  let ?v = "set_insert x (case map_of m k of None \<Rightarrow> [] | Some v \<Rightarrow> v)"
  have "distinct (case map_of m k of None \<Rightarrow> [] | Some v \<Rightarrow> v)
      \<and> set (case map_of m k of None \<Rightarrow> [] | Some v \<Rightarrow> v) = f k"
  proof (cases "map_of m k")
    case None
    with sets_okD(2) [OF assms None] show ?thesis by simp
  next
    case (Some v)
    with sets_okD(1) [OF assms Some] show ?thesis by simp
  qed
  then have v: "distinct ?v" "set ?v = insert x (f k)" by simp_all
  have m: "map_of (bt_adjust [] (set_insert x) k m) = (map_of m)(k \<mapsto> ?v)" by (simp add: bt_adjust_def)
  show ?thesis unfolding sets_ok_def m
  proof (intro conjI allI impI)
    fix j
    assume "((map_of m)(k \<mapsto> ?v)) j = None"
    then have "j \<noteq> k" "map_of m j = None" by (auto split: if_splits)
    with sets_okD(2) [OF assms this(2)] show "(f(k := insert x (f k))) j = {}" by simp
  next
    fix j xs
    assume a: "((map_of m)(k \<mapsto> ?v)) j = Some xs"
    have "distinct xs \<and> set xs = (f(k := insert x (f k))) j \<and> (f(k := insert x (f k))) j \<noteq> {}"
    proof (cases "j = k")
      case True
      with a v show ?thesis by auto
    next
      case False
      with a have "map_of m j = Some xs" by simp
      from sets_okD(1) [OF assms this] False show ?thesis by simp
    qed
    then show "distinct xs" "set xs = (f(k := insert x (f k))) j" "(f(k := insert x (f k))) j \<noteq> {}" by blast+
  qed
qed

lemma sets_ok_count: "sets_ok m f \<Longrightarrow> count_of m k = u32_clamp (card (f k))"
proof (cases "map_of m k")
  case (Some xs)
  assume "sets_ok m f"
  from sets_okD(1) [OF this Some] have "length xs = card (f k)" using distinct_card by metis
  with Some show ?thesis by (simp add: count_of_def)
next
  case None
  assume "sets_ok m f"
  from sets_okD(2) [OF this None] None show ?thesis by (simp add: count_of_def u32_clamp_def u32_try_def)
qed

lemma sets_ok_keys:
  assumes "sets_ok m f"
  shows "set (map fst m) = {k. f k \<noteq> {}}"
proof (intro set_eqI iffI)
  fix k
  assume "k \<in> set (map fst m)"
  then obtain xs where "map_of m k = Some xs" by (metis list.set_map map_of_eq_None_iff not_None_eq)
  from sets_okD(1) [OF assms this] show "k \<in> {k. f k \<noteq> {}}" by simp
next
  fix k
  assume "k \<in> {k. f k \<noteq> {}}"
  then have "map_of m k \<noteq> None" using sets_okD(2) [OF assms] by blast
  then show "k \<in> set (map fst m)" by (simp add: map_of_eq_None_iff)
qed

lemma callers_snoc:
  "callers (es @ [e]) = (if ordinary_calls [e] = [] then callers es
     else (callers es)(e_dst e := insert (e_src e) (callers es (e_dst e))))"
  "callees (es @ [e]) = (if ordinary_calls [e] = [] then callees es
     else (callees es)(e_src e := insert (e_dst e) (callees es (e_src e))))"
  by (auto simp: fun_eq_iff callers_def callees_def ordinary_calls_def)

lemma coupling_scan:
  "sets_ok (cs_inbound (coupling_scan_edges es)) (callers es)
   \<and> sets_ok (cs_outbound (coupling_scan_edges es)) (callees es)
   \<and> cs_calls (coupling_scan_edges es) = length (filter (\<lambda>e. e_kind e = ECalls) es)
   \<and> cs_self (coupling_scan_edges es) = length (self_calls es)
   \<and> cs_cross (coupling_scan_edges es) = length (cross_calls es)"
proof (induction es rule: rev_induct)
  case Nil
  then show ?case by (simp add: coupling_scan_edges_def sets_ok_def callers_def callees_def ordinary_calls_def
      self_calls_def cross_calls_def)
next
  case (snoc e es)
  have s: "coupling_scan_edges (es @ [e]) = coupling_step (coupling_scan_edges es) e"
    by (simp add: coupling_scan_edges_def)
  have o': "ordinary_calls (es @ [e]) = ordinary_calls es @ ordinary_calls [e]"
    by (simp add: ordinary_calls_def)
  show ?case
  proof (cases "ordinary_calls [e] = []")
    case True
    then have "\<not> (e_kind e = ECalls \<and> e_src e \<noteq> e_dst e \<and> same_language (e_src e) (e_dst e))"
      by (simp add: ordinary_calls_def split: if_splits)
    with snoc True show ?thesis unfolding s o' callers_snoc
      by (auto simp: coupling_step_def Let_def self_calls_def cross_calls_def)
  next
    case False
    then have "e_kind e = ECalls" "e_src e \<noteq> e_dst e" "same_language (e_src e) (e_dst e)"
      "length (ordinary_calls [e]) = 1"
      by (simp_all add: ordinary_calls_def split: if_splits)
    with snoc False show ?thesis unfolding s o' callers_snoc
      using sets_ok_adjust [of _ "callers es" "e_src e" "e_dst e"] sets_ok_adjust [of _ "callees es" "e_dst e" "e_src e"]
      by (simp add: coupling_step_def Let_def fun_upd_def self_calls_def cross_calls_def)
  qed
qed

lemma try_fold_items:
  "try_fold (coupling_item_step instab s) acc ranked = Ok items \<Longrightarrow>
     \<exists>new. items = acc @ new
       \<and> (\<forall>i \<in> set new. (ci_fan_in i, ci_fan_out i, ci_key i) \<in> set ranked \<and> ci_total i = ci_fan_in i + ci_fan_out i)
       \<and> map ci_key new = filter (\<lambda>k. get_node s k \<noteq> Ok None) (map (\<lambda>r. snd (snd r)) ranked)"
proof (induction ranked arbitrary: acc)
  case (Cons r ranked)
  obtain fi fo k where r: "r = (fi, fo, k)" by (cases r)
  from Cons.prems obtain acc1 where step: "coupling_item_step instab s acc r = Ok acc1"
    and rest: "try_fold (coupling_item_step instab s) acc1 ranked = Ok items"
    by (auto simp: and_then_eq_Ok)
  from step obtain g where g: "get_node s k = Ok g"
    and acc1: "acc1 = (case g of None \<Rightarrow> acc | Some n \<Rightarrow> acc @ [coupling_item_of instab fi fo n])"
    by (auto simp: r coupling_item_step_def and_then_eq_Ok split: option.splits)
  from Cons.IH [OF rest] obtain new where new: "items = acc1 @ new"
      "\<forall>i \<in> set new. (ci_fan_in i, ci_fan_out i, ci_key i) \<in> set ranked \<and> ci_total i = ci_fan_in i + ci_fan_out i"
      "map ci_key new = filter (\<lambda>k. get_node s k \<noteq> Ok None) (map (\<lambda>r. snd (snd r)) ranked)"
    by blast
  show ?case
  proof (cases g)
    case None
    with new acc1 g show ?thesis by (intro exI [of _ new]) (auto simp: r comp_def)
  next
    case (Some n)
    have k: "n_key n = k"
      using g Some row_to_node_key by (auto simp: get_node_def and_then_eq_Ok split: option.splits dest!: find_SomeD)
    let ?i = "coupling_item_of instab fi fo n"
    have i: "(ci_fan_in ?i, ci_fan_out ?i, ci_key ?i) = r" "ci_total ?i = ci_fan_in ?i + ci_fan_out ?i"
      by (simp_all add: coupling_item_of_def r k)
    have "map ci_key (?i # new) = filter (\<lambda>k. get_node s k \<noteq> Ok None) (map (\<lambda>r. snd (snd r)) (r # ranked))"
      using new(3) g Some i by (auto simp: r)
    then show ?thesis using new(1,2) acc1 Some i by (intro exI [of _ "?i # new"]) auto
  qed
qed simp

lemma lex_le_total:
  fixes m :: "'a \<Rightarrow> 'b::linorder" and k :: "'a \<Rightarrow> 'c::linorder"
  assumes le: "\<And>a b. a \<in> A \<Longrightarrow> b \<in> A \<Longrightarrow> le a b \<longleftrightarrow> m b < m a \<or> (m a = m b \<and> k a \<le> k b)"
  shows "total_on_list le A"
  unfolding total_on_list_def
proof (intro conjI ballI impI)
  fix a b
  assume "a \<in> A" "b \<in> A"
  then show "le a b \<or> le b a"
    using linorder_less_linear [of "m a" "m b"] linear [of "k a" "k b"] by (auto simp: le)
next
  fix a b c
  assume A: "a \<in> A" "b \<in> A" "c \<in> A" and "le a b" "le b c"
  then show "le a c" unfolding le [OF A(1,2)] le [OF A(2,3)] le [OF A(1,3)] by (elim disjE conjE) auto
qed

lemma coupling_le_total: "total_on_list (coupling_le order) A"
  by (rule lex_le_total [where m = "coupling_metric order" and k = "snd \<circ> snd"]) (simp add: coupling_le_def)

text \<open>The number a node is ranked by, from the sets of its callers and callees.\<close>

definition coupling_rank :: "coupling_order \<Rightarrow> edge list \<Rightarrow> string \<Rightarrow> u32" where
  "coupling_rank order es k = (case order of
       CTotal \<Rightarrow> u32_clamp (card (callers es k)) + u32_clamp (card (callees es k))
     | CFanIn \<Rightarrow> u32_clamp (card (callers es k))
     | CFanOut \<Rightarrow> u32_clamp (card (callees es k)))"

text \<open>The keys the report ranks: every end of an ordinary call once, in order.\<close>

lemma coupling_ranked_keys:
  fixes order es
  defines "ks \<equiv> map (\<lambda>r. snd (snd r)) (coupling_ranked order (coupling_scan_edges es))"
  shows "distinct ks" and "set ks = e_src ` set (ordinary_calls es) \<union> e_dst ` set (ordinary_calls es)"
    and "sorted_wrt (\<lambda>a b. coupling_rank order es b < coupling_rank order es a
           \<or> coupling_rank order es a = coupling_rank order es b \<and> a \<le> b) ks"
    and "(fi, fo, k) \<in> set (coupling_ranked order (coupling_scan_edges es)) \<Longrightarrow>
           fi = u32_clamp (card (callers es k)) \<and> fo = u32_clamp (card (callees es k))"
proof -
  let ?c = "coupling_scan_edges es"
  let ?r = "coupling_ranked order ?c"
  note sc = coupling_scan [of es]
  show counts: "fi = u32_clamp (card (callers es k)) \<and> fo = u32_clamp (card (callees es k))"
    if "(fi, fo, k) \<in> set ?r" for fi fo k
    using that sc by (auto simp: coupling_ranked_def sets_ok_count)
  have "mset ks = mset (sort (remdups (map fst (cs_inbound ?c) @ map fst (cs_outbound ?c))))"
    unfolding ks_def coupling_ranked_def mset_map mset_sort_by by (simp flip: mset_map add: comp_def)
  then have m: "mset ks = mset (remdups (map fst (cs_inbound ?c) @ map fst (cs_outbound ?c)))" by simp
  then show "distinct ks" by (metis distinct_remdups mset_eq_imp_distinct_iff)
  have "set ks = set (map fst (cs_inbound ?c)) \<union> set (map fst (cs_outbound ?c))"
    using mset_eq_setD [OF m] by simp
  also have "\<dots> = {k. callers es k \<noteq> {}} \<union> {k. callees es k \<noteq> {}}"
    by (simp only: sets_ok_keys [OF conjunct1 [OF sc]] sets_ok_keys [OF conjunct1 [OF conjunct2 [OF sc]]])
  also have "\<dots> = e_src ` set (ordinary_calls es) \<union> e_dst ` set (ordinary_calls es)"
    by (auto simp: callers_def callees_def)
  finally show "set ks = e_src ` set (ordinary_calls es) \<union> e_dst ` set (ordinary_calls es)" .
  have "sorted_wrt (coupling_le order) ?r"
    unfolding coupling_ranked_def by (intro sorted_sort_by coupling_le_total)
  then show "sorted_wrt (\<lambda>a b. coupling_rank order es b < coupling_rank order es a
           \<or> coupling_rank order es a = coupling_rank order es b \<and> a \<le> b) ks"
    unfolding ks_def sorted_wrt_map
  proof (rule sorted_wrt_mono_rel [rotated])
    fix a b
    assume "a \<in> set ?r" "b \<in> set ?r" "coupling_le order a b"
    moreover have "coupling_metric order x = coupling_rank order es (snd (snd x))" if "x \<in> set ?r" for x
    proof -
      obtain fi fo k where x: "x = (fi, fo, k)" by (rule prod_cases3)
      from counts [of fi fo k] that show ?thesis by (cases order) (simp_all add: x coupling_metric_def coupling_rank_def)
    qed
    ultimately show "coupling_rank order es (snd (snd b)) < coupling_rank order es (snd (snd a))
        \<or> coupling_rank order es (snd (snd a)) = coupling_rank order es (snd (snd b))
          \<and> snd (snd a) \<le> snd (snd b)"
      by (simp add: coupling_le_def)
  qed
qed

text \<open>C11. The coupling report counts what it says. The self calls are the calls from a node to itself, the
  cross-language calls those between two different nodes of different languages, and with the ordinary ones
  they are all the calls. The coupled nodes are the ends of ordinary calls. The listed nodes are the first
  \<open>limit\<close> of them (all of them for 0) by the chosen metric, highest first, the key breaking ties, less those
  that are not nodes of the store; each with its fan-in and fan-out, the numbers of distinct other nodes that
  call it and that it calls in the same language.\<close>

theorem coupling_counts:
  assumes "all_edges s = Ok es" and "coupling instab s order limit = Ok r"
  shows "cr_call_edges r = length (filter (\<lambda>e. e_kind e = ECalls) es)
    \<and> cr_self_calls r = length (filter (\<lambda>e. e_kind e = ECalls \<and> e_src e = e_dst e) es)
    \<and> cr_cross_language_calls r = length (filter (\<lambda>e. e_kind e = ECalls \<and> e_src e \<noteq> e_dst e
          \<and> \<not> same_language (e_src e) (e_dst e)) es)
    \<and> cr_self_calls r + cr_cross_language_calls r + length (ordinary_calls es) = cr_call_edges r
    \<and> cr_coupled_nodes r = card (e_src ` set (ordinary_calls es) \<union> e_dst ` set (ordinary_calls es))
    \<and> (\<forall>i \<in> set (cr_items r). ci_fan_in i = u32_clamp (card (callers es (ci_key i)))
          \<and> ci_fan_out i = u32_clamp (card (callees es (ci_key i))) \<and> ci_total i = ci_fan_in i + ci_fan_out i)
    \<and> (\<exists>ks. distinct ks \<and> set ks = e_src ` set (ordinary_calls es) \<union> e_dst ` set (ordinary_calls es)
          \<and> sorted_wrt (\<lambda>a b. coupling_rank order es b < coupling_rank order es a
              \<or> coupling_rank order es a = coupling_rank order es b \<and> a \<le> b) ks
          \<and> map ci_key (cr_items r)
              = filter (\<lambda>k. get_node s k \<noteq> Ok None) (if 0 < limit then take limit ks else ks))"
proof -
  let ?c = "coupling_scan_edges es"
  let ?ranked = "coupling_ranked order ?c"
  let ?ks = "map (\<lambda>r. snd (snd r)) ?ranked"
  note sc = coupling_scan [of es] and ks = coupling_ranked_keys [where order = order and es = es]
  from assms(2) obtain items where it: "try_fold (coupling_item_step instab s) [] (window ?ranked 0 limit) = Ok items"
    and r: "cr_items r = items" "cr_coupled_nodes r = length ?ranked" "cr_call_edges r = cs_calls ?c"
      "cr_self_calls r = cs_self ?c" "cr_cross_language_calls r = cs_cross ?c"
    unfolding coupling_def assms(1) and_then_simps Let_def and_then_eq_Ok by (elim exE conjE) (rule that, auto)
  from try_fold_items [OF it] have items:
    "\<forall>i \<in> set items. (ci_fan_in i, ci_fan_out i, ci_key i) \<in> set (window ?ranked 0 limit) \<and> ci_total i = ci_fan_in i + ci_fan_out i"
    "map ci_key items = filter (\<lambda>k. get_node s k \<noteq> Ok None) (map (\<lambda>r. snd (snd r)) (window ?ranked 0 limit))"
    by auto
  from items(1) set_window [of ?ranked 0 limit] ks(4) have counts:
    "\<forall>i \<in> set items. ci_fan_in i = u32_clamp (card (callers es (ci_key i)))
          \<and> ci_fan_out i = u32_clamp (card (callees es (ci_key i))) \<and> ci_total i = ci_fan_in i + ci_fan_out i"
    by blast
  have "length ?ranked = card (set ?ks)" using distinct_card [OF ks(1)] by simp
  then have n: "length ?ranked = card (e_src ` set (ordinary_calls es) \<union> e_dst ` set (ordinary_calls es))"
    unfolding ks(2) .
  have "map (\<lambda>r. snd (snd r)) (window ?ranked 0 limit) = (if 0 < limit then take limit ?ks else ?ks)"
    by (simp add: window_take take_map)
  with items(2) have "map ci_key (cr_items r)
      = filter (\<lambda>k. get_node s k \<noteq> Ok None) (if 0 < limit then take limit ?ks else ?ks)" by (simp add: r)
  with ks(1-3) have "\<exists>ks. distinct ks \<and> set ks = e_src ` set (ordinary_calls es) \<union> e_dst ` set (ordinary_calls es)
          \<and> sorted_wrt (\<lambda>a b. coupling_rank order es b < coupling_rank order es a
              \<or> coupling_rank order es a = coupling_rank order es b \<and> a \<le> b) ks
          \<and> map ci_key (cr_items r)
              = filter (\<lambda>k. get_node s k \<noteq> Ok None) (if 0 < limit then take limit ks else ks)"
    by blast
  with sc counts n calls_split [of es] show ?thesis
    by (simp only: r) (simp add: self_calls_def cross_calls_def)
qed

section \<open>Debt\<close>

lemma sum_bt_insert:
  "bt_wf m \<Longrightarrow> sum_list (map snd (bt_insert k (v::nat) m)) + (case map_of m k of None \<Rightarrow> 0 | Some w \<Rightarrow> w)
     = v + sum_list (map snd m)"
proof (induction k v m rule: bt_insert.induct)
  case (2 k v k' v' m)
  have "map_of m k = None" if "k \<le> k'"
  proof -
    have "k \<noteq> x" if "x \<in> fst ` set m" for x using that \<open>k \<le> k'\<close> "2.prems" by (auto simp: bt_wf_def)
    then show ?thesis by (auto simp: map_of_eq_None_iff)
  qed
  with 2 show ?case by (auto simp: bt_wf_def)
qed simp

lemma sum_bt_count: "bt_wf m \<Longrightarrow> sum_list (map snd (bt_adjust 0 Suc k m)) = Suc (sum_list (map snd m))"
  using sum_bt_insert [of m k "Suc (case map_of m k of None \<Rightarrow> 0 | Some v \<Rightarrow> v)"] by (simp add: bt_adjust_def)

definition counted :: "('k::linorder, nat) btree \<Rightarrow> 'k \<Rightarrow> nat" where
  "counted m k = (case map_of m k of None \<Rightarrow> 0 | Some n \<Rightarrow> n)"

lemma counted_adjust: "counted (bt_adjust 0 Suc k m) j = (if j = k then Suc (counted m k) else counted m j)"
  by (simp add: counted_def bt_adjust_def)

text \<open>The item of a marker, and whether the filters keep the marker.\<close>

definition marker_category :: "node \<Rightarrow> string" where
  "marker_category n = (case meta_str n ''category'' of Some c \<Rightarrow> c | None \<Rightarrow> ''other'')"

definition marker_item :: "node \<Rightarrow> debt_item" where
  "marker_item n = \<lparr>di_key = n_key n, di_category = marker_category n,
     di_text = (case meta_str n ''text'' of Some t \<Rightarrow> t | None \<Rightarrow> n_name n),
     di_path = n_path n, di_line = meta_u32 n ''line''\<rparr>"

definition marker_kept :: "string list \<Rightarrow> string list \<Rightarrow> node \<Rightarrow> bool" where
  "marker_kept categories ignored n \<longleftrightarrow>
     (categories = [] \<or> marker_category n \<in> set categories)
     \<and> (\<forall>q. n_path n = Some q \<longrightarrow> (\<forall>g \<in> set ignored. \<not> glob_match g q))"

lemma debt_step_kept:
  "debt_step categories ignored (items, m) n =
     (if marker_kept categories ignored n then (items @ [marker_item n], bt_adjust 0 Suc (marker_category n) m)
      else (items, m))"
  by (auto simp: debt_step_def Let_def marker_kept_def marker_item_def marker_category_def or_else_def list_ex_iff
      split: option.splits)

lemma debt_scan:
  assumes "foldl (debt_step categories ignored) ([], []) nodes = (items, m)"
  shows "items = map marker_item (filter (marker_kept categories ignored) nodes) \<and> bt_wf m
    \<and> sum_list (map snd m) = length items \<and> (\<forall>c. counted m c = length (filter (\<lambda>i. di_category i = c) items))"
  using assms
proof (induction nodes arbitrary: items m rule: rev_induct)
  case Nil
  then show ?case by (auto simp: counted_def)
next
  case (snoc n nodes)
  obtain items' m' where f: "foldl (debt_step categories ignored) ([], []) nodes = (items', m')"
    by (cases "foldl (debt_step categories ignored) ([], []) nodes")
  have c: "di_category (marker_item n) = marker_category n" by (simp add: marker_item_def)
  from snoc.IH [OF f] snoc.prems show ?case
    by (cases "marker_kept categories ignored n")
      (auto simp: f debt_step_kept sum_bt_count counted_adjust bt_adjust_wf c)
qed

lemma length_filter_sort_key: "length (filter P (sort_key f xs)) = length (filter P xs)"
  by (metis mset_filter mset_sort size_mset)

text \<open>C12. The debt inventory lists exactly the markers its filters keep: those in an asked-for category (in
  any, when none is asked for; a marker without a category is \<open>other\<close>) whose path, if they have one, matches no
  ignored glob; each once, as its key, category, text (its name when it has none), path and line, in the order
  of path, line and key. The total and the per-category counts are those of the items.\<close>

theorem debt_counts:
  assumes "debt s categories ignored = Ok r"
  shows "\<exists>nodes. nodes_by_kind s KMarker = Ok nodes
    \<and> mset (dr_items r) = image_mset marker_item (filter_mset (marker_kept categories ignored) (mset nodes))
    \<and> sorted (map (\<lambda>i. (di_path i, di_line i, di_key i)) (dr_items r))
    \<and> dr_total r = length (dr_items r) \<and> sum_list (map snd (dr_by_category r)) = dr_total r
    \<and> (\<forall>c. counted (dr_by_category r) c = length (filter (\<lambda>i. di_category i = c) (dr_items r)))"
proof -
  from assms obtain nodes where n: "nodes_by_kind s KMarker = Ok nodes"
    by (auto simp: debt_def and_then_eq_Ok)
  obtain items m where f: "foldl (debt_step categories ignored) ([], []) nodes = (items, m)"
    by (cases "foldl (debt_step categories ignored) ([], []) nodes")
  from assms have r: "r = \<lparr>dr_total = length items, dr_by_category = m,
                 dr_items = sort_key (\<lambda>i. (di_path i, di_line i, di_key i)) items\<rparr>"
    by (simp add: debt_def n f Let_def)
  from debt_scan [OF f] n show ?thesis
    by (intro exI [of _ nodes]) (simp add: r length_filter_sort_key flip: mset_filter)
qed

section \<open>Debt density\<close>







section \<open>Secrets\<close>

text \<open>Two nodes that differ at most in which unredacted value they hold.\<close>

definition value_blind :: "node \<Rightarrow> node \<Rightarrow> bool" where
  "value_blind m n \<longleftrightarrow> n_key m = n_key n \<and> n_name m = n_name n \<and> n_path m = n_path n
     \<and> meta_str m ''key'' = meta_str n ''key'' \<and> meta_str m ''source'' = meta_str n ''source''
     \<and> (meta_str m ''value'' = None \<longleftrightarrow> meta_str n ''value'' = None)
     \<and> (meta_str m ''value'' = Some redacted_value \<longleftrightarrow> meta_str n ''value'' = Some redacted_value)"

lemma secret_step_blind: "value_blind m n \<Longrightarrow> secret_step acc m = secret_step acc n"
  by (cases acc) (auto simp: secret_step_def value_blind_def Let_def split: option.splits)

lemma secret_scan_blind: "list_all2 value_blind ms ns \<Longrightarrow> foldl secret_step acc ms = foldl secret_step acc ns"
  by (induction ms ns arbitrary: acc rule: list_all2_induct) (simp_all add: secret_step_blind)

definition secret_scan_ok :: "secret_scan \<Rightarrow> bool" where
  "secret_scan_ok = (\<lambda>(items, redacted, declared, unredacted, other, files).
     length items = redacted + declared + unredacted
     \<and> redacted = length (filter (\<lambda>i. si_state i = Redacted) items)
     \<and> unredacted = length (filter (\<lambda>i. si_state i = Present) items)
     \<and> (\<forall>i \<in> set items. is_secret_key (si_name i))
     \<and> set files = {p. \<exists>i \<in> set items. si_path i = Some p} \<and> distinct files)"

lemma secret_step_ok: "secret_scan_ok acc \<Longrightarrow> secret_scan_ok (secret_step acc n)"
proof -
  assume ok: "secret_scan_ok acc"
  obtain items rd dc ur ot files where acc: "acc = (items, rd, dc, ur, ot, files)" by (cases acc)
  show ?thesis
  proof (cases "is_secret_key (or_else (meta_str n ''key'') (n_name n))")
    case False
    with ok show ?thesis by (simp add: acc secret_step_def secret_scan_ok_def Let_def)
  next
    case True
    define state where "state = (case meta_str n ''value'' of
                     Some v \<Rightarrow> if v = redacted_value then Redacted else Present
                   | None \<Rightarrow> Declared)"
    define i where "i = \<lparr>si_key = n_key n, si_path = n_path n, si_name = or_else (meta_str n ''key'') (n_name n),
        si_state = state, si_source = meta_str n ''source''\<rparr>"
    have "secret_step acc n = (items @ [i], if state = Redacted then Suc rd else rd,
        if state = Declared then Suc dc else dc, if state = Present then Suc ur else ur, ot,
        (case n_path n of Some q \<Rightarrow> set_insert q files | None \<Rightarrow> files))"
      using True by (simp add: acc secret_step_def Let_def state_def i_def)
    moreover have "si_state i = state" "si_path i = n_path n" "is_secret_key (si_name i)"
      using True by (simp_all add: i_def)
    ultimately show ?thesis using ok
      by (cases state; cases "n_path n") (auto simp: acc secret_scan_ok_def)
  qed
qed

text \<open>C14. The secrets report does not depend on any secret's value: on two graphs whose configuration nodes
  agree but for which unredacted values they hold, it is the same report. Its counts are those of its
  items, every item is secret by name, and the files counted are those the items are in.\<close>

theorem config_secrets_blind:
  assumes "nodes_by_kind s (KOther config_key_kind) = Ok ms"
    and "nodes_by_kind t (KOther config_key_kind) = Ok ns" and "list_all2 value_blind ms ns"
  shows "config_secrets s limit = config_secrets t limit
    \<and> (\<exists>r. config_secrets s 0 = Ok r \<and> sr_secret_named r = length (sr_items r)
         \<and> sr_secret_named r = sr_redacted r + sr_declared r + sr_unredacted r
         \<and> sr_unredacted r = length (filter (\<lambda>i. si_state i = Present) (sr_items r))
         \<and> (\<forall>i \<in> set (sr_items r). is_secret_key (si_name i))
         \<and> sr_files r = card {p. \<exists>i \<in> set (sr_items r). si_path i = Some p})"
proof -
  have eq: "foldl secret_step ([], 0, 0, 0, 0, []) ms = foldl secret_step ([], 0, 0, 0, 0, []) ns"
    by (rule secret_scan_blind) (fact assms(3))
  have len: "length ms = length ns" using assms(3) by (rule list_all2_lengthD)
  have "secret_scan_ok (foldl secret_step ([], 0, 0, 0, 0, []) ms)"
    by (rule foldl_inv [where P = secret_scan_ok]) (simp add: secret_scan_ok_def, rule secret_step_ok)
  moreover obtain items rd dc ur ot files where f: "foldl secret_step ([], 0, 0, 0, 0, []) ms = (items, rd, dc, ur, ot, files)"
    by (cases "foldl secret_step ([], 0, 0, 0, 0, []) ms")
  ultimately have ok: "length items = rd + dc + ur" "ur = length (filter (\<lambda>i. si_state i = Present) items)"
    "\<forall>i \<in> set items. is_secret_key (si_name i)" "set files = {p. \<exists>i \<in> set items. si_path i = Some p}" "distinct files"
    by (simp_all add: secret_scan_ok_def)
  have "length files = card {p. \<exists>i \<in> set items. si_path i = Some p}"
    using distinct_card [OF ok(5)] ok(4) by simp
  then show ?thesis
    using ok(1-3) by (simp add: config_secrets_def assms(1,2) eq [symmetric] f len window_take length_filter_sort_key)
qed

section \<open>Search\<close>

lemma hit_le_total: "total_on_list hit_le A"
  by (rule lex_le_total [where m = sh_score and k = "\<lambda>h. ns_key (sh_node h)"]) (simp add: hit_le_def)

text \<open>The texts of a node that search reads, in lower case; a missing path or content is the empty text.\<close>

definition node_texts :: "(string \<Rightarrow> string) \<Rightarrow> node \<Rightarrow> string list" where
  "node_texts lower n =
     [lower (n_name n), lower (n_key n), lower (case n_path n of Some p \<Rightarrow> p | None \<Rightarrow> []),
      (case meta_str n ''content'' of Some c \<Rightarrow> lower c | None \<Rightarrow> [])]"

lemma matches_all_texts:
  "matches_all lower tokens n
     \<longleftrightarrow> (\<forall>t \<in> set tokens. \<exists>x \<in> set (node_texts lower n). \<exists>a b. x = a @ t @ b)"
  unfolding contains_iff [symmetric]
  by (cases "meta_str n ''content''") (simp_all add: matches_all_def Let_def list_all_iff node_texts_def or_else_def)

lemma hit_le_iff:
  "hit_le = (\<lambda>a b. sh_score b < sh_score a \<or> sh_score a = sh_score b \<and> ns_key (sh_node a) \<le> ns_key (sh_node b))"
  by (simp add: fun_eq_iff hit_le_def)

text \<open>C15. A query with no token finds nothing. Otherwise search finds exactly the nodes each of whose tokens
  occurs in one of the node's texts (name, key, path or content), each once, scored by its relevance (nothing
  scores below 0) and with the snippet of its content; it lists them by score, highest first, the smaller key
  first where scores are equal, and a positive limit keeps the first so many of that list.\<close>

theorem search_ranked:
  fixes lower :: "string \<Rightarrow> string" and query :: string
  assumes "all_nodes s = Ok nodes"
  defines "q \<equiv> lower (trim query)"
  shows "\<exists>ranked. search lower s query limit = Ok (if 0 < limit then take limit ranked else ranked)
    \<and> mset (map (\<lambda>h. (sh_node h, int (sh_score h), sh_snippet h)) ranked)
        = image_mset (\<lambda>n. (summary_from_node n, max (relevance lower q (query_tokens q) n) 0, content_snippet (n_meta n)))
            (filter_mset (\<lambda>n. query_tokens q \<noteq> []
               \<and> (\<forall>t \<in> set (query_tokens q). \<exists>x \<in> set (node_texts lower n). \<exists>a b. x = a @ t @ b)) (mset nodes))
    \<and> sorted_wrt (\<lambda>a b. sh_score b < sh_score a
          \<or> sh_score a = sh_score b \<and> ns_key (sh_node a) \<le> ns_key (sh_node b)) ranked"
proof (cases "query_tokens q = []")
  case True
  then show ?thesis by (intro exI [of _ "[]"]) (simp add: search_def Let_def q_def)
next
  case False
  let ?ranked = "sort_by hit_le (map (hit_of lower q (query_tokens q)) (filter (matches_all lower (query_tokens q)) nodes))"
  have "search lower s query limit = Ok (if 0 < limit then take limit ?ranked else ?ranked)"
    using False assms(1) by (simp add: search_def Let_def window_take flip: q_def)
  moreover have "mset (map (\<lambda>h. (sh_node h, int (sh_score h), sh_snippet h)) ?ranked)
      = image_mset (\<lambda>n. (summary_from_node n, max (relevance lower q (query_tokens q) n) 0, content_snippet (n_meta n)))
          (filter_mset (\<lambda>n. query_tokens q \<noteq> []
             \<and> (\<forall>t \<in> set (query_tokens q). \<exists>x \<in> set (node_texts lower n). \<exists>a b. x = a @ t @ b)) (mset nodes))"
    using False by (simp flip: matches_all_texts) (simp add: image_mset.compositionality comp_def hit_of_def max.commute)
  moreover have "sorted_wrt hit_le ?ranked" by (intro sorted_sort_by hit_le_total)
  ultimately show ?thesis unfolding hit_le_iff by blast
qed

text \<open>A snippet is the content with every run of white space collapsed to one space: all of it when that
  takes at most 300 characters, otherwise its first 299 and an ellipsis; there is none exactly when the
  content is blank. The loop that stops early computes just that.\<close>

theorem snippet_collapses:
  "snippet_of content =
     (let text = join_space (words_of (chars content) [])
      in if text = [] then None
         else if length text \<le> 300 then Some (concat text)
         else Some (concat (take 299 text) @ ellipsis))"
proof -
  let ?text = "join_space (words_of (chars content) [])"
  have "collapse (chars content) [] False = take 301 ?text"
    using collapse_spaced [of "[]" False "chars content"] spaced_words [of "chars content"]
    by (simp add: SNIPPET_MAX_def)
  then show ?thesis by (simp add: snippet_of_def Let_def SNIPPET_MAX_def min_def)
qed

section \<open>Witnesses\<close>

definition demo_report :: store where
  "demo_report = foldl upsert_node empty_store
     [(node_new ''m1'' KMarker ''todo'')\<lparr>n_path := Some ''a.rs'', n_meta := JObject [(''category'', JString ''todo'')]\<rparr>,
      (node_new ''file:a.rs'' KFile ''a.rs'')\<lparr>n_meta := JObject [(''lines'', JPosInt 100)]\<rparr>,
      (node_new ''cfg'' (KOther ''config_key'') ''db.password'')\<lparr>n_meta := JObject [(''value'', JString ''hunter2'')]\<rparr>]"

theorem debt_counts_witness:
  "\<exists>r. debt demo_report [] [''b/**''] = Ok r \<and> dr_total r = 1 \<and> length (dr_items r) = 1"
proof -
  have "and_then (debt demo_report [] [''b/**'']) (\<lambda>r. Ok (dr_total r)) = Ok 1" by code_simp
  then obtain r where r: "debt demo_report [] [''b/**''] = Ok r" "dr_total r = 1"
    by (auto simp: and_then_eq_Ok)
  with debt_counts [OF r(1)] show ?thesis by auto
qed


theorem coupling_counts_witness:
  "\<exists>es r. all_edges demo_graph = Ok es \<and> coupling (\<lambda>a b. 0) demo_graph CTotal 0 = Ok r
     \<and> cr_call_edges r = 1 \<and> cr_coupled_nodes r = card (e_src ` set (ordinary_calls es) \<union> e_dst ` set (ordinary_calls es))"
proof -
  have "and_then (coupling (\<lambda>a b. 0) demo_graph CTotal 0) (\<lambda>r. Ok (cr_call_edges r)) = Ok 1" by code_simp
  then obtain r where r: "coupling (\<lambda>a b. 0) demo_graph CTotal 0 = Ok r" "cr_call_edges r = 1"
    by (auto simp: and_then_eq_Ok)
  then obtain es where es: "all_edges demo_graph = Ok es" by (auto simp: coupling_def and_then_eq_Ok)
  with coupling_counts [OF es r(1)] r show ?thesis by blast
qed

theorem config_secrets_blind_witness:
  "\<exists>ms. nodes_by_kind demo_report (KOther config_key_kind) = Ok ms
     \<and> config_secrets demo_report 0 = config_secrets (upsert_node demo_report ((node_new ''cfg'' (KOther ''config_key'')
           ''db.password'')\<lparr>n_meta := JObject [(''value'', JString ''correct horse'')]\<rparr>)) 0"
proof -
  let ?m = "(node_new ''cfg'' (KOther ''config_key'') ''db.password'')\<lparr>n_meta := JObject [(''value'', JString ''hunter2'')]\<rparr>"
  let ?n = "(node_new ''cfg'' (KOther ''config_key'') ''db.password'')\<lparr>n_meta := JObject [(''value'', JString ''correct horse'')]\<rparr>"
  have m: "nodes_by_kind demo_report (KOther config_key_kind) = Ok [?m]" by code_simp
  have n: "nodes_by_kind (upsert_node demo_report ?n) (KOther config_key_kind) = Ok [?n]" by code_simp
  have "list_all2 value_blind [?m] [?n]" by (simp add: value_blind_def node_new_def meta_str_def json_get_str_def redacted_value_def)
  from config_secrets_blind [OF m n this, of 0] m show ?thesis by blast
qed

theorem search_ranked_witness:
  "\<exists>hits nodes. all_nodes demo_store = Ok nodes \<and> search (\<lambda>s. s) demo_store '' a '' 1 = Ok hits
     \<and> map (\<lambda>h. ns_key (sh_node h)) hits = [''a'']
     \<and> (\<forall>h \<in> set hits. sh_node h \<in> summary_from_node ` set nodes)"
proof -
  obtain nodes where n: "all_nodes demo_store = Ok nodes" using demo_wf by (rule all_nodes_Ok)
  have "and_then (search (\<lambda>s. s) demo_store '' a '' 1) (\<lambda>hits. Ok (map (\<lambda>h. ns_key (sh_node h)) hits)) = Ok [''a'']"
    by code_simp
  then obtain hits where h: "search (\<lambda>s. s) demo_store '' a '' 1 = Ok hits" "map (\<lambda>h. ns_key (sh_node h)) hits = [''a'']"
    by (auto simp: and_then_eq_Ok)
  from search_ranked [OF n, where lower = "\<lambda>s. s" and query = "'' a ''" and limit = 1]
  obtain ranked P where "search (\<lambda>s. s) demo_store '' a '' 1 = Ok (take 1 ranked)"
    and m: "mset (map (\<lambda>h. (sh_node h, int (sh_score h), sh_snippet h)) ranked)
        = image_mset (\<lambda>n. (summary_from_node n, max (relevance (\<lambda>s. s) (trim '' a '') (query_tokens (trim '' a '')) n) 0,
            content_snippet (n_meta n))) (filter_mset P (mset nodes))"
    by (simp only: zero_less_one if_True) blast
  with h(1) have "hits = take 1 ranked" by simp
  moreover have "sh_node h \<in> summary_from_node ` set nodes" if "h \<in> set ranked" for h
    using arg_cong [OF m, of set_mset] that by (auto simp: set_eq_iff image_iff) blast
  ultimately have "\<forall>h \<in> set hits. sh_node h \<in> summary_from_node ` set nodes" by (metis in_set_takeD)
  then show ?thesis using n h by (intro exI conjI)
qed

end
