(* ===== verification/Thinking.thy ===== *)
theory Thinking imports Strings begin

text \<open>
  \<open>crates/rto-llama/src/thinking.rs\<close>: taking a model's reasoning block off its answer, from the whole
  content (\<open>answer\<close>) and from the stream of its pieces (\<open>StreamFilter\<close>).
\<close>

section \<open>The whole content\<close>

datatype finish_reason = FinishStop | FinishLength

definition OPEN :: string where "OPEN = ''<think>''"

definition CLOSE :: string where "CLOSE = ''</think>''"

datatype unterminated = CutAtTokenCap | CutShort

definition from_finish_reason :: "finish_reason \<Rightarrow> unterminated" where
  "from_finish_reason r = (case r of FinishLength \<Rightarrow> CutAtTokenCap | FinishStop \<Rightarrow> CutShort)"

text \<open>\<open>str::find\<close>: the byte index of the first occurrence.\<close>

definition answer :: "string \<Rightarrow> finish_reason \<Rightarrow> unterminated + string" where
  "answer content finish =
     (if \<not> starts_with (trim_start content) OPEN then Ok content
      else case find_str content CLOSE of
          Some end_ \<Rightarrow> Ok (trim_start (drop (end_ + length CLOSE) content))
        | None \<Rightarrow> Err (from_finish_reason finish))"

section \<open>The stream\<close>

datatype stream_state = Deciding | Reasoning | AfterBlock | Passthrough

record stream_filter =
  sf_held :: string
  sf_state :: stream_state

definition stream_new :: stream_filter where
  "stream_new = \<lparr>sf_held = [], sf_state = Deciding\<rparr>"

definition some_text :: "string \<Rightarrow> string option" where
  "some_text s = (if s = [] then None else Some s)"

definition push_reasoning :: "stream_filter \<Rightarrow> string \<Rightarrow> stream_filter \<times> string option" where
  "push_reasoning f piece =
     (let held = sf_held f @ piece
      in case find_str held CLOSE of
          None \<Rightarrow> (f\<lparr>sf_held := held\<rparr>, None)
        | Some end_ \<Rightarrow>
            let rest = trim_start (drop (end_ + length CLOSE) held); f = f\<lparr>sf_held := []\<rparr>
            in if rest = [] then (f\<lparr>sf_state := AfterBlock\<rparr>, None)
               else (f\<lparr>sf_state := Passthrough\<rparr>, Some rest))"

definition push :: "stream_filter \<Rightarrow> string \<Rightarrow> stream_filter \<times> string option" where
  "push f piece =
     (case sf_state f of
        Passthrough \<Rightarrow> (f, some_text piece)
      | Reasoning \<Rightarrow> push_reasoning f piece
      | AfterBlock \<Rightarrow>
          (let started = trim_start piece
           in if started = [] then (f, None)
              else (f\<lparr>sf_state := Passthrough\<rparr>, Some started))
      | Deciding \<Rightarrow>
          (let held = sf_held f @ piece; seen = trim_start held
           in if starts_with seen OPEN
              then push_reasoning \<lparr>sf_held = [], sf_state = Reasoning\<rparr> (drop (length OPEN) seen)
              else if starts_with OPEN seen then (f\<lparr>sf_held := held\<rparr>, None)
              else (\<lparr>sf_held = [], sf_state = Passthrough\<rparr>, some_text held)))"

definition stream_end :: "stream_filter \<Rightarrow> finish_reason \<Rightarrow> unterminated + string option" where
  "stream_end f finish =
     (case sf_state f of
        Reasoning \<Rightarrow> Err (from_finish_reason finish)
      | Deciding \<Rightarrow> Ok (some_text (sf_held f))
      | _ \<Rightarrow> Ok None)"

text \<open>What a consumer of the stream has seen: every piece pushed in turn, the texts it got so far.\<close>

fun stream_run :: "stream_filter \<Rightarrow> string list \<Rightarrow> stream_filter \<times> string" where
  "stream_run f [] = (f, [])"
| "stream_run f (p # ps) =
     (case push f p of (f', out) \<Rightarrow> case stream_run f' ps of (f'', text) \<Rightarrow>
        (f'', (case out of Some t \<Rightarrow> t | None \<Rightarrow> []) @ text))"

section \<open>Pieces\<close>

text \<open>A \<open>str\<close> never starts inside a character.\<close>

definition aligned :: "string \<Rightarrow> bool" where
  "aligned s \<longleftrightarrow> s = [] \<or> \<not> continuation (hd s)"

lemma takeWhile_aligned: "aligned b \<Longrightarrow> takeWhile continuation (a @ b) = takeWhile continuation a"
  by (induction a) (cases b, auto simp: aligned_def)

lemma dropWhile_aligned: "aligned b \<Longrightarrow> dropWhile continuation (a @ b) = dropWhile continuation a @ b"
  by (induction a) (cases b, auto simp: aligned_def)

lemma chars_append: "aligned b \<Longrightarrow> chars (a @ b) = chars a @ chars b"
  by (induction a rule: chars.induct) (simp_all add: takeWhile_aligned dropWhile_aligned)

lemma trim_start_Nil: "trim_start a = [] \<longleftrightarrow> dropWhile is_whitespace (chars a) = []"
proof
  assume "trim_start a = []"
  then have "\<forall>c \<in> set (dropWhile is_whitespace (chars a)). c = []" by (simp add: trim_start_def)
  then show "dropWhile is_whitespace (chars a) = []"
    using chars_nonempty set_dropWhileD by (metis last_in_set)
next
  assume "dropWhile is_whitespace (chars a) = []"
  then show "trim_start a = []" unfolding trim_start_def by (simp only: concat.simps)
qed

lemma trim_start_append:
  assumes "aligned b"
  shows "trim_start (a @ b) = (if trim_start a = [] then trim_start b else trim_start a @ b)"
proof (cases "trim_start a = []")
  case True
  then have "\<forall>c \<in> set (chars a). is_whitespace c" unfolding trim_start_Nil dropWhile_eq_Nil_conv .
  then have "dropWhile is_whitespace (chars a @ chars b) = dropWhile is_whitespace (chars b)"
    by (simp add: dropWhile_append2)
  with True show ?thesis by (simp add: trim_start_def chars_append [OF assms])
next
  case False
  then obtain c where "c \<in> set (chars a)" "\<not> is_whitespace c"
    unfolding trim_start_Nil dropWhile_eq_Nil_conv by blast
  then have "dropWhile is_whitespace (chars a @ chars b) = dropWhile is_whitespace (chars a) @ chars b"
    by (rule dropWhile_append1)
  then have "trim_start (a @ b) = trim_start a @ b"
    by (simp only: trim_start_def chars_append [OF assms] concat_append concat_chars)
  with False show ?thesis by (simp only: if_False)
qed

lemma trim_start_split: "\<exists>ws. s = ws @ trim_start s \<and> ws = concat (takeWhile is_whitespace (chars s))"
  by (metis concat_append concat_chars takeWhile_dropWhile_id trim_start_def)

lemma starts_with_append: "starts_with s t \<longleftrightarrow> (\<exists>r. s = t @ r)"
  unfolding starts_with_def by (metis append_eq_conv_conj append_take_drop_id)

lemma starts_with_more: "starts_with s t \<Longrightarrow> starts_with (s @ b) t"
  by (auto simp: starts_with_append)

lemma starts_with_less: "starts_with (s @ b) t \<Longrightarrow> length t \<le> length s \<Longrightarrow> starts_with s t"
  by (simp add: starts_with_def)

lemma find_str_bound: "find_str s t = Some i \<Longrightarrow> i + length t \<le> length s"
proof (induction s arbitrary: i)
  case (Cons c s)
  then show ?case by (auto simp: starts_with_append split: if_splits) (metis length_Cons length_append le_add1)
qed (auto split: if_splits)

lemma find_str_append: "find_str a t = Some i \<Longrightarrow> find_str (a @ b) t = Some i"
proof (induction a arbitrary: i)
  case Nil
  then show ?case by (cases b) (auto simp: starts_with_append split: if_splits)
next
  case (Cons c a)
  show ?case
  proof (cases "starts_with (c # a) t")
    case True
    then have "starts_with ((c # a) @ b) t" by (rule starts_with_more)
    with True Cons.prems show ?thesis by simp
  next
    case False
    with Cons.prems obtain j where j: "find_str a t = Some j" "i = Suc j" by auto
    have "length t \<le> length (c # a)" using find_str_bound [OF j(1)] by simp
    then have "\<not> starts_with ((c # a) @ b) t" using False starts_with_less by blast
    then show ?thesis using Cons.IH [OF j(1)] j(2) by simp
  qed
qed

text \<open>A text without \<open><\<close> in front does not move the first closing tag but for its length.\<close>

lemma find_close_skip:
  "CHR ''<'' \<notin> set a \<Longrightarrow> find_str (a @ s) CLOSE = map_option ((+) (length a)) (find_str s CLOSE)"
proof (induction a)
  case Nil
  then show ?case by (cases "find_str s CLOSE") simp_all
next
  case (Cons c a)
  then have "\<not> starts_with (c # a @ s) CLOSE" by (auto simp: starts_with_append CLOSE_def)
  with Cons show ?case by (cases "find_str s CLOSE") simp_all
qed

lemma find_close_open: "find_str (OPEN @ s) CLOSE = map_option ((+) (length OPEN)) (find_str s CLOSE)"
proof -
  have "find_str (''think>'' @ s) CLOSE = map_option ((+) (length ''think>'')) (find_str s CLOSE)"
    by (rule find_close_skip) simp
  then show ?thesis
    by (cases "find_str s CLOSE") (simp_all add: OPEN_def starts_with_def CLOSE_def)
qed

lemma whitespace_no_lt: "\<forall>c \<in> set ws. is_whitespace c \<Longrightarrow> CHR ''<'' \<notin> set (concat ws)"
proof -
  have "\<forall>w \<in> set whitespace. CHR ''<'' \<notin> set w" by (simp add: whitespace_def)
  then show "\<forall>c \<in> set ws. is_whitespace c \<Longrightarrow> CHR ''<'' \<notin> set (concat ws)"
    by (auto simp: is_whitespace_def)
qed

lemma find_close_content:
  assumes "trim_start content = OPEN @ s"
  shows "find_str content CLOSE = map_option ((+) (length content - length s)) (find_str s CLOSE)"
    and "length s \<le> length content" "drop (length content - length s) content = s"
proof -
  obtain ws where c: "content = ws @ OPEN @ s" and w: "ws = concat (takeWhile is_whitespace (chars content))"
    using trim_start_split [of content] assms by auto
  have lt: "CHR ''<'' \<notin> set ws" unfolding w by (rule whitespace_no_lt) (auto dest: set_takeWhileD)
  have "find_str content CLOSE = map_option ((+) (length ws)) (map_option ((+) (length OPEN)) (find_str s CLOSE))"
    unfolding c by (simp only: find_close_skip [OF lt] find_close_open)
  then show "find_str content CLOSE = map_option ((+) (length content - length s)) (find_str s CLOSE)"
    by (cases "find_str s CLOSE") (simp_all add: c)
  show "length s \<le> length content" "drop (length content - length s) content = s" by (simp_all add: c)
qed

section \<open>The stream so far is the answer so far\<close>

definition closed_at :: "string \<Rightarrow> string \<Rightarrow> bool" where
  "closed_at c rest \<longleftrightarrow> (\<exists>s i. trim_start c = OPEN @ s \<and> find_str s CLOSE = Some i
     \<and> rest = drop (i + length CLOSE) s)"

definition stream_inv :: "string \<Rightarrow> stream_filter \<Rightarrow> string \<Rightarrow> bool" where
  "stream_inv c f out \<longleftrightarrow> (case sf_state f of
     Deciding \<Rightarrow> sf_held f = c \<and> out = [] \<and> starts_with OPEN (trim_start c) \<and> \<not> starts_with (trim_start c) OPEN
   | Reasoning \<Rightarrow> out = [] \<and> trim_start c = OPEN @ sf_held f \<and> find_str (sf_held f) CLOSE = None
   | AfterBlock \<Rightarrow> out = [] \<and> (\<exists>rest. closed_at c rest \<and> trim_start rest = [])
   | Passthrough \<Rightarrow> (\<not> starts_with (trim_start c) OPEN \<and> \<not> starts_with OPEN (trim_start c) \<and> out = c)
       \<or> (\<exists>rest. closed_at c rest \<and> trim_start rest \<noteq> [] \<and> out = trim_start rest))"

definition text_of :: "string option \<Rightarrow> string" where
  "text_of out = (case out of Some t \<Rightarrow> t | None \<Rightarrow> [])"

lemma text_of_some_text [simp]: "text_of (some_text s) = s"
  by (simp add: text_of_def some_text_def)

lemma closed_at_append:
  assumes "closed_at c rest" "aligned p"
  shows "closed_at (c @ p) (rest @ p)"
proof -
  from assms(1) obtain s i where s: "trim_start c = OPEN @ s" "find_str s CLOSE = Some i"
    "rest = drop (i + length CLOSE) s" by (auto simp: closed_at_def)
  have "trim_start (c @ p) = OPEN @ (s @ p)"
    using s(1) by (simp add: trim_start_append [OF assms(2)] OPEN_def)
  moreover have "find_str (s @ p) CLOSE = Some i" using s(2) by (rule find_str_append)
  moreover have "rest @ p = drop (i + length CLOSE) (s @ p)"
    using find_str_bound [OF s(2)] by (simp add: s(3))
  ultimately show ?thesis unfolding closed_at_def by blast
qed

lemma push_reasoning_inv:
  assumes "trim_start c = OPEN @ (sf_held f @ piece)" "sf_state f = Reasoning"
    and "push_reasoning f piece = (f', out)"
  shows "stream_inv c f' (text_of out)"
proof (cases "find_str (sf_held f @ piece) CLOSE")
  case None
  with assms show ?thesis by (auto simp: push_reasoning_def Let_def stream_inv_def text_of_def)
next
  case (Some i)
  then have "closed_at c (drop (i + length CLOSE) (sf_held f @ piece))"
    unfolding closed_at_def using assms(1) by blast
  with assms(3) Some show ?thesis
    by (auto simp: push_reasoning_def Let_def stream_inv_def text_of_def simp del: drop_append split: if_splits)
qed

lemma push_inv:
  assumes inv: "stream_inv c f out" and p: "aligned p" and push: "push f p = (f', seen_out)"
  shows "stream_inv (c @ p) f' (out @ text_of seen_out)"
proof (cases "sf_state f")
  case Deciding
  with inv have c: "sf_held f = c" "out = []" by (simp_all add: stream_inv_def)
  consider "starts_with (trim_start (c @ p)) OPEN"
    | "\<not> starts_with (trim_start (c @ p)) OPEN" "starts_with OPEN (trim_start (c @ p))"
    | "\<not> starts_with (trim_start (c @ p)) OPEN" "\<not> starts_with OPEN (trim_start (c @ p))" by blast
  then show ?thesis
  proof cases
    case 1
    then have "trim_start (c @ p) = OPEN @ ([] @ drop (length OPEN) (trim_start (c @ p)))"
      by (metis append_Nil append_take_drop_id starts_with_def)
    moreover have "push_reasoning \<lparr>sf_held = [], sf_state = Reasoning\<rparr> (drop (length OPEN) (trim_start (c @ p))) = (f', seen_out)"
      using push Deciding c 1 by (simp add: push_def Let_def)
    ultimately have "stream_inv (c @ p) f' (text_of seen_out)"
      using push_reasoning_inv [of "c @ p" "\<lparr>sf_held = [], sf_state = Reasoning\<rparr>"] by simp
    then show ?thesis by (simp add: c)
  next
    case 2
    with push Deciding c have "f' = f\<lparr>sf_held := c @ p\<rparr>" "seen_out = None" by (auto simp: push_def Let_def)
    with 2 Deciding c show ?thesis by (simp add: stream_inv_def text_of_def)
  next
    case 3
    with push Deciding c have "f' = \<lparr>sf_held = [], sf_state = Passthrough\<rparr>" "seen_out = some_text (c @ p)"
      by (auto simp: push_def Let_def)
    with 3 c show ?thesis by (simp add: stream_inv_def)
  qed
next
  case Reasoning
  with inv have c: "trim_start c = OPEN @ sf_held f" "out = []" by (simp_all add: stream_inv_def)
  then have "trim_start (c @ p) = OPEN @ (sf_held f @ p)"
    by (simp add: trim_start_append [OF p] OPEN_def)
  moreover have "push_reasoning f p = (f', seen_out)" using push Reasoning by (simp add: push_def)
  ultimately show ?thesis using push_reasoning_inv Reasoning c(2) by simp
next
  case AfterBlock
  with inv obtain rest where r: "closed_at c rest" "trim_start rest = []" "out = []"
    by (auto simp: stream_inv_def)
  have cl: "closed_at (c @ p) (rest @ p)" by (rule closed_at_append [OF r(1) p])
  have t: "trim_start (rest @ p) = trim_start p" by (simp add: trim_start_append [OF p] r(2))
  show ?thesis
  proof (cases "trim_start p = []")
    case True
    with push AfterBlock have "f' = f" "seen_out = None" by (auto simp: push_def)
    with AfterBlock r(3) cl t True show ?thesis by (auto simp: stream_inv_def text_of_def)
  next
    case False
    with push AfterBlock have "f' = f\<lparr>sf_state := Passthrough\<rparr>" "seen_out = Some (trim_start p)"
      by (auto simp: push_def)
    with r(3) cl t False show ?thesis by (auto simp: stream_inv_def text_of_def)
  qed
next
  case Passthrough
  with push have f: "f' = f" "seen_out = some_text p" by (simp_all add: push_def)
  from inv Passthrough consider
    (plain) "\<not> starts_with (trim_start c) OPEN" "\<not> starts_with OPEN (trim_start c)" "out = c"
    | (closed) rest where "closed_at c rest" "trim_start rest \<noteq> []" "out = trim_start rest"
    by (auto simp: stream_inv_def)
  then show ?thesis
  proof cases
    case plain
    then have "trim_start c \<noteq> []" by (auto simp: starts_with_def)
    then have t: "trim_start (c @ p) = trim_start c @ p" by (simp add: trim_start_append [OF p])
    have "\<not> starts_with (trim_start c @ p) OPEN"
    proof
      assume s: "starts_with (trim_start c @ p) OPEN"
      show False
      proof (cases "length OPEN \<le> length (trim_start c)")
        case True
        with s plain(1) starts_with_less show False by blast
      next
        case False
        with s have "starts_with OPEN (trim_start c)"
          by (auto simp: starts_with_append append_eq_append_conv2) (metis append_Nil2)
        with plain(2) show False ..
      qed
    qed
    moreover have "\<not> starts_with OPEN (trim_start c @ p)"
      using plain(2) by (auto simp: starts_with_append)
    ultimately show ?thesis using Passthrough plain(3) by (simp add: stream_inv_def f t)
  next
    case closed
    then have "trim_start (rest @ p) = trim_start rest @ p" by (simp add: trim_start_append [OF p])
    with closed_at_append [OF closed(1) p] closed Passthrough show ?thesis
      by (auto simp: stream_inv_def f)
  qed
qed

lemma stream_run_inv:
  "stream_inv c f out \<Longrightarrow> (\<forall>p \<in> set ps. aligned p) \<Longrightarrow> stream_run f ps = (f', seen) \<Longrightarrow>
     stream_inv (c @ concat ps) f' (out @ seen)"
proof (induction ps arbitrary: c f out seen)
  case (Cons p ps)
  obtain g seen_out where g: "push f p = (g, seen_out)" by (cases "push f p")
  obtain seen' where r: "stream_run g ps = (f', seen')" "seen = text_of seen_out @ seen'"
    using Cons.prems(3) by (auto simp: g text_of_def split: prod.splits)
  have "stream_inv (c @ p) g (out @ text_of seen_out)"
    using push_inv [OF Cons.prems(1) _ g] Cons.prems(2) by simp
  from Cons.IH [OF this _ r(1)] Cons.prems(2) show ?case by (simp add: r(2))
qed simp

lemma stream_inv_new: "stream_inv [] stream_new []"
  by (simp add: stream_inv_def stream_new_def trim_start_def starts_with_def OPEN_def)

lemma answer_open:
  assumes "trim_start c = OPEN @ s"
  shows "answer c fr = (case find_str s CLOSE of
      Some i \<Rightarrow> Ok (trim_start (drop (i + length CLOSE) s)) | None \<Rightarrow> Err (from_finish_reason fr))"
proof -
  have sw: "starts_with (trim_start c) OPEN" using assms by (simp add: starts_with_append)
  note f = find_close_content [OF assms]
  have "drop (length c - length s + i + k) c = drop (i + k) s" for i k
    using f(3) by (metis add.assoc add.commute drop_drop)
  then show ?thesis using sw f(1) by (cases "find_str s CLOSE") (simp_all add: answer_def)
qed

text \<open>C10. However the content is cut into pieces, what the stream lets through is the answer taken from the
  whole: the texts of all the pushes and of the end, in order, are \<open>answer\<close> of the concatenation, the same
  error is raised when the reasoning was never closed, and then nothing was let through before it.\<close>

theorem stream_is_answer:
  assumes "\<forall>p \<in> set pieces. aligned p"
  shows "case stream_run stream_new pieces of (f, seen) \<Rightarrow>
      (case answer (concat pieces) finish of
         Ok whole \<Rightarrow> (\<exists>rest. stream_end f finish = Ok rest \<and> whole = seen @ (case rest of Some t \<Rightarrow> t | None \<Rightarrow> []))
       | Err u \<Rightarrow> stream_end f finish = Err u \<and> seen = [])"
proof -
  obtain f seen where run: "stream_run stream_new pieces = (f, seen)" by (cases "stream_run stream_new pieces")
  from stream_run_inv [OF stream_inv_new assms run] have inv: "stream_inv (concat pieces) f seen" by simp
  let ?c = "concat pieces"
  have plain: "answer ?c finish = Ok ?c" if "\<not> starts_with (trim_start ?c) OPEN"
    using that by (simp add: answer_def)
  have closed: "answer ?c finish = Ok (trim_start rest)" if "closed_at ?c rest" for rest
    using that answer_open by (auto simp: closed_at_def)
  show ?thesis
  proof (cases "sf_state f")
    case Deciding
    with inv plain show ?thesis by (simp add: run stream_inv_def stream_end_def some_text_def)
  next
    case Reasoning
    with inv have "answer ?c finish = Err (from_finish_reason finish)" "seen = []"
      by (auto simp: stream_inv_def answer_open)
    with Reasoning show ?thesis by (simp add: run stream_end_def)
  next
    case AfterBlock
    with inv closed show ?thesis by (auto simp: run stream_inv_def stream_end_def)
  next
    case Passthrough
    with inv plain closed show ?thesis by (auto simp: run stream_inv_def stream_end_def)
  qed
qed

theorem stream_is_answer_witness:
  "answer (concat ['' <th'', ''ink>a</thi'', ''nk> '', '' b'']) FinishStop = Ok ''b''
   \<and> stream_run stream_new ['' <th'', ''ink>a</thi'', ''nk> '', '' b''] = (\<lparr>sf_held = [], sf_state = Passthrough\<rparr>, ''b'')
   \<and> (\<exists>rest. stream_end \<lparr>sf_held = [], sf_state = Passthrough\<rparr> FinishStop = Ok rest
        \<and> ''b'' = ''b'' @ (case rest of Some t \<Rightarrow> t | None \<Rightarrow> []))"
proof -
  have a: "answer (concat ['' <th'', ''ink>a</thi'', ''nk> '', '' b'']) FinishStop = Ok ''b''"
    and r: "stream_run stream_new ['' <th'', ''ink>a</thi'', ''nk> '', '' b''] = (\<lparr>sf_held = [], sf_state = Passthrough\<rparr>, ''b'')"
    and p: "\<forall>p \<in> set ['' <th'', ''ink>a</thi'', ''nk> '', '' b'']. aligned p"
    by code_simp+
  from stream_is_answer [OF p, of FinishStop] a r show ?thesis by simp
qed

end
