(* ===== verification/PrefixCache.thy ===== *)
theory PrefixCache imports Prelude begin

text \<open>
  \<open>crates/rto-llama/src/prefix_cache.rs\<close>: the cache of model states after prompt preambles, with a byte
  budget and least-recently-used eviction. A \<open>usize\<close> and a \<open>u64\<close> are natural numbers with the saturation
  written out; \<open>used_bytes\<close> stays below the budget, so its sum does not wrap.
\<close>

section \<open>State\<close>

type_synonym tokens = "32 word list"

record 'st cache_entry =
  en_tokens :: tokens
  en_state :: 'st
  en_bytes :: nat
  en_used :: nat

type_synonym 'st cache_entries = "(string \<times> 'st cache_entry) list"

record 'st prefix_cache =
  pc_budget :: nat
  pc_entries :: "'st cache_entries"
  pc_last_prompt :: "string \<rightharpoonup> tokens"
  pc_tick :: nat

definition MIN_PREFIX_TOKENS :: nat where "MIN_PREFIX_TOKENS = 512"

definition U64_MAX :: nat where "U64_MAX = 18446744073709551615"

definition sat_add :: "nat \<Rightarrow> nat \<Rightarrow> nat" where
  "sat_add a b = (if a + b \<le> U64_MAX then a + b else U64_MAX)"

text \<open>\<open>Iterator::max_by_key\<close> gives the last of the greatest elements, \<open>min_by_key\<close> the first of the least.\<close>

fun max_by_key :: "('a \<Rightarrow> 'b::linorder) \<Rightarrow> 'a list \<Rightarrow> 'a option" where
  "max_by_key f [] = None"
| "max_by_key f (x # xs) = Some (foldl (\<lambda>m y. if f m \<le> f y then y else m) x xs)"

fun min_by_key :: "('a \<Rightarrow> 'b::linorder) \<Rightarrow> 'a list \<Rightarrow> 'a option" where
  "min_by_key f [] = None"
| "min_by_key f (x # xs) = Some (foldl (\<lambda>m y. if f y < f m then y else m) x xs)"

lemma foldl_max: "let m = foldl (\<lambda>m y. if f m \<le> f y then y else m) x xs in
     m \<in> set (x # xs) \<and> (\<forall>y \<in> set (x # xs). f y \<le> (f m :: 'b::linorder))"
  by (induction xs arbitrary: x) (fastforce simp: Let_def)+

lemma foldl_min: "let m = foldl (\<lambda>m y. if f y < f m then y else m) x xs in
     m \<in> set (x # xs) \<and> (\<forall>y \<in> set (x # xs). (f m :: 'b::linorder) \<le> f y)"
  by (induction xs arbitrary: x) (fastforce simp: Let_def)+

lemma max_by_key_Some: "max_by_key f xs = Some m \<Longrightarrow> m \<in> set xs \<and> (\<forall>y \<in> set xs. f y \<le> f m)"
  by (cases xs) (use foldl_max in \<open>force simp: Let_def\<close>)+

lemma min_by_key_Some: "min_by_key f xs = Some m \<Longrightarrow> m \<in> set xs \<and> (\<forall>y \<in> set xs. f m \<le> f y)"
  by (cases xs) (use foldl_min in \<open>force simp: Let_def\<close>)+

lemma max_by_key_None: "max_by_key f xs = None \<longleftrightarrow> xs = []" by (cases xs) simp_all

lemma min_by_key_None: "min_by_key f xs = None \<longleftrightarrow> xs = []" by (cases xs) simp_all

section \<open>Operations\<close>

definition cache_new :: "nat \<Rightarrow> 'st prefix_cache" where
  "cache_new budget = \<lparr>pc_budget = budget, pc_entries = [], pc_last_prompt = Map.empty, pc_tick = 0\<rparr>"

definition enabled :: "'st prefix_cache \<Rightarrow> bool" where
  "enabled c \<longleftrightarrow> 0 < pc_budget c"

definition begins_with :: "tokens \<Rightarrow> tokens \<Rightarrow> bool" where
  "begins_with ts p \<longleftrightarrow> take (length p) ts = p"

definition hits :: "string \<Rightarrow> tokens \<Rightarrow> string \<times> 'st cache_entry \<Rightarrow> bool" where
  "hits model ts = (\<lambda>(m, e). m = model \<and> length (en_tokens e) < length ts \<and> begins_with ts (en_tokens e))"

definition longest_prefix :: "'st prefix_cache \<Rightarrow> string \<Rightarrow> tokens \<Rightarrow> 'st prefix_cache \<times> ('st \<times> nat) option" where
  "longest_prefix c model ts =
     (let tick = sat_add (pc_tick c) 1; c = c\<lparr>pc_tick := tick\<rparr>
      in case max_by_key (\<lambda>(_, _, e). length (en_tokens e))
                (filter (\<lambda>(_, x). hits model ts x) (enumerate 0 (pc_entries c))) of
          None \<Rightarrow> (c, None)
        | Some (best, _) \<Rightarrow> case pc_entries c ! best of (m, e) \<Rightarrow>
            (c\<lparr>pc_entries := (pc_entries c)[best := (m, e\<lparr>en_used := tick\<rparr>)]\<rparr>,
             Some (en_state e, length (en_tokens e))))"

fun common_prefix_len :: "tokens \<Rightarrow> tokens \<Rightarrow> nat" where
  "common_prefix_len (x # xs) (y # ys) = (if x = y then Suc (common_prefix_len xs ys) else 0)"
| "common_prefix_len _ _ = 0"

definition covered :: "'st prefix_cache \<Rightarrow> string \<Rightarrow> tokens \<Rightarrow> nat" where
  "covered c model ts =
     (case max_by_key id (map (\<lambda>(_, e). length (en_tokens e)) (filter (hits model ts) (pc_entries c))) of
        Some n \<Rightarrow> n | None \<Rightarrow> 0)"

definition boundary_for :: "'st prefix_cache \<Rightarrow> string \<Rightarrow> tokens \<Rightarrow> 'st prefix_cache \<times> nat option" where
  "boundary_for c model ts =
     (if \<not> enabled c then (c, None)
      else let shared = map_option (\<lambda>prev. common_prefix_len prev ts) (pc_last_prompt c model);
               c = c\<lparr>pc_last_prompt := (pc_last_prompt c)(model \<mapsto> ts)\<rparr>
           in case shared of
               None \<Rightarrow> (c, None)
             | Some shared \<Rightarrow>
                 if shared < MIN_PREFIX_TOKENS then (c, None)
                 else (c, if covered c model ts < shared then Some shared else None))"

definition could_store :: "'st prefix_cache \<Rightarrow> nat \<Rightarrow> bool" where
  "could_store c bytes \<longleftrightarrow> enabled c \<and> bytes \<le> pc_budget c"

definition used_bytes :: "'st cache_entries \<Rightarrow> nat" where
  "used_bytes es = sum_list (map (\<lambda>(_, e). en_bytes e) es)"

definition remove_at :: "nat \<Rightarrow> 'a list \<Rightarrow> 'a list" where
  "remove_at i xs = take i xs @ drop (Suc i) xs"

definition lru :: "'st cache_entries \<Rightarrow> nat option" where
  "lru es = map_option fst (min_by_key (\<lambda>(_, _, e). en_used e) (enumerate 0 es))"

lemma lru_Some: "lru es = Some i \<Longrightarrow> i < length es \<and> (\<forall>x \<in> set es. en_used (snd (es ! i)) \<le> en_used (snd x))"
proof -
  assume "lru es = Some i"
  then obtain x where m: "min_by_key (\<lambda>(_, _, e). en_used e) (enumerate 0 es) = Some (i, x)"
    by (auto simp: lru_def)
  from min_by_key_Some [OF m] have "i < length es" "es ! i = x"
    and all: "\<forall>y \<in> set (enumerate 0 es). en_used (snd x) \<le> en_used (snd (snd y))"
    by (auto simp: in_set_enumerate_eq split_beta)
  have "\<forall>j < length es. en_used (snd x) \<le> en_used (snd (es ! j))"
    using bspec [OF all, of "(j, es ! j)" for j] by (simp add: in_set_enumerate_eq)
  with \<open>i < length es\<close> \<open>es ! i = x\<close> show ?thesis by (metis in_set_conv_nth)
qed

text \<open>The loop that evicts the least recently used entry until the new one fits.\<close>

function evict :: "nat \<Rightarrow> nat \<Rightarrow> 'st cache_entries \<Rightarrow> 'st cache_entries" where
  "evict budget bytes es =
     (if sat_add (used_bytes es) bytes \<le> budget then es
      else case lru es of None \<Rightarrow> es | Some i \<Rightarrow> evict budget bytes (remove_at i es))"
  by pat_completeness auto

termination
  by (relation "measure (\<lambda>(_, _, es). length es)") (auto simp: remove_at_def dest: lru_Some)

definition put :: "'st prefix_cache \<Rightarrow> string \<Rightarrow> tokens \<Rightarrow> 'st \<Rightarrow> nat \<Rightarrow> 'st prefix_cache" where
  "put c model ts st bytes =
     (if \<not> enabled c \<or> pc_budget c < bytes then c
      else let tick = sat_add (pc_tick c) 1;
               kept = filter (\<lambda>(m, e). m \<noteq> model \<or> \<not> begins_with ts (en_tokens e)) (pc_entries c)
           in c\<lparr>pc_tick := tick,
                pc_entries := evict (pc_budget c) bytes kept
                  @ [(model, \<lparr>en_tokens = ts, en_state = st, en_bytes = bytes, en_used = tick\<rparr>)]\<rparr>)"

definition forget :: "'st prefix_cache \<Rightarrow> string \<Rightarrow> tokens \<Rightarrow> 'st prefix_cache" where
  "forget c model ts = c\<lparr>pc_entries := filter (\<lambda>(m, e). m \<noteq> model \<or> en_tokens e \<noteq> ts) (pc_entries c)\<rparr>"

section \<open>Every operation keeps the budget\<close>

declare evict.simps [simp del]

definition labels :: "'st cache_entries \<Rightarrow> (string \<times> tokens) list" where
  "labels es = map (\<lambda>(m, e). (m, en_tokens e)) es"

text \<open>No entry's tokens begin with those of an earlier entry of the same model: that one was superseded.\<close>

definition unsuperseded :: "'st cache_entries \<Rightarrow> bool" where
  "unsuperseded es \<longleftrightarrow> sorted_wrt (\<lambda>(m, t) (m', t'). m = m' \<longrightarrow> \<not> begins_with t' t) (labels es)"

definition cache_ok :: "nat \<Rightarrow> 'st prefix_cache \<Rightarrow> bool" where
  "cache_ok b c \<longleftrightarrow> pc_budget c = b \<and> used_bytes (pc_entries c) \<le> b \<and> unsuperseded (pc_entries c)
     \<and> (\<forall>x \<in> set (pc_entries c). en_used (snd x) \<le> pc_tick c) \<and> pc_tick c \<le> U64_MAX"

lemma begins_with_refl [simp]: "begins_with t t" by (simp add: begins_with_def)

lemma sorted_wrt_irrefl_distinct: "sorted_wrt R xs \<Longrightarrow> (\<And>x. \<not> R x x) \<Longrightarrow> distinct xs"
  by (induction xs) auto

lemma unsuperseded_distinct: "unsuperseded es \<Longrightarrow> distinct (labels es)"
  unfolding unsuperseded_def by (erule sorted_wrt_irrefl_distinct) auto

lemma used_bytes_append [simp]: "used_bytes (xs @ ys) = used_bytes xs + used_bytes ys"
  by (simp add: used_bytes_def)

lemma used_bytes_filter: "used_bytes (filter P es) \<le> used_bytes es"
  by (induction es) (auto simp: used_bytes_def)

lemma remove_at_split:
  assumes "i < length xs"
  obtains a b where "xs = a @ xs ! i # b" "remove_at i xs = a @ b"
  using assms id_take_nth_drop [of i xs] that by (simp add: remove_at_def)

lemma unsuperseded_filter: "unsuperseded es \<Longrightarrow> unsuperseded (filter P es)"
  unfolding unsuperseded_def labels_def sorted_wrt_map by (rule sorted_wrt_filter)

lemma unsuperseded_drop_one: "unsuperseded (a @ x # b) \<Longrightarrow> unsuperseded (a @ b)"
  unfolding unsuperseded_def labels_def by (auto simp: sorted_wrt_append)

lemma sat_le: "b < U64_MAX \<Longrightarrow> sat_add n m \<le> b \<longleftrightarrow> n + m \<le> b"
  by (simp add: sat_add_def)

lemma lru_None: "lru es = None \<longleftrightarrow> es = []"
  by (simp add: lru_def min_by_key_None enumerate_eq_zip)

text \<open>What the eviction loop leaves fits and is a part of what was there; what it takes was used no later than
  anything it leaves; and it takes nothing once the rest fits: the last entry taken had to go.\<close>

lemma evict_spec:
  assumes "b < U64_MAX" "bytes \<le> b" "unsuperseded es"
  shows "unsuperseded (evict b bytes es) \<and> used_bytes (evict b bytes es) + bytes \<le> b
    \<and> set (evict b bytes es) \<subseteq> set es
    \<and> (\<forall>x \<in> set es - set (evict b bytes es). \<forall>y \<in> set (evict b bytes es). en_used (snd x) \<le> en_used (snd y))
    \<and> (evict b bytes es \<noteq> es \<longrightarrow> (\<exists>x \<in> set es. b < used_bytes (evict b bytes es) + en_bytes (snd x) + bytes))"
  using assms
proof (induction b bytes es rule: evict.induct)
  case (1 b bytes es)
  show ?case
  proof (cases "sat_add (used_bytes es) bytes \<le> b")
    case True
    with 1 show ?thesis by (simp add: evict.simps [of b bytes es] sat_le)
  next
    case over: False
    show ?thesis
    proof (cases "lru es")
      case None
      then have "es = []" by (simp add: lru_None)
      with over 1(2,3) show ?thesis by (simp add: sat_le used_bytes_def)
    next
      case (Some i)
      then have i: "i < length es" and least: "\<forall>x \<in> set es. en_used (snd (es ! i)) \<le> en_used (snd x)"
        by (auto dest: lru_Some)
      obtain a d where es: "es = a @ es ! i # d" and r: "remove_at i es = a @ d"
        by (rule remove_at_split [OF i])
      have un: "unsuperseded (remove_at i es)" using 1(4) es r by (metis unsuperseded_drop_one)
      note IH = 1(1) [OF over Some 1(2,3) un]
      have e: "evict b bytes es = evict b bytes (remove_at i es)"
        using over Some by (simp add: evict.simps [of b bytes es])
      have sub: "set (remove_at i es) \<subseteq> set es" "set es - {es ! i} \<subseteq> set (remove_at i es)"
        using arg_cong [OF es, of set] by (auto simp: r)
      have bytes: "used_bytes es = used_bytes (remove_at i es) + en_bytes (snd (es ! i))"
        using arg_cong [OF es, of used_bytes] by (simp add: r used_bytes_def split_beta)
      have "\<exists>x \<in> set es. b < used_bytes (evict b bytes es) + en_bytes (snd x) + bytes"
      proof (cases "evict b bytes (remove_at i es) = remove_at i es")
        case True
        then have "b < used_bytes (evict b bytes es) + en_bytes (snd (es ! i)) + bytes"
          using over 1(2) e bytes by (simp add: sat_le)
        with i show ?thesis by (meson nth_mem)
      qed (use IH sub(1) e in auto)
      with IH sub least show ?thesis unfolding e by (blast 6)
    qed
  qed
qed

text \<open>Nothing is taken without need: with it and every entry used at least as recently, the new one would not have fitted.\<close>

lemma evict_needed:
  assumes "b < U64_MAX" "x \<in> set es" "x \<notin> set (evict b bytes es)"
  shows "b < used_bytes (filter (\<lambda>y. en_used (snd x) \<le> en_used (snd y)) es) + bytes"
  using assms
proof (induction b bytes es rule: evict.induct)
  case (1 b bytes es)
  let ?P = "\<lambda>y. en_used (snd x) \<le> en_used (snd y)"
  have over: "\<not> sat_add (used_bytes es) bytes \<le> b"
    using 1(3,4) by (auto simp: evict.simps [of b bytes es])
  from 1(3) have "lru es \<noteq> None" by (auto simp: lru_None)
  then obtain i where Some: "lru es = Some i" by blast
  then have i: "i < length es" and least: "\<forall>y \<in> set es. en_used (snd (es ! i)) \<le> en_used (snd y)"
    by (auto dest: lru_Some)
  obtain a d where es: "es = a @ es ! i # d" and r: "remove_at i es = a @ d"
    by (rule remove_at_split [OF i])
  show ?case
  proof (cases "x \<in> set (remove_at i es)")
    case True
    have "x \<notin> set (evict b bytes (remove_at i es))"
      using 1(4) over Some by (simp add: evict.simps [of b bytes es])
    from 1(1) [OF over Some 1(2) True this]
    have "b < used_bytes (filter ?P (a @ d)) + bytes" by (simp only: r)
    also have "used_bytes (filter ?P (a @ d)) \<le> used_bytes (filter ?P (a @ es ! i # d))"
      by (auto simp: used_bytes_def)
    finally show ?thesis using es by simp
  next
    case False
    then have "x = es ! i" using 1(3) arg_cong [OF es, of set] by (auto simp: r)
    with least have "filter ?P es = es" by (auto intro: filter_True)
    then show ?thesis using over 1(2) by (simp add: sat_le)
  qed
qed

lemma labels_update [simp]: "i < length es \<Longrightarrow> es ! i = (m, e) \<Longrightarrow> labels (es[i := (m, e\<lparr>en_used := t\<rparr>)]) = labels es"
  unfolding labels_def by (rule nth_equalityI) (auto simp: nth_list_update)

lemma used_bytes_update [simp]:
  "i < length es \<Longrightarrow> es ! i = (m, e) \<Longrightarrow> used_bytes (es[i := (m, e\<lparr>en_used := t\<rparr>)]) = used_bytes es"
  unfolding used_bytes_def by (rule arg_cong [where f = sum_list], rule nth_equalityI) (auto simp: nth_list_update)

lemma best_hit:
  assumes "max_by_key (\<lambda>(_, _, e). length (en_tokens e)) (filter (\<lambda>(_, x). hits model ts x) (enumerate 0 es)) = Some (i, m, e)"
  shows "i < length es \<and> es ! i = (m, e) \<and> hits model ts (m, e)
    \<and> (\<forall>x \<in> set es. hits model ts x \<longrightarrow> length (en_tokens (snd x)) \<le> length (en_tokens e))"
proof -
  from max_by_key_Some [OF assms] have 1: "i < length es" "es ! i = (m, e)" "hits model ts (m, e)"
    and all: "\<forall>y \<in> set (filter (\<lambda>(_, x). hits model ts x) (enumerate 0 es)). length (en_tokens (snd (snd y))) \<le> length (en_tokens e)"
    by (auto simp: in_set_enumerate_eq split_beta)
  have "length (en_tokens (snd x)) \<le> length (en_tokens e)" if "x \<in> set es" "hits model ts x" for x
  proof -
    from that(1) obtain j where "j < length es" "es ! j = x" by (auto simp: in_set_conv_nth)
    with that(2) bspec [OF all, of "(j, x)"] show ?thesis by (simp add: in_set_enumerate_eq)
  qed
  with 1 show ?thesis by blast
qed

lemma no_hit:
  "max_by_key f (filter (\<lambda>(_, x). hits model ts x) (enumerate 0 es)) = None
     \<longleftrightarrow> (\<forall>x \<in> set es. \<not> hits model ts x)"
proof -
  have "filter (\<lambda>(_, x). hits model ts x) (enumerate 0 es) = []
      \<longleftrightarrow> (\<forall>x \<in> set (map snd (enumerate 0 es)). \<not> hits model ts x)"
    by (auto simp: filter_empty_conv split_beta simp del: map_snd_enumerate)
  then show ?thesis by (simp add: max_by_key_None)
qed

lemma sat_succ_mono: "n \<le> U64_MAX \<Longrightarrow> n \<le> sat_add n 1 \<and> sat_add n 1 \<le> U64_MAX"
  by (simp add: sat_add_def)

lemma longest_prefix_ok:
  assumes "cache_ok b c"
  shows "cache_ok b (fst (longest_prefix c model ts))"
proof (cases "max_by_key (\<lambda>(_, _, e). length (en_tokens e)) (filter (\<lambda>(_, x). hits model ts x) (enumerate 0 (pc_entries c)))")
  case None
  with assms sat_succ_mono [of "pc_tick c"] show ?thesis
    by (auto simp: longest_prefix_def Let_def cache_ok_def intro: order_trans)
next
  case (Some p)
  obtain i m e where p: "p = (i, m, e)" by (cases p)
  note h = best_hit [OF Some [unfolded p]]
  have r: "pc_entries (fst (longest_prefix c model ts)) = (pc_entries c)[i := (m, e\<lparr>en_used := sat_add (pc_tick c) 1\<rparr>)]"
    "pc_tick (fst (longest_prefix c model ts)) = sat_add (pc_tick c) 1"
    "pc_budget (fst (longest_prefix c model ts)) = pc_budget c"
    using h Some by (simp_all add: longest_prefix_def Let_def p)
  have b: "used_bytes (pc_entries c) \<le> b" "pc_budget c = b" "unsuperseded (pc_entries c)" "pc_tick c \<le> U64_MAX"
    and old: "\<forall>x \<in> set (pc_entries c). en_used (snd x) \<le> pc_tick c" using assms by (simp_all add: cache_ok_def)
  have "\<forall>x \<in> set ((pc_entries c)[i := (m, e\<lparr>en_used := sat_add (pc_tick c) 1\<rparr>)]). en_used (snd x) \<le> sat_add (pc_tick c) 1"
    using old sat_succ_mono [OF b(4)] by (auto dest!: set_update_subset_insert [THEN subsetD] intro: order_trans)
  with b h sat_succ_mono [OF b(4)] show ?thesis by (simp add: cache_ok_def r unsuperseded_def)
qed

lemma boundary_for_ok: "cache_ok b c \<Longrightarrow> cache_ok b (fst (boundary_for c model ts))"
  by (auto simp: boundary_for_def Let_def cache_ok_def split: option.split)

lemma forget_ok: "cache_ok b c \<Longrightarrow> cache_ok b (forget c model ts)"
  using used_bytes_filter [of _ "pc_entries c"] by (auto simp: forget_def cache_ok_def unsuperseded_filter intro: order_trans)

text \<open>What survives a \<open>put\<close> before eviction: the entries it does not supersede.\<close>

abbreviation (input) not_superseded :: "string \<Rightarrow> tokens \<Rightarrow> 'st cache_entries \<Rightarrow> 'st cache_entries" where
  "not_superseded model ts es \<equiv> filter (\<lambda>(m, e). m \<noteq> model \<or> \<not> begins_with ts (en_tokens e)) es"

lemma put_ok:
  assumes "cache_ok b c" "b < U64_MAX"
  shows "cache_ok b (put c model ts st bytes)"
proof (cases "enabled c \<and> bytes \<le> b")
  case True
  let ?kept = "not_superseded model ts (pc_entries c)"
  from assms True have "unsuperseded ?kept" by (simp add: cache_ok_def unsuperseded_filter)
  note e = evict_spec [OF assms(2) _ this, of bytes]
  have sub: "set (evict b bytes ?kept) \<subseteq> set ?kept" using e True by blast
  have un: "unsuperseded (evict b bytes ?kept @ [(model, \<lparr>en_tokens = ts, en_state = st, en_bytes = bytes, en_used = t\<rparr>)])" for t
  proof -
    have "\<forall>(m, e) \<in> set (evict b bytes ?kept). m = model \<longrightarrow> \<not> begins_with ts (en_tokens e)"
      using sub by auto
    moreover have "unsuperseded (evict b bytes ?kept)" using e True by blast
    ultimately show ?thesis by (auto simp: unsuperseded_def labels_def sorted_wrt_append split_beta)
  qed
  have used: "\<forall>x \<in> set (evict b bytes ?kept). en_used (snd x) \<le> sat_add (pc_tick c) 1"
  proof
    fix x assume "x \<in> set (evict b bytes ?kept)"
    then have "x \<in> set (pc_entries c)" using sub by auto
    with assms(1) sat_succ_mono [of "pc_tick c"] show "en_used (snd x) \<le> sat_add (pc_tick c) 1"
      by (auto simp: cache_ok_def intro: order_trans)
  qed
  have b: "pc_budget c = b" "pc_tick c \<le> U64_MAX" using assms(1) by (simp_all add: cache_ok_def)
  have "used_bytes (evict b bytes ?kept) + bytes \<le> b" using e True by blast
  with un used b sat_succ_mono [OF b(2)] True show ?thesis
    by (simp add: put_def Let_def cache_ok_def used_bytes_def not_less)
qed (use assms in \<open>auto simp: put_def cache_ok_def\<close>)

section \<open>Properties\<close>

inductive cache_reach :: "nat \<Rightarrow> 'st prefix_cache \<Rightarrow> bool" for b where
  new: "cache_reach b (cache_new b)"
| lookup: "cache_reach b c \<Longrightarrow> cache_reach b (fst (longest_prefix c model ts))"
| boundary: "cache_reach b c \<Longrightarrow> cache_reach b (fst (boundary_for c model ts))"
| put: "cache_reach b c \<Longrightarrow> cache_reach b (put c model ts st bytes)"
| forget: "cache_reach b c \<Longrightarrow> cache_reach b (forget c model ts)"

lemma cache_reach_ok: "cache_reach b c \<Longrightarrow> b < U64_MAX \<Longrightarrow> cache_ok b c"
proof (induction rule: cache_reach.induct)
  case new
  show ?case by (simp add: cache_ok_def cache_new_def used_bytes_def unsuperseded_def labels_def)
qed (auto intro: longest_prefix_ok boundary_for_ok put_ok forget_ok)

text \<open>C28. Whatever is looked up, recorded, stored and forgotten, the cache never holds more bytes than its budget,
  no two entries of a model have the same tokens, and no entry's tokens begin with those of one stored before it.\<close>

theorem cache_within_budget:
  assumes "cache_reach b c" "b < U64_MAX"
  shows "used_bytes (pc_entries c) \<le> b \<and> distinct (labels (pc_entries c))
    \<and> (\<forall>i j. i < j \<and> j < length (pc_entries c) \<longrightarrow>
         (case (pc_entries c ! i, pc_entries c ! j) of ((m, e), (m', e')) \<Rightarrow>
            m = m' \<longrightarrow> \<not> begins_with (en_tokens e') (en_tokens e)))"
proof -
  have "cache_ok b c" by (rule cache_reach_ok [OF assms])
  then have u: "used_bytes (pc_entries c) \<le> b" "unsuperseded (pc_entries c)" by (simp_all add: cache_ok_def)
  from u(2) have "sorted_wrt (\<lambda>x y. fst x = fst y \<longrightarrow> \<not> begins_with (en_tokens (snd y)) (en_tokens (snd x))) (pc_entries c)"
    by (simp add: unsuperseded_def labels_def sorted_wrt_map split_beta)
  with u unsuperseded_distinct [OF u(2)] show ?thesis by (auto simp: sorted_wrt_iff_nth_less split_beta)
qed

lemma best_hit_result:
  assumes "longest_prefix c model ts = (c', r)"
  shows "r = None \<Longrightarrow> x \<in> set (pc_entries c) \<Longrightarrow> \<not> hits model ts x"
    and "r = Some (st, n) \<Longrightarrow> x \<in> set (pc_entries c) \<Longrightarrow> hits model ts x \<Longrightarrow> length (en_tokens (snd x)) \<le> n"
  using assms best_hit [of model ts "pc_entries c"]
  by (fastforce simp: longest_prefix_def Let_def no_hit split: option.splits prod.splits)+

text \<open>C29. A lookup finds the longest preamble: it answers exactly when an entry of the model is a strict prefix of
  the prompt, with that entry's state and length, no other such entry is longer, at least one token is left to
  decode, and it changes no entry but for the time of use of the one it found.\<close>

theorem longest_prefix_longest:
  assumes "longest_prefix c model ts = (c', r)"
  shows "(case r of
       None \<Rightarrow> (\<forall>x \<in> set (pc_entries c). \<not> hits model ts x) \<and> pc_entries c' = pc_entries c
     | Some (st, n) \<Rightarrow> n < length ts \<and> (\<exists>i e. i < length (pc_entries c) \<and> pc_entries c ! i = (model, e)
           \<and> en_state e = st \<and> length (en_tokens e) = n \<and> begins_with ts (en_tokens e)
           \<and> (\<forall>x \<in> set (pc_entries c). hits model ts x \<longrightarrow> length (en_tokens (snd x)) \<le> n)
           \<and> pc_entries c' = (pc_entries c)[i := (model, e\<lparr>en_used := sat_add (pc_tick c) 1\<rparr>)]))"
proof (cases "max_by_key (\<lambda>(_, _, e). length (en_tokens e)) (filter (\<lambda>(_, x). hits model ts x) (enumerate 0 (pc_entries c)))")
  case None
  with assms show ?thesis by (auto simp: longest_prefix_def Let_def no_hit)
next
  case (Some p)
  obtain i m e where p: "p = (i, m, e)" by (cases p)
  note h = best_hit [OF Some [unfolded p]]
  then have m: "m = model" by (simp add: hits_def)
  from assms h Some have "r = Some (en_state e, length (en_tokens e))"
    "pc_entries c' = (pc_entries c)[i := (model, e\<lparr>en_used := sat_add (pc_tick c) 1\<rparr>)]"
    by (auto simp: longest_prefix_def Let_def p m)
  with h show ?thesis by (auto simp: m hits_def)
qed

text \<open>C27. Storing a state that fits makes it retrievable and evicts by recency, and no more than it must: a prompt that
  goes on from it finds a preamble at least as long; the entries it supersedes go, and what is kept fits the budget
  with the new state; of the others, each one evicted was used no later than every one kept, and had to go: it,
  the entries used at least as recently and the new state together exceed the budget.\<close>

theorem put_evicts_lru:
  assumes "cache_reach b c" "b < U64_MAX" "could_store c bytes"
  shows "\<exists>kept. pc_entries (put c model ts st bytes)
        = kept @ [(model, \<lparr>en_tokens = ts, en_state = st, en_bytes = bytes, en_used = sat_add (pc_tick c) 1\<rparr>)]
    \<and> set kept \<subseteq> set (not_superseded model ts (pc_entries c))
    \<and> (\<forall>x \<in> set (not_superseded model ts (pc_entries c)) - set kept. \<forall>y \<in> set kept.
         en_used (snd x) \<le> en_used (snd y))
    \<and> used_bytes kept + bytes \<le> b
    \<and> (\<forall>x \<in> set (not_superseded model ts (pc_entries c)) - set kept.
         b < used_bytes (filter (\<lambda>y. en_used (snd x) \<le> en_used (snd y)) (not_superseded model ts (pc_entries c))) + bytes)
    \<and> (\<forall>t rest. \<exists>st' n. snd (longest_prefix (put c model ts st bytes) model (ts @ t # rest)) = Some (st', n) \<and> length ts \<le> n)"
proof -
  let ?ns = "not_superseded model ts (pc_entries c)"
  let ?new = "(model, \<lparr>en_tokens = ts, en_state = st, en_bytes = bytes, en_used = sat_add (pc_tick c) 1\<rparr>)"
  have ok: "cache_ok b c" by (rule cache_reach_ok [OF assms(1,2)])
  then have b: "pc_budget c = b" by (simp add: cache_ok_def)
  from ok have un: "unsuperseded ?ns" by (simp add: cache_ok_def unsuperseded_filter)
  have bytes: "bytes \<le> b" using assms(3) b by (simp add: could_store_def)
  note e = evict_spec [OF assms(2) bytes un]
  have p: "pc_entries (put c model ts st bytes) = evict b bytes ?ns @ [?new]"
    using assms(3) b by (simp add: put_def Let_def could_store_def)
  have find: "\<exists>st' n. snd (longest_prefix (put c model ts st bytes) model (ts @ t # rest)) = Some (st', n) \<and> length ts \<le> n"
    for t rest
  proof -
    obtain c' r where l: "longest_prefix (put c model ts st bytes) model (ts @ t # rest) = (c', r)" by fastforce
    have "hits model (ts @ t # rest) ?new" by (simp add: hits_def begins_with_def)
    moreover have new: "?new \<in> set (pc_entries (put c model ts st bytes))" by (simp add: p)
    moreover note found = best_hit_result [OF l]
    ultimately obtain st' n where r: "r = Some (st', n)" by (cases r) auto
    with found new \<open>hits model (ts @ t # rest) ?new\<close> have "length (en_tokens (snd ?new)) \<le> n" by blast
    with l r show ?thesis by simp
  qed
  have need: "\<forall>x \<in> set ?ns - set (evict b bytes ?ns).
      b < used_bytes (filter (\<lambda>y. en_used (snd x) \<le> en_used (snd y)) ?ns) + bytes"
    using evict_needed [OF assms(2)] by blast
  note parts = e [THEN conjunct2, THEN conjunct1] e [THEN conjunct2, THEN conjunct2, THEN conjunct1]
    e [THEN conjunct2, THEN conjunct2, THEN conjunct2, THEN conjunct1]
  show ?thesis
  proof (intro exI [of _ "evict b bytes ?ns"] conjI)
    show "\<forall>t rest. \<exists>st' n. snd (longest_prefix (put c model ts st bytes) model (ts @ t # rest)) = Some (st', n) \<and> length ts \<le> n"
      using find by (intro allI)
  qed (rule p parts need)+
qed

text \<open>\<open>common_prefix_len\<close> is the greatest length at which the two lists agree.\<close>

definition agree_upto :: "tokens \<Rightarrow> tokens \<Rightarrow> nat \<Rightarrow> bool" where
  "agree_upto xs ys k \<longleftrightarrow> k \<le> length xs \<and> k \<le> length ys \<and> take k xs = take k ys"

lemma common_prefix_len_agrees: "agree_upto xs ys (common_prefix_len xs ys)"
  by (induction xs ys rule: common_prefix_len.induct) (auto simp: agree_upto_def)

lemma common_prefix_len_greatest: "agree_upto xs ys k \<Longrightarrow> k \<le> common_prefix_len xs ys"
proof (induction xs ys arbitrary: k rule: common_prefix_len.induct)
  case (1 x xs y ys)
  then show ?case by (cases k) (auto simp: agree_upto_def)
qed (auto simp: agree_upto_def)

lemma common_prefix_len_iff:
  "n = common_prefix_len xs ys \<longleftrightarrow> agree_upto xs ys n \<and> (\<forall>k. agree_upto xs ys k \<longrightarrow> k \<le> n)"
  using common_prefix_len_agrees common_prefix_len_greatest by (metis le_antisym)

lemma hits_iff: "hits model ts (m, e) \<longleftrightarrow> m = model \<and> (\<exists>t rest. ts = en_tokens e @ t # rest)"
proof
  let ?n = "length (en_tokens e)"
  assume "hits model ts (m, e)"
  then have m: "m = model" and n: "?n < length ts" "take ?n ts = en_tokens e"
    by (simp_all add: hits_def begins_with_def)
  obtain t rest where "drop ?n ts = t # rest" using n(1) by (cases "drop ?n ts") auto
  with append_take_drop_id [of ?n ts] n(2) have "ts = en_tokens e @ t # rest" by simp
  with m show "m = model \<and> (\<exists>t rest. ts = en_tokens e @ t # rest)" by blast
qed (auto simp: hits_def begins_with_def)

lemma covered_less: "0 < n \<Longrightarrow> covered c model ts < n \<longleftrightarrow>
    (\<forall>x \<in> set (pc_entries c). hits model ts x \<longrightarrow> length (en_tokens (snd x)) < n)"
proof -
  assume n: "0 < n"
  let ?xs = "map (\<lambda>(_, e). length (en_tokens e)) (filter (hits model ts) (pc_entries c))"
  have "covered c model ts < n \<longleftrightarrow> (\<forall>k \<in> set ?xs. k < n)"
  proof (cases "max_by_key id ?xs")
    case None
    with n show ?thesis by (simp add: covered_def max_by_key_None)
  next
    case (Some m)
    have "m \<in> set ?xs \<and> (\<forall>k \<in> set ?xs. k \<le> m)" using max_by_key_Some [OF Some] unfolding id_apply .
    moreover have "covered c model ts = m" by (simp only: covered_def Some option.case)
    ultimately show ?thesis by (meson le_less_trans)
  qed
  then show ?thesis by (auto simp: split_beta)
qed

lemma boundary_for_Some:
  "snd (boundary_for c model ts) = Some n \<longleftrightarrow> enabled c \<and>
      (\<exists>prev. pc_last_prompt c model = Some prev \<and> n = common_prefix_len prev ts \<and> 512 \<le> n
         \<and> (\<forall>x \<in> set (pc_entries c). hits model ts x \<longrightarrow> length (en_tokens (snd x)) < n))"
proof (cases "pc_last_prompt c model")
  case None
  then show ?thesis by (simp add: boundary_for_def)
next
  case (Some prev)
  have cov: "covered (c\<lparr>pc_last_prompt := l\<rparr>) model ts = covered c model ts" for l by (simp add: covered_def)
  show ?thesis
  proof (cases "common_prefix_len prev ts < 512")
    case True
    with Some show ?thesis by (auto simp: boundary_for_def MIN_PREFIX_TOKENS_def)
  next
    case False
    then have "0 < common_prefix_len prev ts" by simp
    with False Some show ?thesis
      by (auto simp: boundary_for_def MIN_PREFIX_TOKENS_def cov covered_less split: if_splits)
  qed
qed

text \<open>C30. A snapshot of a prompt is suggested, while the cache is on, exactly where the prompt and the one before it
  for the same model stop agreeing: at the greatest length to which both run and are equal, when that is at least
  512 tokens and more than every entry of the model holds that the prompt goes on from. Every prompt is remembered
  while the cache is on, and nothing else changes; a cache that is off suggests and remembers nothing.\<close>

theorem boundary_is_common_prefix:
  "(snd (boundary_for c model ts) = Some n \<longleftrightarrow> enabled c \<and>
      (\<exists>prev. pc_last_prompt c model = Some prev
         \<and> n \<le> length prev \<and> n \<le> length ts \<and> take n prev = take n ts
         \<and> (\<forall>k. k \<le> length prev \<and> k \<le> length ts \<and> take k prev = take k ts \<longrightarrow> k \<le> n)
         \<and> 512 \<le> n
         \<and> (\<forall>e t rest. (model, e) \<in> set (pc_entries c) \<and> ts = en_tokens e @ t # rest \<longrightarrow> length (en_tokens e) < n)))
    \<and> fst (boundary_for c model ts)
        = (if enabled c then c\<lparr>pc_last_prompt := (pc_last_prompt c)(model \<mapsto> ts)\<rparr> else c)"
proof
  have "(\<forall>x \<in> set (pc_entries c). hits model ts x \<longrightarrow> length (en_tokens (snd x)) < n)
      \<longleftrightarrow> (\<forall>e t rest. (model, e) \<in> set (pc_entries c) \<and> ts = en_tokens e @ t # rest \<longrightarrow> length (en_tokens e) < n)"
    by (fastforce simp: hits_iff)
  then show "snd (boundary_for c model ts) = Some n \<longleftrightarrow> enabled c \<and>
      (\<exists>prev. pc_last_prompt c model = Some prev
         \<and> n \<le> length prev \<and> n \<le> length ts \<and> take n prev = take n ts
         \<and> (\<forall>k. k \<le> length prev \<and> k \<le> length ts \<and> take k prev = take k ts \<longrightarrow> k \<le> n)
         \<and> 512 \<le> n
         \<and> (\<forall>e t rest. (model, e) \<in> set (pc_entries c) \<and> ts = en_tokens e @ t # rest \<longrightarrow> length (en_tokens e) < n))"
    unfolding boundary_for_Some common_prefix_len_iff agree_upto_def by (simp only: conj_assoc)
  show "fst (boundary_for c model ts)
      = (if enabled c then c\<lparr>pc_last_prompt := (pc_last_prompt c)(model \<mapsto> ts)\<rparr> else c)"
    by (simp add: boundary_for_def Let_def split: option.split)
qed

section \<open>Witnesses\<close>

definition demo_cache :: "string prefix_cache" where
  "demo_cache = put (put (cache_new 10) ''m'' [1] ''s1'' 6) ''m'' [2] ''s2'' 4"

lemma demo_reach: "cache_reach 10 demo_cache"
  unfolding demo_cache_def by (intro cache_reach.intros)

lemma evict_fits: "sat_add (used_bytes es) bytes \<le> b \<Longrightarrow> evict b bytes es = es"
  by (simp add: evict.simps [of b bytes es])

lemma demo_entries: "pc_entries demo_cache =
   [(''m'', \<lparr>en_tokens = [1], en_state = ''s1'', en_bytes = 6, en_used = 1\<rparr>),
    (''m'', \<lparr>en_tokens = [2], en_state = ''s2'', en_bytes = 4, en_used = 2\<rparr>)]"
  by (simp add: demo_cache_def put_def cache_new_def enabled_def sat_add_def U64_MAX_def Let_def begins_with_def
      evict_fits used_bytes_def)

theorem cache_within_budget_witness: "used_bytes (pc_entries demo_cache) \<le> 10"
  using cache_within_budget [OF demo_reach] by (simp add: U64_MAX_def)

theorem longest_prefix_longest_witness:
  "\<exists>st n. snd (longest_prefix demo_cache ''m'' [1, 5]) = Some (st, n) \<and> n < 2"
proof -
  obtain c' r where l: "longest_prefix demo_cache ''m'' [1, 5] = (c', r)" by fastforce
  note found = longest_prefix_longest [OF l]
  show ?thesis
  proof (cases r)
    case None
    with found show ?thesis by (simp add: demo_entries hits_def begins_with_def)
  next
    case (Some p)
    with found l show ?thesis by (auto split: prod.splits)
  qed
qed

theorem put_evicts_lru_witness:
  "\<exists>kept. pc_entries (put demo_cache ''m'' [3] ''s3'' 5)
     = kept @ [(''m'', \<lparr>en_tokens = [3], en_state = ''s3'', en_bytes = 5, en_used = sat_add (pc_tick demo_cache) 1\<rparr>)]"
proof -
  have "could_store demo_cache 5"
    by (simp add: could_store_def enabled_def demo_cache_def put_def cache_new_def Let_def)
  with put_evicts_lru [OF demo_reach, of 5 "''m''" "[3]" "''s3''"] show ?thesis by (auto simp: U64_MAX_def)
qed

lemma agree_before_difference:
  "x \<noteq> y \<Longrightarrow> k \<le> Suc (length p) \<Longrightarrow> take k (p @ [x]) = take k (p @ [y]) \<Longrightarrow> k \<le> length p"
  by (cases "k = Suc (length p)") auto

theorem boundary_is_common_prefix_witness:
  "snd (boundary_for (fst (boundary_for (cache_new 10 :: string prefix_cache) ''m'' (replicate 512 1 @ [2]))) ''m''
     (replicate 512 1 @ [3])) = Some 512"
proof -
  define p :: tokens where "p = replicate 512 1"
  have p: "length p = 512" by (simp add: p_def)
  let ?c = "fst (boundary_for (cache_new 10 :: string prefix_cache) ''m'' (p @ [2]))"
  have c: "?c = (cache_new 10)\<lparr>pc_last_prompt := [''m'' \<mapsto> p @ [2]]\<rparr>"
    using boundary_is_common_prefix [of "cache_new 10 :: string prefix_cache" "''m''" "p @ [2]"]
    by (simp add: cache_new_def enabled_def)
  have "snd (boundary_for ?c ''m'' (p @ [3])) = Some 512"
    unfolding boundary_is_common_prefix [of ?c "''m''" "p @ [3]" 512, THEN conjunct1]
  proof (intro conjI exI [of _ "p @ [2]"] allI impI)
    fix k
    assume "k \<le> length (p @ [2]) \<and> k \<le> length (p @ [3]) \<and> take k (p @ [2]) = take k (p @ [3])"
    then have "k \<le> Suc (length p)" "take k (p @ [2]) = take k (p @ [3])" by simp_all
    from agree_before_difference [OF _ this] show "k \<le> 512" by (simp only: p) simp
  next
    show "take 512 (p @ [2]) = take 512 (p @ [3])" using p by simp
  qed (simp_all only: c, simp_all add: cache_new_def enabled_def p)
  then show ?thesis by (simp only: p_def)
qed

end
