(* ===== verification/Slot.thy ===== *)
theory Slot imports Prelude begin

text \<open>
  \<open>crates/rto-llama/src/slot.rs\<close>: the holders of native resources. An \<open>Arc\<close> is the identity of its
  allocation; the multiset of handles is every clone the slot has given out and nobody has dropped. Each
  operation runs under the slot's lock, so an execution is a sequence of whole operations.
\<close>

section \<open>The engine slot\<close>

datatype slot_state = Uninit | Absent | Ready nat

record engine_slot =
  es_state :: slot_state
  es_next :: nat
  es_handles :: "nat multiset"

definition slot_new :: engine_slot where
  "slot_new = \<lparr>es_state = Uninit, es_next = 0, es_handles = {#}\<rparr>"

text \<open>\<open>Arc::clone\<close> gives out one more handle; \<open>Arc::new\<close> allocates.\<close>

definition hand_out :: "nat \<Rightarrow> engine_slot \<Rightarrow> engine_slot" where
  "hand_out a w = w\<lparr>es_handles := add_mset a (es_handles w)\<rparr>"

definition install :: "engine_slot \<Rightarrow> engine_slot \<times> nat" where
  "install w = (let a = es_next w in (hand_out a (w\<lparr>es_state := Ready a, es_next := Suc a\<rparr>), a))"

text \<open>\<open>init\<close> is given by what it returns: whether it finds the engine, or the error it fails with.\<close>

definition get_or_init :: "bool \<Rightarrow> engine_slot \<Rightarrow> engine_slot \<times> nat option" where
  "get_or_init init w =
     (case es_state w of
        Ready a \<Rightarrow> (hand_out a w, Some a)
      | Absent \<Rightarrow> (w, None)
      | Uninit \<Rightarrow> if \<not> init then (w\<lparr>es_state := Absent\<rparr>, None)
                  else (case install w of (w', a) \<Rightarrow> (w', Some a)))"

definition get_or_try_init :: "'e option \<Rightarrow> engine_slot \<Rightarrow> engine_slot \<times> ('e + nat)" where
  "get_or_try_init failure w =
     (case es_state w of
        Ready a \<Rightarrow> (hand_out a w, Ok a)
      | _ \<Rightarrow> (case failure of
            Some e \<Rightarrow> (w, Err e)
          | None \<Rightarrow> (case install w of (w', a) \<Rightarrow> (w', Ok a))))"

definition release :: "engine_slot \<Rightarrow> engine_slot \<times> bool" where
  "release w = (w\<lparr>es_state := Uninit\<rparr>, (case es_state w of Ready _ \<Rightarrow> True | _ \<Rightarrow> False))"

text \<open>\<open>Arc::try_unwrap\<close> succeeds when the slot's handle is the only one.\<close>

definition release_if_unshared :: "engine_slot \<Rightarrow> engine_slot \<times> bool" where
  "release_if_unshared w =
     (case es_state w of
        Ready a \<Rightarrow> if a \<in># es_handles w then (w\<lparr>es_state := Ready a\<rparr>, False)
                   else (w\<lparr>es_state := Uninit\<rparr>, True)
      | _ \<Rightarrow> (w\<lparr>es_state := Uninit\<rparr>, False))"

definition drop_handle :: "nat \<Rightarrow> engine_slot \<Rightarrow> engine_slot" where
  "drop_handle a w = w\<lparr>es_handles := es_handles w - {#a#}\<rparr>"

definition resident :: "engine_slot \<Rightarrow> nat set" where
  "resident w = (case es_state w of Ready a \<Rightarrow> {a} | _ \<Rightarrow> {})"

definition live :: "engine_slot \<Rightarrow> nat set" where
  "live w = set_mset (es_handles w) \<union> resident w"

text \<open>What can happen to a slot; \<open>unshared\<close> says whether plain \<open>release\<close> is among it.\<close>

inductive slot_step :: "bool \<Rightarrow> engine_slot \<Rightarrow> engine_slot \<Rightarrow> bool" for unshared where
  init: "slot_step unshared w (fst (get_or_init init w))"
| try_init: "slot_step unshared w (fst (get_or_try_init (failure :: string option) w))"
| rel: "\<not> unshared \<Longrightarrow> slot_step unshared w (fst (release w))"
| rel_unshared: "slot_step unshared w (fst (release_if_unshared w))"
| dropped: "a \<in># es_handles w \<Longrightarrow> slot_step unshared w (drop_handle a w)"

inductive_cases slot_stepE: "slot_step unshared w w'"

abbreviation slot_reach :: "bool \<Rightarrow> engine_slot \<Rightarrow> bool" where
  "slot_reach unshared \<equiv> (slot_step unshared)\<^sup>*\<^sup>* slot_new"

definition fresh_ok :: "engine_slot \<Rightarrow> bool" where
  "fresh_ok w \<longleftrightarrow> (\<forall>a \<in> live w. a < es_next w)"

lemmas slot_defs = get_or_init_def get_or_try_init_def release_def release_if_unshared_def drop_handle_def
  install_def hand_out_def live_def resident_def Let_def

lemma slot_step_fresh: "slot_step u w w' \<Longrightarrow> fresh_ok w \<Longrightarrow> fresh_ok w'"
  by (erule slot_stepE; cases "es_state w") (auto simp: fresh_ok_def slot_defs split: option.splits dest: in_diffD)

lemma slot_reach_fresh: "slot_reach u w \<Longrightarrow> fresh_ok w"
proof (induction rule: rtranclp_induct)
  case base
  show ?case by (simp add: fresh_ok_def slot_new_def live_def resident_def)
qed (erule (1) slot_step_fresh)

text \<open>When nothing releases a shared engine, every handle is of the resident one.\<close>

definition single :: "engine_slot \<Rightarrow> bool" where
  "single w \<longleftrightarrow> set_mset (es_handles w) \<subseteq> resident w"

lemma slot_step_single: "slot_step True w w' \<Longrightarrow> single w \<Longrightarrow> single w'"
proof (induction rule: slot_step.induct)
  case (dropped a w)
  have "set_mset (es_handles w - {#a#}) \<subseteq> set_mset (es_handles w)" by (auto dest: in_diffD)
  with dropped show ?case by (auto simp: single_def drop_handle_def resident_def)
next
  case (rel_unshared w)
  then show ?case by (cases "es_state w") (auto simp: single_def release_if_unshared_def resident_def)
next
  case (init w i)
  then show ?case
    by (cases "es_state w") (simp_all add: single_def get_or_init_def install_def hand_out_def Let_def resident_def)
next
  case (try_init w failure)
  then show ?case by (cases "es_state w"; cases failure)
    (simp_all add: single_def get_or_try_init_def install_def hand_out_def Let_def resident_def)
qed simp

lemma one_engine_alive_parts:
  assumes "slot_reach True w"
  shows "card (live w) \<le> 1"
    and "es_next w \<notin> live w"
    and "snd (release_if_unshared w) \<Longrightarrow> live (fst (release_if_unshared w)) = {}"
    and "a \<in># es_handles w \<Longrightarrow>
           fst (release_if_unshared w) = w \<and> \<not> snd (release_if_unshared w) \<and> snd (get_or_init init w) = Some a"
proof -
  have s: "single w"
    using assms
  proof (induction rule: rtranclp_induct)
    case base
    show ?case by (simp add: single_def slot_new_def)
  qed (erule (1) slot_step_single)
  then have "live w = resident w" by (auto simp: single_def live_def)
  then show "card (live w) \<le> 1" by (cases "es_state w") (simp_all add: resident_def)
  show "es_next w \<notin> live w" using slot_reach_fresh [OF assms] by (auto simp: fresh_ok_def)
  show "snd (release_if_unshared w) \<Longrightarrow> live (fst (release_if_unshared w)) = {}"
    using s by (cases "es_state w") (auto simp: single_def release_if_unshared_def live_def resident_def split: if_splits)
  assume a: "a \<in># es_handles w"
  with s have "es_state w = Ready a" by (cases "es_state w") (auto simp: single_def resident_def)
  with a show "fst (release_if_unshared w) = w \<and> \<not> snd (release_if_unshared w) \<and> snd (get_or_init init w) = Some a"
    by (simp add: release_if_unshared_def get_or_init_def)
qed

text \<open>C31. A slot that is released only when it is unshared never has two engines alive: every handle anybody still
  holds is of the resident engine, so a second one is not loaded while the first is in use;
  a new engine never takes the identity of one alive. Once
  \<open>release_if_unshared\<close> answers that it destroyed the engine nothing is alive; while somebody holds a handle it
  destroys nothing and the next caller gets the same engine.\<close>

theorem one_engine_alive:
  assumes "slot_reach True w"
  shows "card (live w) \<le> 1 \<and> es_next w \<notin> live w
    \<and> (snd (release_if_unshared w) \<longrightarrow> live (fst (release_if_unshared w)) = {})
    \<and> (\<forall>a init. a \<in># es_handles w \<longrightarrow>
           fst (release_if_unshared w) = w \<and> \<not> snd (release_if_unshared w) \<and> snd (get_or_init init w) = Some a)"
  using one_engine_alive_parts [OF assms] by blast

section \<open>The keyed slot\<close>

record ('k, 't) keyed_slot =
  ks_entries :: "('k \<times> 't) list"

definition keyed_new :: "('k, 't) keyed_slot" where
  "keyed_new = \<lparr>ks_entries = []\<rparr>"

definition keyed_release :: "('k, 't) keyed_slot \<Rightarrow> ('k, 't) keyed_slot \<times> nat" where
  "keyed_release w = (w\<lparr>ks_entries := []\<rparr>, length (ks_entries w))"

definition keyed_get_or_try_init :: "'k \<Rightarrow> 'e + 't \<Rightarrow> ('k, 't) keyed_slot \<Rightarrow> ('k, 't) keyed_slot \<times> ('e + 't)" where
  "keyed_get_or_try_init key init w =
     (case List.find (\<lambda>(k, _). k = key) (ks_entries w) of
        Some (_, resource) \<Rightarrow> (w, Ok resource)
      | None \<Rightarrow> (case init of
            Err e \<Rightarrow> (w, Err e)
          | Ok resource \<Rightarrow> (w\<lparr>ks_entries := ks_entries w @ [(key, resource)]\<rparr>, Ok resource)))"

fun keyed_run :: "('k \<times> ('e + 't)) list \<Rightarrow> ('k, 't) keyed_slot \<Rightarrow> ('k, 't) keyed_slot" where
  "keyed_run [] w = w"
| "keyed_run ((k, init) # calls) w = keyed_run calls (fst (keyed_get_or_try_init k init w))"

lemma find_key: "List.find (\<lambda>(k, _). k = key) es = map_option (Pair key) (map_of es key)"
  by (induction es) auto

lemma map_of_snoc: "map_of es key = None \<Longrightarrow> map_of (es @ [(key, r)]) = (map_of es)(key \<mapsto> r)"
  by (induction es) (auto simp: fun_eq_iff split: if_splits)

lemma keyed_result:
  "snd (keyed_get_or_try_init key init w) = (case map_of (ks_entries w) key of Some r \<Rightarrow> Ok r | None \<Rightarrow> init)"
  by (cases "map_of (ks_entries w) key"; cases init) (simp_all add: keyed_get_or_try_init_def find_key)

lemma keyed_map:
  "map_of (ks_entries (fst (keyed_get_or_try_init key init w)))
     = (case (map_of (ks_entries w) key, init) of (None, Ok r) \<Rightarrow> (map_of (ks_entries w))(key \<mapsto> r) | _ \<Rightarrow> map_of (ks_entries w))"
  by (cases "map_of (ks_entries w) key"; cases init) (simp_all add: keyed_get_or_try_init_def find_key map_of_snoc del: map_of_append)

text \<open>The resources the successful initialisers of \<open>calls\<close> made for one key, in order.\<close>

fun made :: "'k \<Rightarrow> ('k \<times> ('e + 't)) list \<Rightarrow> 't list" where
  "made key [] = []"
| "made key ((k, Ok r) # calls) = (if k = key then [r] else []) @ made key calls"
| "made key ((k, Err e) # calls) = made key calls"

lemma made_set: "made key calls \<noteq> [] \<longleftrightarrow> key \<in> {k. \<exists>r. (k, Ok r) \<in> set calls}"
  by (induction key calls rule: made.induct) auto

lemma keyed_run_map:
  "map_of (ks_entries (keyed_run calls w)) key
     = (case map_of (ks_entries w) key of Some r \<Rightarrow> Some r | None \<Rightarrow> (case made key calls of [] \<Rightarrow> None | r # _ \<Rightarrow> Some r))"
proof (induction calls w rule: keyed_run.induct)
  case (2 k init calls w)
  then show ?case
    by (cases init) (auto simp: keyed_map split: option.split list.split)
qed (simp split: option.split)

lemma keyed_distinct:
  "distinct (map fst (ks_entries w)) \<Longrightarrow> distinct (map fst (ks_entries (fst (keyed_get_or_try_init key init w))))"
  by (auto simp: keyed_get_or_try_init_def find_key map_of_eq_None_iff split: option.splits sum.splits)

lemma keyed_run_distinct:
  "distinct (map fst (ks_entries w)) \<Longrightarrow> distinct (map fst (ks_entries (keyed_run calls w)))"
  by (induction calls w rule: keyed_run.induct) (auto dest: keyed_distinct)

lemma keyed_count:
  "length (ks_entries (keyed_run calls keyed_new)) = card {k. \<exists>r. (k, Ok r) \<in> set calls}"
proof -
  let ?es = "ks_entries (keyed_run calls keyed_new)"
  have "k \<in> fst ` set ?es \<longleftrightarrow> k \<in> {k. \<exists>r. (k, Ok r) \<in> set calls}" for k
  proof -
    have "k \<in> fst ` set ?es \<longleftrightarrow> map_of ?es k \<noteq> None" by (simp add: map_of_eq_None_iff)
    also have "\<dots> \<longleftrightarrow> made k calls \<noteq> []" by (simp add: keyed_run_map keyed_new_def split: list.split)
    finally show ?thesis by (simp add: made_set)
  qed
  then have "set (map fst ?es) = {k. \<exists>r. (k, Ok r) \<in> set calls}" by auto
  then show ?thesis
    using distinct_card [OF keyed_run_distinct [of keyed_new calls]] by (simp add: keyed_new_def)
qed

text \<open>C32. One resource per key, built once: after any history of requests for any keys since the slot was new (or
  was last released, which leaves it as new and reports how many keys had been built), a request for a key is
  answered with the resource the first successful initialiser \<^emph>\<open>of that key\<close> made, whatever was asked of other keys
  and whatever its own initialiser would return; with its own initialiser's result, failure included, when none has
  succeeded yet for that key. A failure is handed to its caller and remembered by nobody: it appears in no later
  answer and in no count.\<close>

theorem keyed_built_once:
  "snd (keyed_get_or_try_init key init (keyed_run calls keyed_new))
       = (case made key calls of [] \<Rightarrow> init | r # _ \<Rightarrow> Ok r)
    \<and> keyed_release (keyed_run calls keyed_new) = (keyed_new, card {k. \<exists>r. (k, Ok r) \<in> set calls})
    \<and> fst (keyed_get_or_try_init key (Err e) (keyed_run calls keyed_new)) = keyed_run calls keyed_new"
proof (intro conjI)
  show "snd (keyed_get_or_try_init key init (keyed_run calls keyed_new))
       = (case made key calls of [] \<Rightarrow> init | r # _ \<Rightarrow> Ok r)"
    by (simp add: keyed_result keyed_run_map) (simp add: keyed_new_def split: list.split)
  show "keyed_release (keyed_run calls keyed_new) = (keyed_new, card {k. \<exists>r. (k, Ok r) \<in> set calls})"
    by (simp add: keyed_release_def keyed_count) (simp add: keyed_new_def)
qed (simp add: keyed_get_or_try_init_def split: option.split prod.split)

section \<open>Witnesses\<close>

definition shared_slot :: engine_slot where
  "shared_slot = fst (get_or_init True slot_new)"

theorem one_engine_alive_witness:
  "snd (get_or_init False (fst (release_if_unshared shared_slot))) = Some 0
    \<and> live (fst (release_if_unshared (drop_handle 0 shared_slot))) = {}"
proof -
  have h: "0 \<in># es_handles shared_slot" by (simp add: shared_slot_def slot_new_def slot_defs)
  have r: "slot_reach True shared_slot" unfolding shared_slot_def by (blast intro: slot_step.intros)
  then have r': "slot_reach True (drop_handle 0 shared_slot)" using h by (meson rtranclp.rtrancl_into_rtrancl slot_step.dropped)
  have "snd (release_if_unshared (drop_handle 0 shared_slot))" by (simp add: shared_slot_def slot_new_def slot_defs)
  with one_engine_alive [OF r'] one_engine_alive [OF r] h show ?thesis by metis
qed

end
