(* ===== verification/KeyedTable.thy ===== *)
theory KeyedTable imports Prelude begin

text \<open>
  What the artifact tables promise their callers: a write of a key replaces what the key had and touches
  nothing else, or is refused and touches nothing; a deletion removes the key alone. \<open>view\<close> is what reading
  the table gives, \<open>legal\<close> the values the program's types admit, \<open>valid\<close> those the table accepts, and
  \<open>stored\<close> how a value comes back.
\<close>

datatype ('k, 'v) request = Put 'k 'v | Del 'k

locale keyed_table =
  fixes ok :: "'db \<Rightarrow> bool"
    and view :: "'db \<Rightarrow> 'k \<Rightarrow> 'v option"
    and put :: "'db \<Rightarrow> 'k \<Rightarrow> 'v \<Rightarrow> 'db option"
    and del :: "'db \<Rightarrow> 'k \<Rightarrow> 'db"
    and legal :: "'v \<Rightarrow> bool"
    and valid :: "'v \<Rightarrow> bool"
    and stored :: "'k \<Rightarrow> 'v \<Rightarrow> 'v"
  assumes put_valid: "ok db \<Longrightarrow> legal v \<Longrightarrow> valid v \<Longrightarrow>
      \<exists>db'. put db k v = Some db' \<and> ok db' \<and> view db' = (view db)(k \<mapsto> stored k v)"
    and put_invalid: "ok db \<Longrightarrow> legal v \<Longrightarrow> \<not> valid v \<Longrightarrow> put db k v = None"
    and del_ok: "ok db \<Longrightarrow> ok (del db k) \<and> view (del db k) = (view db)(k := None)"
begin

text \<open>A request that is refused leaves the table as it was.\<close>

fun serve :: "'db \<Rightarrow> ('k, 'v) request \<Rightarrow> 'db" where
  "serve db (Put k v) = (case put db k v of Some db' \<Rightarrow> db' | None \<Rightarrow> db)"
| "serve db (Del k) = del db k"

fun effect :: "('k \<Rightarrow> 'v option) \<Rightarrow> ('k, 'v) request \<Rightarrow> ('k \<Rightarrow> 'v option)" where
  "effect m (Put k v) = (if valid v then m(k \<mapsto> stored k v) else m)"
| "effect m (Del k) = m(k := None)"

fun legal_request :: "('k, 'v) request \<Rightarrow> bool" where
  "legal_request (Put k v) = legal v"
| "legal_request (Del k) = True"

fun key_of_request :: "('k, 'v) request \<Rightarrow> 'k" where
  "key_of_request (Put k v) = k"
| "key_of_request (Del k) = k"

lemma serve_ok: "ok db \<Longrightarrow> legal_request r \<Longrightarrow> ok (serve db r) \<and> view (serve db r) = effect (view db) r"
proof (cases r)
  case (Put k v)
  assume "ok db" "legal_request r"
  with Put put_valid [of db v k] put_invalid [of db v k] show ?thesis by (cases "valid v") auto
qed (simp add: del_ok)

text \<open>The table refines the map: the requests' effects on the view are their effects on a map.\<close>

lemma history:
  "ok db \<Longrightarrow> list_all legal_request rs \<Longrightarrow>
     ok (foldl serve db rs) \<and> view (foldl serve db rs) = foldl effect (view db) rs"
proof (induction rs arbitrary: db)
  case (Cons r rs)
  with serve_ok [OF Cons.prems(1), of r] show ?case by simp
qed simp

lemma effect_other: "k \<noteq> key_of_request r \<Longrightarrow> effect m r k = m k"
  by (cases r) auto

lemma untouched:
  assumes "ok db" "list_all legal_request rs" "k \<notin> key_of_request ` set rs"
  shows "view (foldl serve db rs) k = view db k"
proof -
  have "k \<notin> key_of_request ` set rs \<Longrightarrow> foldl effect m rs k = m k" for m
    by (induction rs arbitrary: m) (auto simp: effect_other)
  with assms show ?thesis by (simp add: history)
qed

text \<open>The last accepted write of a key is what a reader finds, whatever was asked of other keys since.\<close>

lemma last_write:
  assumes "ok db" "list_all legal_request (earlier @ Put k v # later)" "valid v" "k \<notin> key_of_request ` set later"
  shows "view (foldl serve db (earlier @ Put k v # later)) k = Some (stored k v)"
proof -
  from assms(2) have l: "list_all legal_request earlier" "legal_request (Put k v)" "list_all legal_request later"
    by simp_all
  have o: "ok (foldl serve db earlier)" using history [OF assms(1) l(1)] by simp
  with serve_ok [OF o l(2)] untouched [OF _ l(3) assms(4)] assms(3) show ?thesis by simp
qed

end

end
