(* ===== verification/Findings.thy ===== *)
theory Findings imports Model Strings KeyedTable begin

text \<open>
  \<open>crates/rto-graph/src/findings.rs\<close>: analyzer findings. The identity of a finding and its escaped text,
  the vocabulary of a run, and the two tables \<open>analysis_runs\<close> and \<open>findings\<close> (migration 8) with every
  operation over them. A JSON column holds the value it encodes; \<open>ingested_at\<close>, which nothing reads, is
  left out. The functions take the tables and return an error or the new tables, which is the transaction
  the store wraps around them.
\<close>

section \<open>Vocabulary\<close>

definition SECURITY_LAYER_PREFIX :: string where "SECURITY_LAYER_PREFIX = ''security''"

definition FINDING_KEY_PREFIX :: string where "FINDING_KEY_PREFIX = ''finding''"

definition MAX_IDENTITY_PART :: nat where "MAX_IDENTITY_PART = 512"

definition MAX_ANALYZER_ID :: nat where "MAX_ANALYZER_ID = 64"

text \<open>The text of a \<open>MalformedKey\<close> says which of four things is wrong with which key.\<close>

datatype malformed = DanglingEscape | NotAFinding | NoAnalyzer | NoComponent

datatype findings_error =
    InvalidAnalyzerId string
  | InvalidWorktreeId string
  | EmptyIdentity
  | InvalidIdentityPart string
  | MalformedKey malformed string

datatype runner_kind = RunIngested | Subprocess | Sandboxed

definition runner_as_str :: "runner_kind \<Rightarrow> string" where
  "runner_as_str r = (case r of RunIngested \<Rightarrow> ''ingested'' | Subprocess \<Rightarrow> ''subprocess'' | Sandboxed \<Rightarrow> ''sandboxed'')"

definition runner_from_token :: "string \<Rightarrow> runner_kind option" where
  "runner_from_token s =
     (if s = ''ingested'' then Some RunIngested else if s = ''subprocess'' then Some Subprocess
      else if s = ''sandboxed'' then Some Sandboxed else None)"

datatype isolation = IsoIngested | MicroVm | IsoNone

definition isolation_as_str :: "isolation \<Rightarrow> string" where
  "isolation_as_str i = (case i of IsoIngested \<Rightarrow> ''ingested'' | MicroVm \<Rightarrow> ''microvm'' | IsoNone \<Rightarrow> ''none'')"

definition isolation_from_token :: "string \<Rightarrow> isolation option" where
  "isolation_from_token s =
     (if s = ''ingested'' then Some IsoIngested else if s = ''microvm'' then Some MicroVm
      else if s = ''none'' then Some IsoNone else None)"

datatype network_policy = Deny

datatype worktree_access = ReadOnly | ReadWrite

datatype environment_policy = Scrubbed | Inherited

record command_policy =
  cp_network :: network_policy
  cp_worktree :: worktree_access
  cp_environment :: environment_policy

record advisory_db =
  ad_digest :: string
  ad_published_at :: "string option"

record source_identity =
  si_commit :: "string option"
  si_tree :: "string option"
  si_lockfile_blob :: "string option"

datatype severity = Critical | High | Medium | Low | Info | SevOther string

definition severity_as_str :: "severity \<Rightarrow> string" where
  "severity_as_str s = (case s of Critical \<Rightarrow> ''critical'' | High \<Rightarrow> ''high'' | Medium \<Rightarrow> ''medium''
     | Low \<Rightarrow> ''low'' | Info \<Rightarrow> ''info'' | SevOther t \<Rightarrow> t)"

definition severity_from_token :: "string \<Rightarrow> severity" where
  "severity_from_token s =
     (if s = ''critical'' then Critical else if s = ''high'' then High else if s = ''medium'' then Medium
      else if s = ''low'' then Low else if s = ''info'' then Info else SevOther s)"

lemmas token_defs = runner_as_str_def runner_from_token_def isolation_as_str_def isolation_from_token_def
  severity_as_str_def severity_from_token_def

lemma runner_roundtrip [simp]: "runner_from_token (runner_as_str r) = Some r"
  by (cases r) (simp_all add: token_defs)

lemma isolation_roundtrip [simp]: "isolation_from_token (isolation_as_str i) = Some i"
  by (cases i) (simp_all add: token_defs)

lemma severity_norm [simp]: "severity_from_token (severity_as_str (severity_from_token s)) = severity_from_token s"
  by (auto simp: token_defs)

section \<open>Identifiers\<close>

definition is_ascii_lowercase :: "char \<Rightarrow> bool" where
  "is_ascii_lowercase b \<longleftrightarrow> 97 \<le> (of_char b :: nat) \<and> (of_char b :: nat) \<le> 122"

definition worktree_id_new :: "string \<Rightarrow> findings_error + string" where
  "worktree_id_new raw =
     (if raw \<noteq> [] \<and> length raw \<le> 64
         \<and> list_all (\<lambda>b. is_ascii_lowercase b \<or> is_ascii_digit b \<or> b = CHR ''-'') raw
      then Ok raw else Err (InvalidWorktreeId raw))"

text \<open>A character that is not ASCII has more than one byte.\<close>

definition is_analyzer_id_char :: "string \<Rightarrow> bool" where
  "is_analyzer_id_char c = (case c of
      [b] \<Rightarrow> is_ascii_lowercase b \<or> is_ascii_digit b \<or> b = CHR ''.'' \<or> b = CHR ''_'' \<or> b = CHR ''-''
    | _ \<Rightarrow> False)"

definition is_valid_analyzer_id :: "string \<Rightarrow> bool" where
  "is_valid_analyzer_id i \<longleftrightarrow> i \<noteq> [] \<and> length i \<le> MAX_ANALYZER_ID \<and> list_all is_analyzer_id_char (chars i)"

definition layer_key :: "string \<Rightarrow> string \<Rightarrow> findings_error + string" where
  "layer_key analyzer worktree =
     (if \<not> is_valid_analyzer_id analyzer then Err (InvalidAnalyzerId analyzer)
      else Ok (SECURITY_LAYER_PREFIX @ '':'' @ analyzer @ '':'' @ worktree))"

section \<open>Finding keys\<close>

record finding_key =
  fk_analyzer :: string
  fk_parts :: "string list"

text \<open>\<open>char::is_control\<close>: the general category Cc, as UTF-8.\<close>

definition is_control :: "string \<Rightarrow> bool" where
  "is_control c = (case c of
      [b] \<Rightarrow> (of_char b :: nat) < 32 \<or> b = CHR 0x7F
    | [b, d] \<Rightarrow> b = CHR 0xC2 \<and> 128 \<le> (of_char d :: nat) \<and> (of_char d :: nat) < 160
    | _ \<Rightarrow> False)"

definition part_ok :: "string \<Rightarrow> bool" where
  "part_ok part \<longleftrightarrow> \<not> (part = [] \<or> MAX_IDENTITY_PART < length part \<or> list_ex is_control (chars part))"

definition finding_key_new :: "string \<Rightarrow> string list \<Rightarrow> findings_error + finding_key" where
  "finding_key_new analyzer parts =
     (if \<not> is_valid_analyzer_id analyzer then Err (InvalidAnalyzerId analyzer)
      else if parts = [] then Err EmptyIdentity
      else and_then (try_map (\<lambda>part. if part_ok part then Ok part else Err (InvalidIdentityPart part)) parts)
             (\<lambda>owned. Ok \<lparr>fk_analyzer = analyzer, fk_parts = owned\<rparr>))"

fun push_escaped :: "string \<Rightarrow> string \<Rightarrow> string" where
  "push_escaped out [] = out"
| "push_escaped out (ch # raw) =
     push_escaped ((if ch = CHR 0x5C \<or> ch = CHR '':'' then out @ [CHR 0x5C] else out) @ [ch]) raw"

definition render :: "finding_key \<Rightarrow> string" where
  "render k = foldl (\<lambda>out part. push_escaped (out @ '':'') part)
     (push_escaped (FINDING_KEY_PREFIX @ '':'') (fk_analyzer k)) (fk_parts k)"

text \<open>\<open>None\<close> is the dangling escape.\<close>

fun split_escaped :: "string \<Rightarrow> string \<Rightarrow> string list option" where
  "split_escaped [] current = Some [current]"
| "split_escaped [ch] current =
     (if ch = CHR 0x5C then None
      else if ch = CHR '':'' then Some [current, []] else Some [current @ [ch]])"
| "split_escaped (ch # ch' # rest) current =
     (if ch = CHR 0x5C then split_escaped rest (current @ [ch'])
      else if ch = CHR '':'' then map_option ((#) current) (split_escaped (ch' # rest) [])
      else split_escaped (ch' # rest) (current @ [ch]))"

definition parse_key :: "string \<Rightarrow> findings_error + finding_key" where
  "parse_key rendered =
     (case split_escaped rendered [] of
        None \<Rightarrow> Err (MalformedKey DanglingEscape rendered)
      | Some [] \<Rightarrow> Err (MalformedKey NotAFinding rendered)
      | Some (prefix # segments) \<Rightarrow>
          if prefix \<noteq> FINDING_KEY_PREFIX then Err (MalformedKey NotAFinding rendered)
          else case segments of
              [] \<Rightarrow> Err (MalformedKey NoAnalyzer rendered)
            | analyzer # parts \<Rightarrow>
                if parts = [] then Err (MalformedKey NoComponent rendered)
                else finding_key_new analyzer parts)"

section \<open>Runs and findings\<close>

record analysis_run =
  ar_layer :: string
  ar_analyzer :: string
  ar_analyzer_version :: string
  ar_runner :: runner_kind
  ar_isolation :: isolation
  ar_image_digest :: "string option"
  ar_rules_digest :: "string option"
  ar_advisory_db :: "advisory_db option"
  ar_command_policy :: command_policy
  ar_source :: source_identity
  ar_started_at :: string
  ar_ended_at :: string
  ar_exit_status :: "32 word"
  ar_report_digest :: string

record finding =
  fi_key :: finding_key
  fi_rule :: string
  fi_severity :: severity
  fi_title :: string
  fi_message :: string
  fi_path :: "string option"
  fi_span :: "node_span option"
  fi_meta :: json

type_synonym findings_layer = "analysis_run \<times> finding list"

record findings_applied =
  fa_layer :: string
  fa_findings :: nat
  fa_removed :: nat
  fa_replaced :: bool

section \<open>Tables\<close>

record run_row =
  rr_id :: nat
  rr_layer :: string
  rr_analyzer :: string
  rr_analyzer_version :: string
  rr_runner :: string
  rr_isolation :: string
  rr_image_digest :: "string option"
  rr_rules_digest :: "string option"
  rr_advisory_digest :: "string option"
  rr_advisory_published :: "string option"
  rr_command_policy :: command_policy
  rr_source_commit :: "string option"
  rr_source_tree :: "string option"
  rr_source_lockfile_blob :: "string option"
  rr_started_at :: string
  rr_ended_at :: string
  rr_exit_status :: "32 word"
  rr_report_digest :: string

record finding_row =
  fr_run_id :: nat
  fr_key :: string
  fr_rule :: string
  fr_severity :: string
  fr_title :: string
  fr_message :: string
  fr_path :: "string option"
  fr_span_start :: "u32 option"
  fr_span_end :: "u32 option"
  fr_meta :: json

record findings_db =
  runs_t :: "run_row list"
  findings_t :: "finding_row list"

text \<open>The constraints of the tables, and what reading a corrupt row raises.\<close>

datatype findings_store_error =
    CheckFailed
  | UniqueFailed
  | UnknownRunner string
  | UnknownIsolation string
  | StoredKey findings_error

definition run_id_of :: "findings_db \<Rightarrow> string \<Rightarrow> nat option" where
  "run_id_of db layer = map_option rr_id (List.find (\<lambda>r. rr_layer r = layer) (runs_t db))"

definition delete_run :: "nat \<Rightarrow> findings_db \<Rightarrow> findings_db" where
  "delete_run i db = db\<lparr>findings_t := filter (\<lambda>f. fr_run_id f \<noteq> i) (findings_t db),
                        runs_t := filter (\<lambda>r. rr_id r \<noteq> i) (runs_t db)\<rparr>"

definition owned_count :: "nat \<Rightarrow> findings_db \<Rightarrow> nat" where
  "owned_count i db = length (filter (\<lambda>f. fr_run_id f = i) (findings_t db))"

definition run_columns :: "analysis_run \<Rightarrow> nat \<Rightarrow> run_row" where
  "run_columns run i =
     \<lparr>rr_id = i, rr_layer = ar_layer run, rr_analyzer = ar_analyzer run,
      rr_analyzer_version = ar_analyzer_version run, rr_runner = runner_as_str (ar_runner run),
      rr_isolation = isolation_as_str (ar_isolation run), rr_image_digest = ar_image_digest run,
      rr_rules_digest = ar_rules_digest run,
      rr_advisory_digest = map_option ad_digest (ar_advisory_db run),
      rr_advisory_published = Option.bind (ar_advisory_db run) ad_published_at,
      rr_command_policy = ar_command_policy run, rr_source_commit = si_commit (ar_source run),
      rr_source_tree = si_tree (ar_source run), rr_source_lockfile_blob = si_lockfile_blob (ar_source run),
      rr_started_at = ar_started_at run, rr_ended_at = ar_ended_at run,
      rr_exit_status = ar_exit_status run, rr_report_digest = ar_report_digest run\<rparr>"

definition next_run_id :: "findings_db \<Rightarrow> nat" where
  "next_run_id db = Suc (fold max (map rr_id (runs_t db)) 0)"

definition finding_columns :: "finding \<Rightarrow> nat \<Rightarrow> finding_row" where
  "finding_columns f i =
     \<lparr>fr_run_id = i, fr_key = render (fi_key f), fr_rule = fi_rule f,
      fr_severity = severity_as_str (fi_severity f), fr_title = fi_title f, fr_message = fi_message f,
      fr_path = fi_path f, fr_span_start = map_option sp_start (fi_span f),
      fr_span_end = map_option sp_end (fi_span f), fr_meta = fi_meta f\<rparr>"

definition insert_finding_row :: "finding_row \<Rightarrow> finding_row list \<Rightarrow> findings_store_error + finding_row list" where
  "insert_finding_row r rows =
     (if (fr_span_start r = None) \<noteq> (fr_span_end r = None) then Err CheckFailed
      else if (case (fr_span_start r, fr_span_end r) of (Some a, Some b) \<Rightarrow> b < a | _ \<Rightarrow> False) then Err CheckFailed
      else if list_ex (\<lambda>r'. fr_run_id r' = fr_run_id r \<and> fr_key r' = fr_key r) rows then Err UniqueFailed
      else Ok (rows @ [r]))"

definition replace_layer ::
  "findings_db \<Rightarrow> analysis_run \<Rightarrow> finding list \<Rightarrow> findings_store_error + findings_db \<times> findings_applied" where
  "replace_layer db run findings =
     (let previous = run_id_of db (ar_layer run);
          removed = (case previous of Some i \<Rightarrow> owned_count i db | None \<Rightarrow> 0);
          db = (case previous of Some i \<Rightarrow> delete_run i db | None \<Rightarrow> db);
          run_id = next_run_id db;
          db = db\<lparr>runs_t := runs_t db @ [run_columns run run_id]\<rparr>
      in and_then (try_fold (\<lambda>rows f. insert_finding_row (finding_columns f run_id) rows) (findings_t db) findings)
           (\<lambda>rows. Ok (db\<lparr>findings_t := rows\<rparr>,
              \<lparr>fa_layer = ar_layer run, fa_findings = length findings, fa_removed = removed,
               fa_replaced = (previous \<noteq> None)\<rparr>)))"

definition delete_layer :: "findings_db \<Rightarrow> string \<Rightarrow> findings_db \<times> nat option" where
  "delete_layer db layer =
     (case run_id_of db layer of
        None \<Rightarrow> (db, None)
      | Some i \<Rightarrow> (delete_run i db, Some (owned_count i db)))"

definition run_from_row :: "run_row \<Rightarrow> findings_store_error + nat \<times> analysis_run" where
  "run_from_row r =
     (case runner_from_token (rr_runner r) of
        None \<Rightarrow> Err (UnknownRunner (rr_runner r))
      | Some runner \<Rightarrow>
          (case isolation_from_token (rr_isolation r) of
             None \<Rightarrow> Err (UnknownIsolation (rr_isolation r))
           | Some isolation \<Rightarrow> Ok (rr_id r,
               \<lparr>ar_layer = rr_layer r, ar_analyzer = rr_analyzer r,
                ar_analyzer_version = rr_analyzer_version r, ar_runner = runner, ar_isolation = isolation,
                ar_image_digest = rr_image_digest r, ar_rules_digest = rr_rules_digest r,
                ar_advisory_db = map_option (\<lambda>d. \<lparr>ad_digest = d, ad_published_at = rr_advisory_published r\<rparr>)
                                   (rr_advisory_digest r),
                ar_command_policy = rr_command_policy r,
                ar_source = \<lparr>si_commit = rr_source_commit r, si_tree = rr_source_tree r,
                             si_lockfile_blob = rr_source_lockfile_blob r\<rparr>,
                ar_started_at = rr_started_at r, ar_ended_at = rr_ended_at r,
                ar_exit_status = rr_exit_status r, ar_report_digest = rr_report_digest r\<rparr>)))"

definition finding_from_row :: "finding_row \<Rightarrow> findings_store_error + finding" where
  "finding_from_row r =
     (case parse_key (fr_key r) of
        Err e \<Rightarrow> Err (StoredKey e)
      | Ok key \<Rightarrow> Ok
          \<lparr>fi_key = key, fi_rule = fr_rule r, fi_severity = severity_from_token (fr_severity r),
           fi_title = fr_title r, fi_message = fr_message r, fi_path = fr_path r,
           fi_span = (case (fr_span_start r, fr_span_end r) of
               (Some start, Some end) \<Rightarrow> Some \<lparr>sp_start = start, sp_end = end\<rparr> | _ \<Rightarrow> None),
           fi_meta = fr_meta r\<rparr>)"

definition findings_for_run :: "findings_db \<Rightarrow> nat \<Rightarrow> findings_store_error + finding list" where
  "findings_for_run db i =
     try_map finding_from_row (sort_key fr_key (filter (\<lambda>f. fr_run_id f = i) (findings_t db)))"

definition layers :: "findings_db \<Rightarrow> string option \<Rightarrow> findings_store_error + findings_layer list" where
  "layers db analyzer =
     and_then (try_map run_from_row (sort_key rr_layer (filter (\<lambda>r. case analyzer of
          Some a \<Rightarrow> rr_analyzer r = a | None \<Rightarrow> True) (runs_t db))))
       (\<lambda>runs. try_map (\<lambda>(i, run). and_then (findings_for_run db i) (\<lambda>fs. Ok (run, fs))) runs)"

definition count_findings :: "findings_db \<Rightarrow> nat" where "count_findings db = length (findings_t db)"

definition count_runs :: "findings_db \<Rightarrow> nat" where "count_runs db = length (runs_t db)"

definition count_orphan_findings :: "findings_db \<Rightarrow> nat" where
  "count_orphan_findings db =
     length (filter (\<lambda>f. \<not> list_ex (\<lambda>r. rr_id r = fr_run_id f) (runs_t db)) (findings_t db))"

section \<open>The text of a key\<close>

lemma push_escaped_out: "push_escaped out raw = out @ push_escaped [] raw"
proof (induction raw arbitrary: out)
  case (Cons ch raw)
  show ?case
    by (simp only: push_escaped.simps Cons [of "(if ch = CHR 0x5C \<or> ch = CHR '':'' then out @ [CHR 0x5C] else out) @ [ch]"]
      Cons [of "(if ch = CHR 0x5C \<or> ch = CHR '':'' then [] @ [CHR 0x5C] else []) @ [ch]"]) simp
qed simp

abbreviation escaped :: "string \<Rightarrow> string" where "escaped \<equiv> push_escaped []"

lemma escaped_Cons:
  "escaped (ch # raw) = (if ch = CHR 0x5C \<or> ch = CHR '':'' then [CHR 0x5C, ch] else [ch]) @ escaped raw"
  by (subst push_escaped.simps(2), subst push_escaped_out) simp

lemma split_escaped_step:
  "split_escaped (CHR 0x5C # c # s) current = split_escaped s (current @ [c])"
  "split_escaped (CHR '':'' # s) current = map_option ((#) current) (split_escaped s [])"
  "c \<noteq> CHR 0x5C \<Longrightarrow> c \<noteq> CHR '':'' \<Longrightarrow> split_escaped (c # s) current = split_escaped s (current @ [c])"
  by (cases s; simp)+

lemma split_escaped_prefix: "split_escaped (escaped raw @ s) current = split_escaped s (current @ raw)"
proof (induction raw arbitrary: current)
  case (Cons c raw)
  then show ?case unfolding escaped_Cons by (auto simp: split_escaped_step)
qed simp

lemma split_escaped_parts:
  "split_escaped (concat (map (\<lambda>p. CHR '':'' # escaped p) parts)) current = Some (current # parts)"
  by (induction parts arbitrary: current) (simp_all add: split_escaped_step split_escaped_prefix)

lemma render_concat:
  "render k = ''finding'' @ concat (map (\<lambda>p. CHR '':'' # escaped p) (fk_analyzer k # fk_parts k))"
proof -
  have fold: "foldl (\<lambda>out part. push_escaped (out @ '':'') part) out parts = out @ concat (map (\<lambda>p. CHR '':'' # escaped p) parts)"
    for out parts
  proof (induction parts arbitrary: out)
    case (Cons p parts)
    then show ?case by (simp add: push_escaped_out [of "out @ '':''"])
  qed simp
  show ?thesis
    by (simp add: render_def fold push_escaped_out [of "''finding:''"] FINDING_KEY_PREFIX_def)
qed

definition key_ok :: "finding_key \<Rightarrow> bool" where
  "key_ok k \<longleftrightarrow> finding_key_new (fk_analyzer k) (fk_parts k) = Ok k"

lemma try_map_check: "try_map (\<lambda>x. if P x then Ok x else Err (e x)) xs = Ok ys \<longleftrightarrow> ys = xs \<and> list_all P xs"
  by (induction xs arbitrary: ys) (auto simp: and_then_eq_Ok split: if_splits)

lemma finding_key_new_Ok:
  "finding_key_new a ps = Ok k \<longleftrightarrow>
     is_valid_analyzer_id a \<and> ps \<noteq> [] \<and> list_all part_ok ps \<and> k = \<lparr>fk_analyzer = a, fk_parts = ps\<rparr>"
  by (auto simp: finding_key_new_def and_then_eq_Ok try_map_check)

lemma finding_key_new_ok: "finding_key_new a ps = Ok k \<Longrightarrow> key_ok k"
  by (auto simp: key_ok_def finding_key_new_Ok)

lemma parse_render: "key_ok k \<Longrightarrow> parse_key (render k) = Ok k"
proof -
  assume k: "key_ok k"
  have "split_escaped (render k) [] = Some (''finding'' # fk_analyzer k # fk_parts k)"
    by (simp add: render_concat split_escaped_step split_escaped_prefix split_escaped_parts)
  with k show ?thesis by (auto simp: parse_key_def FINDING_KEY_PREFIX_def key_ok_def finding_key_new_Ok)
qed

lemma render_inj: "key_ok k \<Longrightarrow> key_ok l \<Longrightarrow> render k = render l \<longleftrightarrow> k = l"
  by (metis parse_render Inr_inject)

lemma parse_key_ok: "parse_key s = Ok k \<Longrightarrow> key_ok k"
  by (auto simp: parse_key_def finding_key_new_ok split: option.splits list.splits if_splits)

lemma finding_key_roundtrip_parts:
  assumes "finding_key_new analyzer parts = Ok k"
  shows "parse_key (render k) = Ok k"
    and "finding_key_new analyzer' parts' = Ok k' \<Longrightarrow> render k = render k' \<longleftrightarrow> analyzer = analyzer' \<and> parts = parts'"
    and "parse_key s = Ok l \<Longrightarrow> parse_key (render l) = Ok l
           \<and> is_valid_analyzer_id (fk_analyzer l) \<and> fk_parts l \<noteq> [] \<and> list_all part_ok (fk_parts l)"
proof -
  have k: "key_ok k" by (rule finding_key_new_ok [OF assms])
  then show "parse_key (render k) = Ok k" by (rule parse_render)
  show "render k = render k' \<longleftrightarrow> analyzer = analyzer' \<and> parts = parts'" if "finding_key_new analyzer' parts' = Ok k'"
    using render_inj [OF k finding_key_new_ok [OF that]] assms that by (auto simp: finding_key_new_Ok)
  show "parse_key (render l) = Ok l
           \<and> is_valid_analyzer_id (fk_analyzer l) \<and> fk_parts l \<noteq> [] \<and> list_all part_ok (fk_parts l)" if "parse_key s = Ok l"
  proof -
    have l: "key_ok l" by (rule parse_key_ok [OF that])
    with parse_render [OF l] show ?thesis by (auto simp: key_ok_def finding_key_new_Ok)
  qed
qed

text \<open>C19. A finding's key survives its text: parsing what \<open>render\<close> writes gives the key back, whatever colons and
  backslashes its parts contain, so no two keys share a text; and whatever text parses, parses to a key that
  could have been built, with a well-formed analyzer, at least one part and no empty, overlong or control part.\<close>

theorem finding_key_roundtrip:
  assumes "finding_key_new analyzer parts = Ok k"
  shows "parse_key (render k) = Ok k
    \<and> (\<forall>analyzer' parts' k'. finding_key_new analyzer' parts' = Ok k' \<longrightarrow>
          (render k = render k' \<longleftrightarrow> analyzer = analyzer' \<and> parts = parts'))
    \<and> (\<forall>s l. parse_key s = Ok l \<longrightarrow> parse_key (render l) = Ok l
          \<and> is_valid_analyzer_id (fk_analyzer l) \<and> fk_parts l \<noteq> [] \<and> list_all part_ok (fk_parts l))"
  using finding_key_roundtrip_parts [OF assms] by blast

section \<open>The tables\<close>

definition stored_finding :: "finding \<Rightarrow> finding" where
  "stored_finding f = f\<lparr>fi_severity := severity_from_token (severity_as_str (fi_severity f))\<rparr>"

definition span_forward :: "finding \<Rightarrow> bool" where
  "span_forward f \<longleftrightarrow> (case fi_span f of None \<Rightarrow> True | Some s \<Rightarrow> sp_start s \<le> sp_end s)"

lemma run_from_columns [simp]: "run_from_row (run_columns run i) = Ok (i, run)"
  by (cases "ar_advisory_db run") (simp_all add: run_from_row_def run_columns_def)

lemma finding_from_columns: "key_ok (fi_key f) \<Longrightarrow> finding_from_row (finding_columns f i) = Ok (stored_finding f)"
  by (cases "fi_span f") (simp_all add: finding_from_row_def finding_columns_def parse_render stored_finding_def)

lemma insert_columns:
  "insert_finding_row (finding_columns f i) rows = Ok rows' \<longleftrightarrow> span_forward f
     \<and> (\<forall>r \<in> set rows. \<not> (fr_run_id r = i \<and> fr_key r = render (fi_key f))) \<and> rows' = rows @ [finding_columns f i]"
  by (cases "fi_span f") (auto simp: insert_finding_row_def finding_columns_def span_forward_def list_ex_iff not_less)

lemma insert_all:
  "try_fold (\<lambda>rows f. insert_finding_row (finding_columns f i) rows) rows fs = Ok rows' \<longleftrightarrow>
     list_all span_forward fs \<and> distinct (map (render \<circ> fi_key) fs)
     \<and> (\<forall>f \<in> set fs. \<forall>r \<in> set rows. \<not> (fr_run_id r = i \<and> fr_key r = render (fi_key f)))
     \<and> rows' = rows @ map (\<lambda>f. finding_columns f i) fs"
proof (induction fs arbitrary: rows)
  case (Cons f fs)
  have "fr_run_id (finding_columns f i) = i" "fr_key (finding_columns f i) = render (fi_key f)"
    by (simp_all add: finding_columns_def)
  then show ?case by (simp add: and_then_eq_Ok insert_columns Cons.IH) fastforce
qed auto

definition findings_ok :: "findings_db \<Rightarrow> bool" where
  "findings_ok db \<longleftrightarrow> distinct (map rr_layer (runs_t db)) \<and> distinct (map rr_id (runs_t db))
     \<and> distinct (map (\<lambda>f. (fr_run_id f, fr_key f)) (findings_t db))
     \<and> (\<forall>f \<in> set (findings_t db). fr_run_id f \<in> rr_id ` set (runs_t db) \<and> (\<exists>x. finding_from_row f = Ok x))
     \<and> (\<forall>r \<in> set (runs_t db). \<exists>run. run_from_row r = Ok (rr_id r, run) \<and> ar_layer run = rr_layer r)"

text \<open>What the tables hold for a layer, found without ordering the layers.\<close>

definition findings_of :: "findings_db \<Rightarrow> nat \<Rightarrow> finding list" where
  "findings_of db i = map (projr \<circ> finding_from_row) (sort_key fr_key (filter (\<lambda>f. fr_run_id f = i) (findings_t db)))"

definition layer_view :: "findings_db \<Rightarrow> string \<Rightarrow> findings_layer option" where
  "layer_view db l = map_option (\<lambda>r. (snd (projr (run_from_row r)), findings_of db (rr_id r)))
     (List.find (\<lambda>r. rr_layer r = l) (runs_t db))"

lemma findings_for_run_ok: "findings_ok db \<Longrightarrow> findings_for_run db i = Ok (findings_of db i)"
  unfolding findings_for_run_def findings_of_def
  by (rule try_map_total) (auto simp: findings_ok_def)

lemma map_of_find: "map_option g (List.find (\<lambda>r. f r = k) rs) = map_of (map (\<lambda>r. (f r, g r)) rs) k"
  by (induction rs) auto

text \<open>Reading the layers gives the view of each, once, in layer order.\<close>

lemma layers_ok:
  assumes "findings_ok db"
  shows "\<exists>ls. layers db None = Ok ls \<and> sorted (map (ar_layer \<circ> fst) ls) \<and> distinct (map (ar_layer \<circ> fst) ls)
    \<and> (\<forall>l. layer_view db l = map_of (map (\<lambda>x. (ar_layer (fst x), x)) ls) l)"
proof -
  let ?runs = "sort_key rr_layer (runs_t db)"
  let ?of = "\<lambda>r. (snd (projr (run_from_row r)), findings_of db (rr_id r))"
  have run: "run_from_row r = Ok (rr_id r, snd (projr (run_from_row r))) \<and> ar_layer (snd (projr (run_from_row r))) = rr_layer r"
    if "r \<in> set (runs_t db)" for r using assms that by (fastforce simp: findings_ok_def)
  have 1: "try_map run_from_row ?runs = Ok (map (\<lambda>r. (rr_id r, snd (projr (run_from_row r)))) ?runs)"
    by (rule try_map_total) (use run in simp)
  have "try_map (\<lambda>(i, run). and_then (findings_for_run db i) (\<lambda>fs. Ok (run, fs)))
          (map (\<lambda>r. (rr_id r, snd (projr (run_from_row r)))) ?runs)
      = Ok (map (\<lambda>(i, run). (run, findings_of db i)) (map (\<lambda>r. (rr_id r, snd (projr (run_from_row r)))) ?runs))"
    by (rule try_map_total) (auto simp: findings_for_run_ok [OF assms])
  with 1 have l: "layers db None = Ok (map ?of ?runs)" by (simp add: layers_def comp_def)
  have n: "map (ar_layer \<circ> fst) (map ?of ?runs) = map rr_layer ?runs" using run by simp
  have view: "layer_view db k = map_of (map (\<lambda>x. (ar_layer (fst x), x)) (map ?of ?runs)) k" for k
  proof -
    have "map_of (map (\<lambda>x. (ar_layer (fst x), x)) (map ?of ?runs)) k = map_of (map (\<lambda>r. (rr_layer r, ?of r)) ?runs) k"
      by (rule arg_cong [where f = "\<lambda>m. map_of m k"]) (use run in simp)
    also have "\<dots> = map_of (map (\<lambda>r. (rr_layer r, ?of r)) (runs_t db)) k"
    proof -
      have "distinct (map rr_layer (runs_t db))" using assms by (simp add: findings_ok_def)
      then have "map_of (map (\<lambda>r. (rr_layer r, ?of r)) ?runs) = map_of (map (\<lambda>r. (rr_layer r, ?of r)) (runs_t db))"
        by (subst map_of_inject_set) (simp_all add: comp_def distinct_map)
      then show ?thesis by simp
    qed
    also have "\<dots> = layer_view db k"
      unfolding layer_view_def by (rule map_of_find [symmetric])
    finally show ?thesis by simp
  qed
  have "sorted (map (ar_layer \<circ> fst) (map ?of ?runs))" "distinct (map (ar_layer \<circ> fst) (map ?of ?runs))"
    unfolding n using assms by (simp_all add: findings_ok_def distinct_map)
  with l view show ?thesis by blast
qed

lemma run_id_of_Some: "run_id_of db l = Some i \<Longrightarrow> \<exists>r \<in> set (runs_t db). rr_layer r = l \<and> rr_id r = i"
  by (auto simp: run_id_of_def dest: find_SomeD)

lemma run_id_of_None: "run_id_of db l = None \<longleftrightarrow> l \<notin> rr_layer ` set (runs_t db)"
  by (simp add: run_id_of_def find_None_map)

lemma delete_run_ok: "findings_ok db \<Longrightarrow> findings_ok (delete_run i db)"
  by (auto simp: findings_ok_def delete_run_def distinct_map inj_on_def)

text \<open>Run ids and layers name the same runs.\<close>

lemma run_ids_inj:
  assumes "findings_ok db" "r \<in> set (runs_t db)" "r' \<in> set (runs_t db)"
  shows "rr_id r = rr_id r' \<longleftrightarrow> rr_layer r = rr_layer r'"
  using assms by (auto simp: findings_ok_def distinct_map inj_on_def)

lemma find_filter_other: "l \<noteq> k \<Longrightarrow> List.find (\<lambda>r. f r = l) (filter (\<lambda>r. f r \<noteq> k) rs) = List.find (\<lambda>r. f r = l) rs"
  by (induction rs) auto

lemma delete_run_view:
  assumes "findings_ok db" "r \<in> set (runs_t db)"
  shows "layer_view (delete_run (rr_id r) db) = (layer_view db)(rr_layer r := None)"
proof
  fix l
  have keep: "filter (\<lambda>r'. rr_id r' \<noteq> rr_id r) (runs_t db) = filter (\<lambda>r'. rr_layer r' \<noteq> rr_layer r) (runs_t db)"
    by (rule filter_cong) (use run_ids_inj [OF assms(1) _ assms(2)] in auto)
  have other: "findings_of (delete_run (rr_id r) db) i = findings_of db i" if "i \<noteq> rr_id r" for i
  proof -
    have "filter (\<lambda>f. fr_run_id f = i) (findings_t (delete_run (rr_id r) db)) = filter (\<lambda>f. fr_run_id f = i) (findings_t db)"
      using that by (auto simp: delete_run_def intro: filter_cong)
    then show ?thesis by (simp add: findings_of_def)
  qed
  show "layer_view (delete_run (rr_id r) db) l = ((layer_view db)(rr_layer r := None)) l"
  proof (cases "l = rr_layer r")
    case True
    then have "List.find (\<lambda>r'. rr_layer r' = l) (runs_t (delete_run (rr_id r) db)) = None"
      by (auto simp: delete_run_def keep find_None_iff)
    with True show ?thesis by (simp add: layer_view_def)
  next
    case False
    have f: "List.find (\<lambda>r'. rr_layer r' = l) (runs_t (delete_run (rr_id r) db)) = List.find (\<lambda>r'. rr_layer r' = l) (runs_t db)"
      unfolding delete_run_def using False by (simp add: keep find_filter_other)
    have "rr_id r' \<noteq> rr_id r" if "List.find (\<lambda>r'. rr_layer r' = l) (runs_t db) = Some r'" for r'
      using find_SomeD [OF that] False run_ids_inj [OF assms(1) _ assms(2), of r'] by auto
    with False f show ?thesis
      by (cases "List.find (\<lambda>r'. rr_layer r' = l) (runs_t db)") (simp_all add: layer_view_def other)
  qed
qed

lemma next_run_id_fresh: "i \<in> rr_id ` set (runs_t db) \<Longrightarrow> i < next_run_id db"
  unfolding next_run_id_def by (auto intro!: le_imp_less_Suc le_fold_max)

section \<open>Replacing and deleting a layer\<close>

definition accepted :: "findings_layer \<Rightarrow> bool" where
  "accepted = (\<lambda>(_, fs). list_all span_forward fs \<and> distinct (map fi_key fs))"

definition keys_ok :: "findings_layer \<Rightarrow> bool" where
  "keys_ok = (\<lambda>(_, fs). list_all (key_ok \<circ> fi_key) fs)"

definition stored_layer :: "string \<Rightarrow> findings_layer \<Rightarrow> findings_layer" where
  "stored_layer l = (\<lambda>(run, fs). (run\<lparr>ar_layer := l\<rparr>, sort_key (render \<circ> fi_key) (map stored_finding fs)))"

definition cleared :: "findings_db \<Rightarrow> string \<Rightarrow> findings_db" where
  "cleared db l = (case run_id_of db l of Some i \<Rightarrow> delete_run i db | None \<Rightarrow> db)"

lemma cleared_ok:
  assumes "findings_ok db"
  shows "findings_ok (cleared db l) \<and> layer_view (cleared db l) = (layer_view db)(l := None)
    \<and> l \<notin> rr_layer ` set (runs_t (cleared db l))"
proof (cases "run_id_of db l")
  case None
  then have "l \<notin> rr_layer ` set (runs_t db)" by (simp add: run_id_of_None)
  then have "layer_view db l = None" by (simp add: layer_view_def find_None_map)
  with None assms \<open>l \<notin> _\<close> show ?thesis by (auto simp: cleared_def fun_eq_iff)
next
  case (Some i)
  then obtain r where r: "r \<in> set (runs_t db)" "rr_layer r = l" "rr_id r = i" using run_id_of_Some by blast
  have "l \<notin> rr_layer ` set (runs_t (delete_run i db))"
    using run_ids_inj [OF assms _ r(1)] r by (auto simp: delete_run_def)
  with Some r delete_run_ok [OF assms] delete_run_view [OF assms r(1)] show ?thesis by (simp add: cleared_def)
qed

lemma distinct_render: "list_all (key_ok \<circ> fi_key) fs \<Longrightarrow> distinct (map (render \<circ> fi_key) fs) \<longleftrightarrow> distinct (map fi_key fs)"
  by (induction fs) (auto simp: list_all_iff render_inj)

text \<open>The tables after a layer has been written into cleared ones.\<close>

definition written :: "findings_db \<Rightarrow> analysis_run \<Rightarrow> finding list \<Rightarrow> findings_db" where
  "written db run fs = (let i = next_run_id db in
     db\<lparr>runs_t := runs_t db @ [run_columns run i], findings_t := findings_t db @ map (\<lambda>f. finding_columns f i) fs\<rparr>)"

lemma replace_layer_written:
  assumes "findings_ok db" "keys_ok (run, fs)"
  shows "replace_layer db run fs = Ok (db', a) \<longleftrightarrow> accepted (run, fs)
    \<and> db' = written (cleared db (ar_layer run)) run fs
    \<and> a = \<lparr>fa_layer = ar_layer run, fa_findings = length fs,
          fa_removed = (case run_id_of db (ar_layer run) of Some i \<Rightarrow> owned_count i db | None \<Rightarrow> 0),
          fa_replaced = (run_id_of db (ar_layer run) \<noteq> None)\<rparr>"
proof -
  let ?c = "cleared db (ar_layer run)" and ?i = "next_run_id (cleared db (ar_layer run))"
  have c: "(case run_id_of db (ar_layer run) of Some i \<Rightarrow> delete_run i db | None \<Rightarrow> db) = ?c"
    by (simp add: cleared_def)
  have fresh: "\<forall>f \<in> set fs. \<forall>r \<in> set (findings_t ?c). \<not> (fr_run_id r = ?i \<and> fr_key r = render (fi_key f))"
  proof (intro ballI)
    fix f r assume "r \<in> set (findings_t ?c)"
    then have "fr_run_id r \<in> rr_id ` set (runs_t ?c)" using cleared_ok [OF assms(1)] by (simp add: findings_ok_def)
    from next_run_id_fresh [OF this] show "\<not> (fr_run_id r = ?i \<and> fr_key r = render (fi_key f))" by simp
  qed
  have valid: "list_all span_forward fs \<and> distinct (map (render \<circ> fi_key) fs) \<longleftrightarrow> accepted (run, fs)"
    using assms(2) by (simp add: accepted_def keys_ok_def distinct_render)
  have ins: "try_fold (\<lambda>rows f. insert_finding_row (finding_columns f ?i) rows) (findings_t ?c) fs = Ok rows \<longleftrightarrow>
      accepted (run, fs) \<and> rows = findings_t ?c @ map (\<lambda>f. finding_columns f ?i) fs" for rows
    unfolding insert_all using fresh valid by blast
  show ?thesis
    unfolding replace_layer_def Let_def c and_then_eq_Ok
    by (simp add: ins written_def Let_def) (auto simp: conj_commute)
qed

lemma find_snoc: "List.find P (xs @ [x]) = (case List.find P xs of Some y \<Rightarrow> Some y | None \<Rightarrow> if P x then Some x else None)"
  by (induction xs) auto

lemma insort_key_map: "insort_key f (g x) (map g xs) = map g (insort_key (\<lambda>a. f (g a)) x xs)"
  by (induction xs) auto

lemma sort_key_map: "sort_key f (map g xs) = map g (sort_key (\<lambda>a. f (g a)) xs)"
  by (induction xs) (simp_all add: insort_key_map)

lemma stored_finding_key [simp]: "fi_key (stored_finding f) = fi_key f"
  by (simp add: stored_finding_def)

lemma written_ok:
  assumes "findings_ok db" "ar_layer run \<notin> rr_layer ` set (runs_t db)" "keys_ok (run, fs)" "accepted (run, fs)"
  shows "findings_ok (written db run fs)"
    and "layer_view (written db run fs) = (layer_view db)(ar_layer run \<mapsto> stored_layer (ar_layer run) (run, fs))"
proof -
  let ?i = "next_run_id db"
  have fresh: "?i \<notin> rr_id ` set (runs_t db)" using next_run_id_fresh by blast
  have cols: "fr_run_id (finding_columns f i) = i" "fr_key (finding_columns f i) = render (fi_key f)" for f i
    by (simp_all add: finding_columns_def)
  have row: "rr_id (run_columns run ?i) = ?i" "rr_layer (run_columns run ?i) = ar_layer run" by (simp_all add: run_columns_def)
  have keys: "\<forall>f \<in> set fs. key_ok (fi_key f)" using assms(3) by (simp add: keys_ok_def list_all_iff)
  have dist: "distinct (map (render \<circ> fi_key) fs)"
    using assms(3,4) by (simp add: accepted_def keys_ok_def distinct_render)
  have old: "\<forall>f \<in> set (findings_t db). fr_run_id f \<noteq> ?i"
  proof
    fix f assume "f \<in> set (findings_t db)"
    then have "fr_run_id f \<in> rr_id ` set (runs_t db)" using assms(1) by (simp add: findings_ok_def)
    with fresh show "fr_run_id f \<noteq> ?i" by metis
  qed
  show "findings_ok (written db run fs)"
    using assms(1,2) fresh keys dist old
    by (auto simp: findings_ok_def written_def Let_def row cols comp_def distinct_map inj_on_def finding_from_columns)
  have fs: "findings_of (written db run fs) ?i = snd (stored_layer (ar_layer run) (run, fs))"
  proof -
    have "filter (\<lambda>f. fr_run_id f = ?i) (findings_t (written db run fs)) = map (\<lambda>f. finding_columns f ?i) fs"
      using old by (simp add: written_def Let_def filter_map comp_def cols)
    then show ?thesis
      by (simp add: findings_of_def stored_layer_def sort_key_map comp_def cols keys finding_from_columns stored_finding_key)
  qed
  have other: "findings_of (written db run fs) i = findings_of db i" if "i \<noteq> ?i" for i
    using that by (simp add: findings_of_def written_def Let_def filter_map comp_def cols)
  show "layer_view (written db run fs) = (layer_view db)(ar_layer run \<mapsto> stored_layer (ar_layer run) (run, fs))"
  proof
    fix l
    have runs: "runs_t (written db run fs) = runs_t db @ [run_columns run ?i]" by (simp add: written_def Let_def)
    show "layer_view (written db run fs) l = ((layer_view db)(ar_layer run \<mapsto> stored_layer (ar_layer run) (run, fs))) l"
    proof (cases "List.find (\<lambda>r. rr_layer r = l) (runs_t db)")
      case None
      then have "layer_view db l = None" by (simp add: layer_view_def)
      with None show ?thesis
        by (auto simp: layer_view_def runs find_snoc row fs stored_layer_def)
    next
      case (Some r)
      from find_SomeD [OF this] have r: "r \<in> set (runs_t db)" "rr_layer r = l" by simp_all
      then have "l \<noteq> ar_layer run" "rr_id r \<noteq> ?i" using assms(2) fresh by (metis image_eqI)+
      with Some show ?thesis by (simp add: layer_view_def runs find_snoc other)
    qed
  qed
qed

section \<open>The tables as a keyed table\<close>

text \<open>A write of a layer as the store's transaction: refused, or committed.\<close>

definition put_layer :: "findings_db \<Rightarrow> string \<Rightarrow> findings_layer \<Rightarrow> findings_db option" where
  "put_layer db l = (\<lambda>(run, fs). case replace_layer db (run\<lparr>ar_layer := l\<rparr>) fs of
       Ok (db', _) \<Rightarrow> Some db' | Err _ \<Rightarrow> None)"

lemma keys_ok_layer [simp]: "keys_ok (run\<lparr>ar_layer := l\<rparr>, fs) = keys_ok (run, fs)"
  "accepted (run\<lparr>ar_layer := l\<rparr>, fs) = accepted (run, fs)"
  "stored_layer k (run\<lparr>ar_layer := l\<rparr>, fs) = stored_layer k (run, fs)"
  by (simp_all add: keys_ok_def accepted_def stored_layer_def)

lemma put_layer_eq:
  assumes "findings_ok db" "keys_ok (run, fs)"
  shows "put_layer db l (run, fs) =
     (if accepted (run, fs) then Some (written (cleared db l) (run\<lparr>ar_layer := l\<rparr>) fs) else None)"
proof (cases "replace_layer db (run\<lparr>ar_layer := l\<rparr>) fs")
  case (Inl e)
  then have "\<not> accepted (run, fs)"
    using replace_layer_written [OF assms(1), of "run\<lparr>ar_layer := l\<rparr>" fs] assms(2) by auto
  with Inl show ?thesis by (simp add: put_layer_def)
next
  case (Inr p)
  obtain db' a where p: "p = (db', a)" by (cases p)
  from Inr p replace_layer_written [OF assms(1), of "run\<lparr>ar_layer := l\<rparr>" fs db' a] assms(2)
  show ?thesis by (simp add: put_layer_def)
qed

lemma delete_layer_cleared: "fst (delete_layer db l) = cleared db l"
  by (simp add: delete_layer_def cleared_def split: option.split)

interpretation findings_tables: keyed_table findings_ok layer_view put_layer "\<lambda>db l. fst (delete_layer db l)"
  keys_ok accepted stored_layer
proof
  fix db :: findings_db and v :: findings_layer and l
  assume ok: "findings_ok db" "keys_ok v"
  obtain run fs where v: "v = (run, fs)" by (cases v)
  let ?run = "run\<lparr>ar_layer := l\<rparr>"
  have c: "findings_ok (cleared db l)" "layer_view (cleared db l) = (layer_view db)(l := None)"
    "ar_layer ?run \<notin> rr_layer ` set (runs_t (cleared db l))" using cleared_ok [OF ok(1), of l] by simp_all
  show "put_layer db l v = None" if "\<not> accepted v" using ok that by (simp add: v put_layer_eq)
  assume a: "accepted v"
  have w: "findings_ok (written (cleared db l) ?run fs)"
    "layer_view (written (cleared db l) ?run fs) = (layer_view db)(l \<mapsto> stored_layer l v)"
    using written_ok [OF c(1,3), of fs] ok(2) a c(2) by (simp_all add: v)
  then show "\<exists>db'. put_layer db l v = Some db' \<and> findings_ok db' \<and> layer_view db' = (layer_view db)(l \<mapsto> stored_layer l v)"
    using ok a by (simp add: v put_layer_eq)
next
  fix db l assume "findings_ok db"
  then show "findings_ok (fst (delete_layer db l)) \<and> layer_view (fst (delete_layer db l)) = (layer_view db)(l := None)"
    using cleared_ok by (simp add: delete_layer_cleared)
qed

definition findings_empty :: findings_db where
  "findings_empty = \<lparr>runs_t = [], findings_t = []\<rparr>"

lemma findings_empty_ok: "findings_ok findings_empty"
  by (simp add: findings_ok_def findings_empty_def)

text \<open>The tables any sequence of writes and deletions of layers leads to, refused ones included.\<close>

definition findings_after :: "(string, findings_layer) request list \<Rightarrow> findings_db" where
  "findings_after rs = foldl findings_tables.serve findings_empty rs"

definition well_typed :: "(string, findings_layer) request list \<Rightarrow> bool" where
  "well_typed rs \<longleftrightarrow> list_all findings_tables.legal_request rs"

lemma findings_after_ok: "well_typed rs \<Longrightarrow> findings_ok (findings_after rs)"
  using findings_tables.history [OF findings_empty_ok] by (simp add: findings_after_def well_typed_def)

section \<open>Properties\<close>

lemma replace_layer_effect_parts:
  assumes "well_typed rs" "db = findings_after rs" "keys_ok (run, fs)"
  shows "(\<exists>r. replace_layer db run fs = Ok r) \<longleftrightarrow> list_all span_forward fs \<and> distinct (map fi_key fs)"
    and "replace_layer db run fs = Ok (db', a) \<Longrightarrow>
       layer_view db' = (layer_view db)(ar_layer run \<mapsto> (run, sort_key (render \<circ> fi_key) (map stored_finding fs)))
       \<and> fa_findings a = length fs \<and> fa_replaced a = (layer_view db (ar_layer run) \<noteq> None)
       \<and> fa_removed a = (case layer_view db (ar_layer run) of Some (_, old) \<Rightarrow> length old | None \<Rightarrow> 0)"
proof -
  have ok: "findings_ok db" using findings_after_ok [OF assms(1)] assms(2) by simp
  note w = replace_layer_written [OF ok assms(3)]
  show "(\<exists>r. replace_layer db run fs = Ok r) \<longleftrightarrow> list_all span_forward fs \<and> distinct (map fi_key fs)"
    using w by (auto simp: accepted_def)
  assume r: "replace_layer db run fs = Ok (db', a)"
  have v: "layer_view db' = (layer_view db)(ar_layer run \<mapsto> stored_layer (ar_layer run) (run, fs))"
  proof -
    have "accepted (run, fs)" using iffD1 [OF w r] by blast
    moreover have "put_layer db (ar_layer run) (run, fs) = Some db'" by (simp add: put_layer_def r)
    ultimately have "accepted (run, fs)" "put_layer db (ar_layer run) (run, fs) = Some db'" .
    then show ?thesis using findings_tables.put_valid [OF ok assms(3), of "ar_layer run"] by auto
  qed
  have "layer_view db (ar_layer run) = None \<longleftrightarrow> run_id_of db (ar_layer run) = None"
    by (simp add: layer_view_def run_id_of_def)
  moreover have "(case run_id_of db (ar_layer run) of Some i \<Rightarrow> owned_count i db | None \<Rightarrow> 0)
      = (case layer_view db (ar_layer run) of Some (_, old) \<Rightarrow> length old | None \<Rightarrow> 0)"
    by (cases "List.find (\<lambda>r. rr_layer r = ar_layer run) (runs_t db)")
      (simp_all add: layer_view_def run_id_of_def owned_count_def findings_of_def)
  moreover note iffD1 [OF w r]
  ultimately show "layer_view db' = (layer_view db)(ar_layer run \<mapsto> (run, sort_key (render \<circ> fi_key) (map stored_finding fs)))
       \<and> fa_findings a = length fs \<and> fa_replaced a = (layer_view db (ar_layer run) \<noteq> None)
       \<and> fa_removed a = (case layer_view db (ar_layer run) of Some (_, old) \<Rightarrow> length old | None \<Rightarrow> 0)"
    using v by (simp add: stored_layer_def)
qed

text \<open>C17. Replacing a layer is a write of one key: it is refused exactly when two findings share an identity or a
  span runs backwards, and then nothing changes; otherwise the layer reads back as the new run with exactly the new
  findings, in key order, every other layer reads as before, and the answer counts what went and what came.\<close>

theorem replace_layer_effect:
  assumes "well_typed rs" "db = findings_after rs" "keys_ok (run, fs)"
  shows "((\<exists>r. replace_layer db run fs = Ok r) \<longleftrightarrow> list_all span_forward fs \<and> distinct (map fi_key fs))
    \<and> (\<forall>db' a. replace_layer db run fs = Ok (db', a) \<longrightarrow>
       layer_view db' = (layer_view db)(ar_layer run \<mapsto> (run, sort_key (render \<circ> fi_key) (map stored_finding fs)))
       \<and> fa_findings a = length fs \<and> fa_replaced a = (layer_view db (ar_layer run) \<noteq> None)
       \<and> fa_removed a = (case layer_view db (ar_layer run) of Some (_, old) \<Rightarrow> length old | None \<Rightarrow> 0))"
  using replace_layer_effect_parts [OF assms] by blast

text \<open>The last accepted request for a layer in a history, newest first: the write's run and findings as they are
  stored, or nothing when it is a deletion or there is none. A write whose findings repeat an identity or have a
  span that runs backwards is not accepted, and passed over.\<close>

fun newest_accepted :: "(string, findings_layer) request list \<Rightarrow> string \<Rightarrow> findings_layer option" where
  "newest_accepted [] l = None"
| "newest_accepted (Put k (run, fs) # older) l =
     (if k = l \<and> list_all span_forward fs \<and> distinct (map fi_key fs)
      then Some (run\<lparr>ar_layer := l\<rparr>, sort_key (render \<circ> fi_key) (map stored_finding fs))
      else newest_accepted older l)"
| "newest_accepted (Del k # older) l = (if k = l then None else newest_accepted older l)"

lemma layer_view_after:
  "well_typed rs \<Longrightarrow> layer_view (findings_after rs) = newest_accepted (rev rs)"
proof (induction rs rule: rev_induct)
  case Nil
  show ?case by (simp add: fun_eq_iff findings_after_def layer_view_def findings_empty_def)
next
  case (snoc r rs)
  then have w: "well_typed rs" "findings_tables.legal_request r" by (simp_all add: well_typed_def)
  from findings_tables.serve_ok [OF findings_after_ok [OF w(1)] w(2)] snoc.IH [OF w(1)]
  have "layer_view (findings_after (rs @ [r])) = findings_tables.effect (newest_accepted (rev rs)) r"
    by (simp add: findings_after_def)
  then show ?case
  proof (cases r)
    case (Put k v)
    obtain run fs where "v = (run, fs)" by (cases v)
    with Put show ?thesis
      using \<open>layer_view _ = findings_tables.effect _ _\<close> by (auto simp: fun_eq_iff) (auto simp: accepted_def stored_layer_def)
  qed (simp add: fun_eq_iff)
qed

text \<open>C18. Whatever layers were written and deleted, refused writes included, a layer reads back as its last accepted
  request made it: as the run and findings last written, in key order, whatever was refused since, and not at all
  when it was deleted since or never written. Reading the findings succeeds and lists the layers there are, each
  once, in order; no finding is left without its run; and deleting a layer reports the findings that go, or that
  there was no such layer.\<close>

theorem findings_last_write:
  assumes "well_typed rs"
  shows "layer_view (findings_after rs) = newest_accepted (rev rs)
    \<and> count_orphan_findings (findings_after rs) = 0
    \<and> (\<exists>ls. layers (findings_after rs) None = Ok ls \<and> sorted (map (ar_layer \<circ> fst) ls)
           \<and> distinct (map (ar_layer \<circ> fst) ls) \<and> newest_accepted (rev rs) = map_of (map (\<lambda>x. (ar_layer (fst x), x)) ls))
    \<and> snd (delete_layer (findings_after rs) l) = map_option (length \<circ> snd) (newest_accepted (rev rs) l)"
proof -
  have ok: "findings_ok (findings_after rs)" by (rule findings_after_ok [OF assms])
  note v = layer_view_after [OF assms]
  have "\<forall>f \<in> set (findings_t (findings_after rs)). list_ex (\<lambda>r. rr_id r = fr_run_id f) (runs_t (findings_after rs))"
    using ok by (auto simp: findings_ok_def list_ex_iff image_iff eq_commute)
  then have "count_orphan_findings (findings_after rs) = 0" by (simp add: count_orphan_findings_def)
  moreover have "\<exists>ls. layers (findings_after rs) None = Ok ls \<and> sorted (map (ar_layer \<circ> fst) ls)
       \<and> distinct (map (ar_layer \<circ> fst) ls) \<and> newest_accepted (rev rs) = map_of (map (\<lambda>x. (ar_layer (fst x), x)) ls)"
    using layers_ok [OF ok] unfolding v by (simp add: fun_eq_iff)
  moreover have "snd (delete_layer (findings_after rs) l) = map_option (length \<circ> snd) (newest_accepted (rev rs) l)"
    unfolding v [symmetric]
    by (simp add: delete_layer_def layer_view_def run_id_of_def owned_count_def findings_of_def split: option.split)
  ultimately show ?thesis using v by blast
qed

section \<open>Witnesses\<close>

definition demo_run :: "string \<Rightarrow> analysis_run" where
  "demo_run l = \<lparr>ar_layer = l, ar_analyzer = ''demo'', ar_analyzer_version = ''1'', ar_runner = Sandboxed,
     ar_isolation = MicroVm, ar_image_digest = None, ar_rules_digest = None, ar_advisory_db = None,
     ar_command_policy = \<lparr>cp_network = Deny, cp_worktree = ReadOnly, cp_environment = Scrubbed\<rparr>,
     ar_source = \<lparr>si_commit = None, si_tree = None, si_lockfile_blob = None\<rparr>,
     ar_started_at = ''a'', ar_ended_at = ''b'', ar_exit_status = 0, ar_report_digest = ''d''\<rparr>"

definition demo_finding :: "string \<Rightarrow> finding" where
  "demo_finding p = \<lparr>fi_key = \<lparr>fk_analyzer = ''demo'', fk_parts = [p]\<rparr>, fi_rule = ''r'', fi_severity = High,
     fi_title = ''t'', fi_message = ''m'', fi_path = None, fi_span = Some \<lparr>sp_start = 1, sp_end = 2\<rparr>, fi_meta = JNull\<rparr>"

lemma demo_keys: "key_ok (fi_key (demo_finding ''a:b''))" "key_ok (fi_key (demo_finding ''c''))"
  by (simp_all add: key_ok_def finding_key_new_Ok demo_finding_def is_valid_analyzer_id_def MAX_ANALYZER_ID_def
      is_analyzer_id_char_def is_ascii_lowercase_def part_ok_def MAX_IDENTITY_PART_def is_control_def continuation_def)

definition demo_requests :: "(string, findings_layer) request list" where
  "demo_requests = [Put ''l'' (demo_run ''l'', [demo_finding ''c'']), Put ''l'' (demo_run ''l'', [demo_finding ''a:b'']), Del ''k'']"

lemma demo_well_typed: "well_typed demo_requests"
proof -
  have "keys_ok (demo_run ''l'', [demo_finding p])" if "key_ok (fi_key (demo_finding p))" for p
    using that by (simp add: keys_ok_def)
  with demo_keys show ?thesis by (simp add: well_typed_def demo_requests_def)
qed

theorem finding_key_roundtrip_witness:
  "parse_key (render (fi_key (demo_finding ''a:b''))) = Ok (fi_key (demo_finding ''a:b''))"
proof -
  have "finding_key_new ''demo'' [''a:b''] = Ok (fi_key (demo_finding ''a:b''))"
    using demo_keys(1) by (simp add: key_ok_def demo_finding_def)
  from finding_key_roundtrip [OF this] show ?thesis by blast
qed

theorem replace_layer_effect_witness:
  "(\<exists>r. replace_layer (findings_after demo_requests) (demo_run ''k'') [demo_finding ''c'', demo_finding ''c''] = Ok r) \<longleftrightarrow> False"
proof -
  have "keys_ok (demo_run ''k'', [demo_finding ''c'', demo_finding ''c''])" using demo_keys by (simp add: keys_ok_def)
  from replace_layer_effect [OF demo_well_typed refl this] show ?thesis by simp
qed

theorem findings_last_write_witness:
  "layer_view (findings_after demo_requests) ''l'' = Some (demo_run ''l'', [stored_finding (demo_finding ''a:b'')])
    \<and> layer_view (findings_after demo_requests) ''k'' = None"
  using findings_last_write [OF demo_well_typed, THEN conjunct1]
  by (simp add: demo_requests_def span_forward_def demo_finding_def demo_run_def)

end
