(* ===== verification/Memory.thy ===== *)
theory Memory imports Sorting Findings begin

text \<open>
  \<open>crates/rto-graph/src/memory.rs\<close>, the episodic tier: what an agent writes down, anchored to a node of the
  graph, superseded by later records and removed only when it is forgotten. The table is
  \<open>agent_memory\<close> of migration 11; \<open>AUTOINCREMENT\<close> keeps the largest id ever given out. The graph is only read.
  The wall clock is an argument of the write. Multiplication of doubles, and the two decay curves that need
  division and powers, are parameters; doubles are compared by \<open>total_cmp\<close> on their bits.
\<close>

section \<open>Vocabulary\<close>

definition DEFAULT_MEMORY_SCOPE :: string where "DEFAULT_MEMORY_SCOPE = ''repo''"

definition MAX_MEMORY_BODY :: nat where "MAX_MEMORY_BODY = 64 * 1024"

definition MAX_MEMORY_SCOPE :: nat where "MAX_MEMORY_SCOPE = 128"

datatype memory_error =
    InvalidScope string
  | BodyEmpty
  | BodyTooLong nat
  | InvalidConfidence f64
  | MemNotFound int
  | AlreadySuperseded int int
  | UnknownMemoryKind string

datatype memory_kind = Lesson | Attempt | Decision | Pattern | Outcome

definition memory_kinds :: "memory_kind list" where
  "memory_kinds = [Lesson, Attempt, Decision, Pattern, Outcome]"

definition memory_kind_as_str :: "memory_kind \<Rightarrow> string" where
  "memory_kind_as_str k = (case k of Lesson \<Rightarrow> ''lesson'' | Attempt \<Rightarrow> ''attempt'' | Decision \<Rightarrow> ''decision''
     | Pattern \<Rightarrow> ''pattern'' | Outcome \<Rightarrow> ''outcome'')"

definition memory_kind_from_token :: "string \<Rightarrow> memory_kind option" where
  "memory_kind_from_token s = List.find (\<lambda>k. memory_kind_as_str k = s) memory_kinds"

lemma memory_kind_roundtrip [simp]: "memory_kind_from_token (memory_kind_as_str k) = Some k"
  by (cases k) (simp_all add: memory_kind_from_token_def memory_kinds_def memory_kind_as_str_def)

datatype anchor_state = Unanchored | Valid | Drifted | Vanished | Unverifiable

definition anchor_state_as_str :: "anchor_state \<Rightarrow> string" where
  "anchor_state_as_str s = (case s of Unanchored \<Rightarrow> ''unanchored'' | Valid \<Rightarrow> ''valid'' | Drifted \<Rightarrow> ''drifted''
     | Vanished \<Rightarrow> ''vanished'' | Unverifiable \<Rightarrow> ''unverifiable'')"

definition anchor_applies :: "anchor_state \<Rightarrow> bool" where
  "anchor_applies s \<longleftrightarrow> s = Unanchored \<or> s = Valid"

definition is_stale :: "anchor_state \<Rightarrow> bool" where
  "is_stale s \<longleftrightarrow> s = Drifted \<or> s = Vanished"

record memory_anchor =
  an_key :: string
  an_blob :: "string option"
  an_path :: "string option"

record memory_record =
  mr_id :: int
  mr_scope :: string
  mr_kind :: memory_kind
  mr_anchor :: "memory_anchor option"
  mr_anchor_state :: anchor_state
  mr_applies :: bool
  mr_body :: string
  mr_confidence :: "f64 option"
  mr_tree :: "string option"
  mr_created_at :: string
  mr_superseded_by :: "int option"
  mr_superseded_at :: "string option"

definition is_live :: "memory_record \<Rightarrow> bool" where
  "is_live r \<longleftrightarrow> mr_superseded_by r = None"

record memory_write =
  mw_scope :: string
  mw_kind :: memory_kind
  mw_anchor :: "string option"
  mw_body :: string
  mw_confidence :: "f64 option"
  mw_supersedes :: "int option"

text \<open>A finite number in the unit interval: neither a NaN nor an infinity is between 0 and 1.\<close>

definition validate :: "memory_write \<Rightarrow> memory_error + unit" where
  "validate w =
     (if mw_scope w = [] \<or> MAX_MEMORY_SCOPE < length (mw_scope w) \<or> trim (mw_scope w) \<noteq> mw_scope w
         \<or> list_ex is_control (chars (mw_scope w)) then Err (InvalidScope (mw_scope w))
      else if trim (mw_body w) = [] then Err BodyEmpty
      else if MAX_MEMORY_BODY < length (mw_body w) then Err (BodyTooLong (length (mw_body w)))
      else case mw_confidence w of
          Some c \<Rightarrow> if f64_le f64_zero c \<and> f64_le c f64_one then Ok () else Err (InvalidConfidence c)
        | None \<Rightarrow> Ok ())"

record memory_filter =
  mf_scope :: "string option"
  mf_kind :: "memory_kind option"
  mf_anchor_key :: "string option"
  mf_include_superseded :: bool
  mf_limit :: "nat option"

record memory_forgotten =
  mg_id :: int
  mg_restored :: "int list"

section \<open>Table\<close>

record memory_row =
  ag_id :: int
  ag_scope :: string
  ag_kind :: string
  ag_anchor_key :: "string option"
  ag_anchor_blob :: "string option"
  ag_anchor_path :: "string option"
  ag_body :: string
  ag_confidence :: "f64 option"
  ag_tree :: "string option"
  ag_created_at :: string
  ag_superseded_by :: "int option"
  ag_superseded_at :: "string option"

record memory_db =
  mem_seq :: int
  mem_rows :: "memory_row list"

definition memory_empty :: memory_db where
  "memory_empty = \<lparr>mem_seq = 0, mem_rows = []\<rparr>"

definition node_of_key :: "store \<Rightarrow> string \<Rightarrow> node_row option" where
  "node_of_key s key = List.find (\<lambda>r. nr_key r = key) (nodes_t s)"

definition record_memory :: "store \<Rightarrow> string \<Rightarrow> memory_db \<Rightarrow> memory_write \<Rightarrow> memory_error + memory_db \<times> int" where
  "record_memory s now db w =
     and_then (validate w) (\<lambda>_.
     and_then (case mw_supersedes w of
         None \<Rightarrow> Ok ()
       | Some target \<Rightarrow> (case List.find (\<lambda>r. ag_id r = target) (mem_rows db) of
             None \<Rightarrow> Err (MemNotFound target)
           | Some r \<Rightarrow> (case ag_superseded_by r of
                 Some by_id \<Rightarrow> Err (AlreadySuperseded target by_id)
               | None \<Rightarrow> Ok ()))) (\<lambda>_.
     let anchor = Option.bind (mw_anchor w) (node_of_key s);
         i = mem_seq db + 1;
         row = \<lparr>ag_id = i, ag_scope = mw_scope w, ag_kind = memory_kind_as_str (mw_kind w),
                ag_anchor_key = mw_anchor w, ag_anchor_blob = Option.bind anchor nr_blob_hash,
                ag_anchor_path = Option.bind anchor nr_path, ag_body = mw_body w,
                ag_confidence = mw_confidence w, ag_tree = map_option sy_tree (sync_t s),
                ag_created_at = now, ag_superseded_by = None, ag_superseded_at = None\<rparr>;
         rows = mem_rows db @ [row];
         rows = (case mw_supersedes w of
             None \<Rightarrow> rows
           | Some target \<Rightarrow> map (\<lambda>r. if ag_id r = target
               then r\<lparr>ag_superseded_by := Some i, ag_superseded_at := Some now\<rparr> else r) rows)
     in Ok (\<lparr>mem_seq = i, mem_rows = rows\<rparr>, i)))"

definition resolve_anchor ::
  "string option \<Rightarrow> string option \<Rightarrow> string option \<Rightarrow> string option \<Rightarrow> anchor_state" where
  "resolve_anchor anchor_key anchor_blob node_key node_blob =
     (case (anchor_key, node_key) of
        (None, _) \<Rightarrow> Unanchored
      | (Some _, None) \<Rightarrow> Vanished
      | (Some _, Some _) \<Rightarrow> (case (anchor_blob, node_blob) of
            (Some captured, Some current) \<Rightarrow> if captured = current then Valid else Drifted
          | _ \<Rightarrow> Unverifiable))"

text \<open>\<open>LEFT JOIN nodes n ON n.key = m.anchor_key\<close>, the key being unique.\<close>

definition record_from_row :: "store \<Rightarrow> memory_row \<Rightarrow> memory_error + memory_record" where
  "record_from_row s r =
     (case memory_kind_from_token (ag_kind r) of
        None \<Rightarrow> Err (UnknownMemoryKind (ag_kind r))
      | Some kind \<Rightarrow>
          let joined = Option.bind (ag_anchor_key r) (node_of_key s);
              state = resolve_anchor (ag_anchor_key r) (ag_anchor_blob r)
                        (map_option nr_key joined) (Option.bind joined nr_blob_hash)
          in Ok \<lparr>mr_id = ag_id r, mr_scope = ag_scope r, mr_kind = kind,
                 mr_anchor = map_option (\<lambda>k. \<lparr>an_key = k, an_blob = ag_anchor_blob r, an_path = ag_anchor_path r\<rparr>)
                   (ag_anchor_key r),
                 mr_anchor_state = state, mr_applies = anchor_applies state, mr_body = ag_body r,
                 mr_confidence = ag_confidence r, mr_tree = ag_tree r, mr_created_at = ag_created_at r,
                 mr_superseded_by = ag_superseded_by r, mr_superseded_at = ag_superseded_at r\<rparr>)"

definition keeps :: "memory_filter \<Rightarrow> memory_row \<Rightarrow> bool" where
  "keeps f r \<longleftrightarrow> (case mf_scope f of Some x \<Rightarrow> ag_scope r = x | None \<Rightarrow> True)
     \<and> (case mf_kind f of Some k \<Rightarrow> ag_kind r = memory_kind_as_str k | None \<Rightarrow> True)
     \<and> (case mf_anchor_key f of Some k \<Rightarrow> ag_anchor_key r = Some k | None \<Rightarrow> True)
     \<and> (mf_include_superseded f \<or> ag_superseded_by r = None)"

text \<open>\<open>ORDER BY m.id DESC\<close> and \<open>LIMIT\<close>, zero and none meaning no limit.\<close>

definition records :: "store \<Rightarrow> memory_db \<Rightarrow> memory_filter \<Rightarrow> memory_error + memory_record list" where
  "records s db f =
     (let rows = rev (sort_key ag_id (filter (keeps f) (mem_rows db)))
      in try_map (record_from_row s) (case mf_limit f of
           Some n \<Rightarrow> if 0 < n then take n rows else rows | None \<Rightarrow> rows))"

definition generation :: "memory_db \<Rightarrow> int" where
  "generation db = (case mem_rows db of [] \<Rightarrow> 0 | r # rs \<Rightarrow> fold max (map ag_id rs) (ag_id r))"

definition get_memory :: "store \<Rightarrow> memory_db \<Rightarrow> int \<Rightarrow> memory_error + memory_record option" where
  "get_memory s db i = (case List.find (\<lambda>r. ag_id r = i) (mem_rows db) of
       None \<Rightarrow> Ok None | Some r \<Rightarrow> and_then (record_from_row s r) (\<lambda>x. Ok (Some x)))"

definition forget_memory :: "memory_db \<Rightarrow> int \<Rightarrow> memory_db \<times> memory_forgotten option" where
  "forget_memory db i =
     (if \<not> list_ex (\<lambda>r. ag_id r = i) (mem_rows db) then (db, None)
      else let restored = sort (map ag_id (filter (\<lambda>r. ag_superseded_by r = Some i) (mem_rows db)));
               rows = map (\<lambda>r. if ag_superseded_by r = Some i
                  then r\<lparr>ag_superseded_by := None, ag_superseded_at := None\<rparr> else r) (mem_rows db);
               rows = filter (\<lambda>r. ag_id r \<noteq> i) rows
           in (db\<lparr>mem_rows := rows\<rparr>, Some \<lparr>mg_id = i, mg_restored = restored\<rparr>))"

definition memory_counts :: "memory_db \<Rightarrow> nat \<times> nat" where
  "memory_counts db =
     (length (filter (\<lambda>r. ag_superseded_by r = None) (mem_rows db)),
      length (filter (\<lambda>r. ag_superseded_by r \<noteq> None) (mem_rows db)))"

section \<open>Recall\<close>

datatype decay = NoDecay | Linear "64 word" | Exponential "64 word"

definition decay_as_str :: "decay \<Rightarrow> string" where
  "decay_as_str d = (case d of NoDecay \<Rightarrow> ''none'' | Linear _ \<Rightarrow> ''linear'' | Exponential _ \<Rightarrow> ''exponential'')"

definition is_reproducible :: "decay \<Rightarrow> bool" where
  "is_reproducible d \<longleftrightarrow> d = NoDecay"

text \<open>\<open>linear\<close> is \<open>1 - age / span\<close>, not below zero, and \<open>halving\<close> is \<open>0.5\<close> to the power \<open>age / half_life\<close>, in doubles.\<close>

record curves =
  linear :: "64 word \<Rightarrow> 64 word \<Rightarrow> f64"
  halving :: "64 word \<Rightarrow> 64 word \<Rightarrow> f64"
  times :: "f64 \<Rightarrow> f64 \<Rightarrow> f64"

definition decay_factor :: "curves \<Rightarrow> decay \<Rightarrow> 64 word \<Rightarrow> f64" where
  "decay_factor fl d age = (case d of
       NoDecay \<Rightarrow> f64_one
     | Linear span \<Rightarrow> linear fl age (max span 1)
     | Exponential half_life \<Rightarrow> halving fl age (max half_life 1))"

text \<open>1.0, 0.90, 0.50, 0.35 and 0.25 as the nearest doubles.\<close>

definition anchor_penalty :: "anchor_state \<Rightarrow> f64" where
  "anchor_penalty s = (case s of Valid \<Rightarrow> 0x3FF0000000000000 | Unanchored \<Rightarrow> 0x3FECCCCCCCCCCCCD
     | Unverifiable \<Rightarrow> 0x3FE0000000000000 | Vanished \<Rightarrow> 0x3FD6666666666666 | Drifted \<Rightarrow> 0x3FD0000000000000)"

definition DEFAULT_BASE_CONFIDENCE :: f64 where "DEFAULT_BASE_CONFIDENCE = 0x3FE0000000000000"

definition DEFAULT_DECAY_SPAN :: "64 word" where "DEFAULT_DECAY_SPAN = 200"

definition DEFAULT_HALF_LIFE :: "64 word" where "DEFAULT_HALF_LIFE = 50"

text \<open>\<open>f64::total_cmp\<close>: the bits as a signed integer, the magnitude reversed under a set sign bit.\<close>

definition total_rank :: "f64 \<Rightarrow> int" where
  "total_rank b = (if uint b < 0x8000000000000000 then uint b else 0x7FFFFFFFFFFFFFFF - uint b)"

record recall_options =
  ro_scope :: "string option"
  ro_kind :: "memory_kind option"
  ro_anchor_key :: "string option"
  ro_query :: "string option"
  ro_decay :: decay
  ro_applicable_only :: bool
  ro_limit :: "nat option"

record recalled =
  re_score :: f64
  re_base_confidence :: f64
  re_anchor_penalty :: f64
  re_decay_factor :: f64
  re_age :: "64 word"
  re_record :: memory_record

definition matches_tokens :: "(string \<Rightarrow> string) \<Rightarrow> memory_record \<Rightarrow> string list \<Rightarrow> bool" where
  "matches_tokens lower r tokens =
     (let body = lower (mr_body r);
          key = (case mr_anchor r of Some a \<Rightarrow> lower (an_key a) | None \<Rightarrow> []);
          path = lower (case Option.bind (mr_anchor r) an_path of Some p \<Rightarrow> p | None \<Rightarrow> [])
      in list_all (\<lambda>t. contains body t \<or> contains key t \<or> contains path t) tokens)"

definition recalled_of :: "curves \<Rightarrow> decay \<Rightarrow> int \<Rightarrow> memory_record \<Rightarrow> recalled" where
  "recalled_of fl d gen r =
     (let base = or_else (mr_confidence r) DEFAULT_BASE_CONFIDENCE;
          penalty = anchor_penalty (mr_anchor_state r);
          age = (if 0 \<le> gen - mr_id r then word_of_int (gen - mr_id r) else 0);
          factor = decay_factor fl d age
      in \<lparr>re_score = times fl (times fl base penalty) factor, re_base_confidence = base,
          re_anchor_penalty = penalty, re_decay_factor = factor, re_age = age, re_record = r\<rparr>)"

definition recalled_le :: "recalled \<Rightarrow> recalled \<Rightarrow> bool" where
  "recalled_le a b \<longleftrightarrow> total_rank (re_score b) < total_rank (re_score a)
     \<or> (total_rank (re_score a) = total_rank (re_score b) \<and> mr_id (re_record b) \<le> mr_id (re_record a))"

definition recall ::
  "curves \<Rightarrow> (string \<Rightarrow> string) \<Rightarrow> store \<Rightarrow> memory_db \<Rightarrow> recall_options \<Rightarrow> memory_error + recalled list" where
  "recall fl lower s db opts =
     and_then (records s db \<lparr>mf_scope = ro_scope opts, mf_kind = ro_kind opts,
         mf_anchor_key = ro_anchor_key opts, mf_include_superseded = False, mf_limit = None\<rparr>) (\<lambda>rows.
       let tokens = (case ro_query opts of Some q \<Rightarrow> query_tokens (lower (trim q)) | None \<Rightarrow> []);
           kept = filter (\<lambda>r. (ro_applicable_only opts \<longrightarrow> mr_applies r)
                     \<and> (tokens \<noteq> [] \<longrightarrow> matches_tokens lower r tokens)) rows
       in Ok (window (sort_by recalled_le (map (recalled_of fl (ro_decay opts) (generation db)) kept)) 0
            (case ro_limit opts of Some n \<Rightarrow> n | None \<Rightarrow> 0)))"

section \<open>The table's invariant\<close>

definition row_inv :: "int set \<Rightarrow> int \<Rightarrow> memory_row \<Rightarrow> bool" where
  "row_inv ids seq r \<longleftrightarrow> 0 < ag_id r \<and> ag_id r \<le> seq \<and> (\<exists>k. ag_kind r = memory_kind_as_str k)
     \<and> (ag_superseded_by r = None) = (ag_superseded_at r = None)
     \<and> (\<forall>j. ag_superseded_by r = Some j \<longrightarrow> ag_id r < j \<and> j \<in> ids)"

text \<open>No record supersedes two.\<close>

definition one_each :: "memory_row list \<Rightarrow> bool" where
  "one_each rows \<longleftrightarrow> (\<forall>r \<in> set rows. \<forall>q \<in> set rows. \<forall>j.
     ag_superseded_by r = Some j \<longrightarrow> ag_superseded_by q = Some j \<longrightarrow> r = q)"

definition memory_ok :: "memory_db \<Rightarrow> bool" where
  "memory_ok db \<longleftrightarrow> sorted_wrt (<) (map ag_id (mem_rows db))
     \<and> (\<forall>r \<in> set (mem_rows db). row_inv (ag_id ` set (mem_rows db)) (mem_seq db) r)
     \<and> one_each (mem_rows db) \<and> 0 \<le> mem_seq db"

lemma memory_ok_row: "memory_ok db \<Longrightarrow> r \<in> set (mem_rows db) \<Longrightarrow> row_inv (ag_id ` set (mem_rows db)) (mem_seq db) r"
  by (simp add: memory_ok_def)

lemma memory_ok_id: "memory_ok db \<Longrightarrow> r \<in> set (mem_rows db) \<Longrightarrow> 0 < ag_id r \<and> ag_id r \<le> mem_seq db"
  using memory_ok_row by (simp add: row_inv_def)

lemma memory_ok_distinct: "memory_ok db \<Longrightarrow> distinct (map ag_id (mem_rows db))"
  by (simp add: memory_ok_def strict_sorted_iff)

text \<open>The row a write adds, and what it does to the row it supersedes.\<close>

definition new_row :: "store \<Rightarrow> string \<Rightarrow> int \<Rightarrow> memory_write \<Rightarrow> memory_row" where
  "new_row s now i w =
     (let anchor = Option.bind (mw_anchor w) (node_of_key s)
      in \<lparr>ag_id = i, ag_scope = mw_scope w, ag_kind = memory_kind_as_str (mw_kind w),
          ag_anchor_key = mw_anchor w, ag_anchor_blob = Option.bind anchor nr_blob_hash,
          ag_anchor_path = Option.bind anchor nr_path, ag_body = mw_body w,
          ag_confidence = mw_confidence w, ag_tree = map_option sy_tree (sync_t s),
          ag_created_at = now, ag_superseded_by = None, ag_superseded_at = None\<rparr>)"

definition mark :: "int \<Rightarrow> string \<Rightarrow> int option \<Rightarrow> memory_row \<Rightarrow> memory_row" where
  "mark i now target r = (if target = Some (ag_id r)
     then r\<lparr>ag_superseded_by := Some i, ag_superseded_at := Some now\<rparr> else r)"

lemma new_row_sel [simp]:
  "ag_id (new_row s now i w) = i" "ag_kind (new_row s now i w) = memory_kind_as_str (mw_kind w)"
  "ag_superseded_by (new_row s now i w) = None" "ag_superseded_at (new_row s now i w) = None"
  by (simp_all add: new_row_def Let_def)

lemma mark_sel [simp]: "ag_id (mark i now t r) = ag_id r" "ag_kind (mark i now t r) = ag_kind r"
  "ag_superseded_by (mark i now t r) = (if t = Some (ag_id r) then Some i else ag_superseded_by r)"
  "ag_superseded_at (mark i now t r) = (if t = Some (ag_id r) then Some now else ag_superseded_at r)"
  by (simp_all add: mark_def)

definition supersedable :: "memory_db \<Rightarrow> int option \<Rightarrow> bool" where
  "supersedable db target \<longleftrightarrow> (case target of None \<Rightarrow> True
     | Some t \<Rightarrow> \<exists>r \<in> set (mem_rows db). ag_id r = t \<and> ag_superseded_by r = None)"

lemma find_id:
  assumes "distinct (map f xs)" "x \<in> set xs" "f x = k"
  shows "List.find (\<lambda>y. f y = k) xs = Some x"
  using distinct_map_find [OF assms(1,2)] assms(3) by simp

lemma target_check:
  assumes "memory_ok db"
  shows "(case target of
         None \<Rightarrow> Ok ()
       | Some t \<Rightarrow> (case List.find (\<lambda>r. ag_id r = t) (mem_rows db) of
             None \<Rightarrow> Err (MemNotFound t)
           | Some r \<Rightarrow> (case ag_superseded_by r of Some b \<Rightarrow> Err (AlreadySuperseded t b) | None \<Rightarrow> Ok ()))) = Ok ()
     \<longleftrightarrow> supersedable db target"
proof (cases target)
  case (Some t)
  show ?thesis
  proof (cases "List.find (\<lambda>r. ag_id r = t) (mem_rows db)")
    case None
    then have "\<not> supersedable db (Some t)" by (auto simp: supersedable_def find_None_iff)
    with None show ?thesis by (simp add: Some)
  next
    case (Some r)
    then have r: "r \<in> set (mem_rows db)" "ag_id r = t" using find_SomeD by fastforce+
    have same: "ag_superseded_by q = ag_superseded_by r" if "q \<in> set (mem_rows db)" "ag_id q = t" for q
      using find_id [OF memory_ok_distinct [OF assms] that] Some by simp
    have "supersedable db (Some t) \<longleftrightarrow> ag_superseded_by r = None"
      unfolding supersedable_def option.case using r same by metis
    with Some show ?thesis by (simp add: \<open>target = Some t\<close> split: option.split)
  qed
qed (simp add: supersedable_def)

lemma record_memory_Ok:
  assumes "memory_ok db"
  shows "record_memory s now db w = Ok (db', i) \<longleftrightarrow> validate w = Ok () \<and> supersedable db (mw_supersedes w)
    \<and> i = mem_seq db + 1
    \<and> db' = \<lparr>mem_seq = i, mem_rows = map (mark i now (mw_supersedes w)) (mem_rows db) @ [new_row s now i w]\<rparr>"
proof -
  let ?i = "mem_seq db + 1"
  have rows: "(case mw_supersedes w of
         None \<Rightarrow> mem_rows db @ [new_row s now ?i w]
       | Some t \<Rightarrow> map (\<lambda>r. if ag_id r = t then r\<lparr>ag_superseded_by := Some ?i, ag_superseded_at := Some now\<rparr> else r)
           (mem_rows db @ [new_row s now ?i w]))
      = map (mark ?i now (mw_supersedes w)) (mem_rows db) @ [new_row s now ?i w]"
    if "supersedable db (mw_supersedes w)"
  proof (cases "mw_supersedes w")
    case None
    then show ?thesis by (simp add: mark_def [abs_def])
  next
    case (Some t)
    with that obtain r where "r \<in> set (mem_rows db)" "ag_id r = t" by (auto simp: supersedable_def)
    then have "t \<noteq> ?i" using memory_ok_id [OF assms] by fastforce
    with Some show ?thesis by (auto simp: mark_def)
  qed
  show ?thesis
    unfolding record_memory_def and_then_eq_Ok Let_def new_row_def [unfolded Let_def, symmetric]
    using target_check [OF assms, of "mw_supersedes w"] rows by auto
qed

lemma row_inv_mark:
  assumes "row_inv ids seq r" "seq < i" "ids \<subseteq> ids'" "i \<in> ids'"
  shows "row_inv ids' i (mark i now t r)"
  using assms by (auto simp: row_inv_def)

lemma row_inv_new: "0 < i \<Longrightarrow> row_inv ids i (new_row s now i w)"
  by (auto simp: row_inv_def)

lemma one_each_mark:
  assumes "one_each rows" "distinct (map ag_id rows)" "\<forall>r \<in> set rows. ag_superseded_by r \<noteq> Some i"
  shows "one_each (map (mark i now t) rows)"
proof -
  have "mark i now t r = mark i now t q"
    if rq: "r \<in> set rows" "q \<in> set rows" and j: "ag_superseded_by (mark i now t r) = Some j" "ag_superseded_by (mark i now t q) = Some j"
    for r q j
  proof (cases "t = Some (ag_id r)")
    case True
    with j have "j = i" by simp
    with j assms(3) rq have "t = Some (ag_id q)" by (auto split: if_splits)
    with True have "ag_id r = ag_id q" by simp
    with assms(2) rq have "r = q" by (simp add: distinct_map inj_on_def)
    then show ?thesis by simp
  next
    case False
    with j have r: "ag_superseded_by r = Some j" by simp
    with assms(3) rq have "j \<noteq> i" by auto
    with j have "ag_superseded_by q = Some j" by (simp split: if_splits)
    with r assms(1) rq have "r = q" unfolding one_each_def by blast
    then show ?thesis by simp
  qed
  then show ?thesis unfolding one_each_def set_map by blast
qed

lemma one_each_snoc: "one_each rows \<Longrightarrow> ag_superseded_by r = None \<Longrightarrow> one_each (rows @ [r])"
  by (auto simp: one_each_def)

lemma record_memory_ok:
  assumes ok: "memory_ok db" and r: "record_memory s now db w = Ok (db', i)"
  shows "memory_ok db'"
proof -
  from r record_memory_Ok [OF ok] have i: "i = mem_seq db + 1"
    and db': "db' = \<lparr>mem_seq = i, mem_rows = map (mark i now (mw_supersedes w)) (mem_rows db) @ [new_row s now i w]\<rparr>"
    by simp_all
  let ?ids = "ag_id ` set (mem_rows db')"
  have pos: "0 < i" using ok i by (simp add: memory_ok_def)
  have below: "\<forall>q \<in> set (mem_rows db). ag_id q < i" using memory_ok_id [OF ok] i by fastforce
  have ids: "?ids = insert i (ag_id ` set (mem_rows db))" by (auto simp: db' image_image)
  have "row_inv ?ids i q" if q: "q \<in> set (mem_rows db')" for q
  proof (cases "q = new_row s now i w")
    case False
    with q obtain p where "p \<in> set (mem_rows db)" "q = mark i now (mw_supersedes w) p" by (auto simp: db')
    then show ?thesis using row_inv_mark [OF memory_ok_row [OF ok], of p i ?ids] i by (auto simp: ids)
  qed (simp add: pos row_inv_new)
  moreover have "sorted_wrt (<) (map ag_id (mem_rows db'))"
    using ok below by (simp add: db' memory_ok_def sorted_wrt_append comp_def)
  moreover have "one_each (mem_rows db')"
  proof -
    have "\<forall>r \<in> set (mem_rows db). ag_superseded_by r \<noteq> Some i"
      using memory_ok_row [OF ok] below unfolding row_inv_def by fastforce
    then show ?thesis using ok memory_ok_distinct [OF ok]
      by (simp add: db' one_each_snoc one_each_mark memory_ok_def)
  qed
  ultimately show ?thesis using pos by (simp add: memory_ok_def db')
qed

definition unmark :: "int \<Rightarrow> memory_row \<Rightarrow> memory_row" where
  "unmark i r = (if ag_superseded_by r = Some i then r\<lparr>ag_superseded_by := None, ag_superseded_at := None\<rparr> else r)"

lemma unmark_sel [simp]: "ag_id (unmark i r) = ag_id r" "ag_kind (unmark i r) = ag_kind r"
  "ag_superseded_by (unmark i r) = (if ag_superseded_by r = Some i then None else ag_superseded_by r)"
  "ag_superseded_at (unmark i r) = (if ag_superseded_by r = Some i then None else ag_superseded_at r)"
  by (simp_all add: unmark_def)

lemma forget_memory_rows:
  "fst (forget_memory db i) = (if i \<in> ag_id ` set (mem_rows db)
     then db\<lparr>mem_rows := map (unmark i) (filter (\<lambda>r. ag_id r \<noteq> i) (mem_rows db))\<rparr> else db)"
  by (auto simp: forget_memory_def Let_def list_ex_iff unmark_def [abs_def] filter_map comp_def image_iff
      intro: arg_cong [where f = "\<lambda>rows. db\<lparr>mem_rows := rows\<rparr>"])

lemma forget_memory_ok:
  assumes "memory_ok db"
  shows "memory_ok (fst (forget_memory db i))"
proof (cases "i \<in> ag_id ` set (mem_rows db)")
  case True
  let ?rows = "map (unmark i) (filter (\<lambda>r. ag_id r \<noteq> i) (mem_rows db))"
  have ids: "ag_id ` set ?rows = ag_id ` set (mem_rows db) - {i}" by (auto simp: image_iff)
  have "row_inv (ag_id ` set ?rows) (mem_seq db) q" if "q \<in> set ?rows" for q
  proof -
    from that obtain p where p: "p \<in> set (mem_rows db)" "q = unmark i p" by auto
    with memory_ok_row [OF assms p(1)] show ?thesis unfolding ids by (auto simp: row_inv_def)
  qed
  moreover have "sorted_wrt (<) (map ag_id ?rows)"
    using assms by (simp add: memory_ok_def comp_def sorted_wrt_map sorted_wrt_filter)
  moreover have "one_each ?rows" using assms by (auto simp: memory_ok_def one_each_def split: if_splits)
  ultimately show ?thesis using True assms by (simp add: forget_memory_rows memory_ok_def)
qed (simp add: forget_memory_rows assms)

section \<open>Reading\<close>

definition record_of :: "store \<Rightarrow> memory_row \<Rightarrow> memory_record" where
  "record_of s r = projr (record_from_row s r)"

lemma record_of_row:
  assumes "row_inv ids seq r"
  shows "record_from_row s r = Ok (record_of s r)"
    and "mr_id (record_of s r) = ag_id r" "mr_superseded_by (record_of s r) = ag_superseded_by r"
    and "mr_body (record_of s r) = ag_body r"
  using assms by (auto simp: row_inv_def record_of_def record_from_row_def Let_def)

definition limited :: "nat option \<Rightarrow> 'a list \<Rightarrow> 'a list" where
  "limited l xs = (case l of Some n \<Rightarrow> if 0 < n then take n xs else xs | None \<Rightarrow> xs)"

lemma limited_map: "limited l (map f xs) = map f (limited l xs)"
  by (simp add: limited_def take_map split: option.split)

lemma set_limited: "set (limited l xs) \<subseteq> set xs"
  by (auto simp: limited_def dest: in_set_takeD split: option.split)

lemma sorted_limited: "sorted_wrt P xs \<Longrightarrow> sorted_wrt P (limited l xs)"
  by (simp add: limited_def sorted_wrt_take split: option.split)

lemma sort_key_sorted: "sorted (map f xs) \<Longrightarrow> sort_key f xs = xs"
  by (induction xs) (auto simp: insort_is_Cons)

lemma records_eq:
  assumes "memory_ok db"
  shows "records s db f = Ok (map (record_of s) (limited (mf_limit f) (rev (filter (keeps f) (mem_rows db)))))"
proof -
  have "sorted_wrt (<) (map ag_id (filter (keeps f) (mem_rows db)))"
    using assms by (simp add: memory_ok_def sorted_wrt_map sorted_wrt_filter)
  then have sorted: "sort_key ag_id (filter (keeps f) (mem_rows db)) = filter (keeps f) (mem_rows db)"
    by (simp add: sort_key_sorted strict_sorted_iff)
  have "try_map (record_from_row s) (limited (mf_limit f) (rev (filter (keeps f) (mem_rows db))))
      = Ok (map (record_of s) (limited (mf_limit f) (rev (filter (keeps f) (mem_rows db)))))"
  proof (rule try_map_total)
    fix r assume "r \<in> set (limited (mf_limit f) (rev (filter (keeps f) (mem_rows db))))"
    then have "r \<in> set (mem_rows db)" using set_limited by fastforce
    from memory_ok_row [OF assms this] show "record_from_row s r = Ok (record_of s r)" by (rule record_of_row)
  qed
  then show ?thesis by (simp add: records_def Let_def sorted limited_def)
qed

lemma get_memory_eq:
  assumes "memory_ok db" "r \<in> set (mem_rows db)"
  shows "get_memory s db (ag_id r) = Ok (Some (record_of s r))"
  using find_id [OF memory_ok_distinct [OF assms(1)] assms(2) refl] record_of_row(1) [OF memory_ok_row [OF assms]]
  by (simp add: get_memory_def)

text \<open>Every record, and every live one.\<close>

definition all_memories :: memory_filter where
  "all_memories = \<lparr>mf_scope = None, mf_kind = None, mf_anchor_key = None, mf_include_superseded = True, mf_limit = None\<rparr>"

definition live_memories :: memory_filter where
  "live_memories = all_memories\<lparr>mf_include_superseded := False\<rparr>"

lemma keeps_all [simp]: "keeps all_memories r" "keeps live_memories r \<longleftrightarrow> ag_superseded_by r = None"
  "mf_limit all_memories = None" "mf_limit live_memories = None"
  by (simp_all add: keeps_def all_memories_def live_memories_def)

section \<open>Properties\<close>

text \<open>Tables reached by writes against any graph at any time, and by forgetting.\<close>

inductive memory_reach :: "memory_db \<Rightarrow> bool" where
  empty: "memory_reach memory_empty"
| written: "memory_reach db \<Longrightarrow> record_memory s now db w = Ok (db', i) \<Longrightarrow> memory_reach db'"
| forget: "memory_reach db \<Longrightarrow> memory_reach (fst (forget_memory db i))"

lemma memory_reach_ok: "memory_reach db \<Longrightarrow> memory_ok db"
proof (induction rule: memory_reach.induct)
  case empty
  show ?case by (simp add: memory_ok_def memory_empty_def one_each_def)
qed (auto intro: record_memory_ok forget_memory_ok)

lemma memory_chains_parts:
  assumes "memory_reach db"
  shows "\<exists>rs. records s db f = Ok rs \<and> sorted_wrt (\<lambda>a b. mr_id b < mr_id a) rs
        \<and> (\<forall>r \<in> set rs. get_memory s db (mr_id r) = Ok (Some r))"
    and "\<exists>rs. records s db all_memories = Ok rs \<and> length rs = fst (memory_counts db) + snd (memory_counts db)
        \<and> (\<forall>r \<in> set rs. \<forall>j. mr_superseded_by r = Some j \<longrightarrow> mr_id r < j \<and> j \<in> mr_id ` set rs
             \<and> (\<forall>q \<in> set rs. mr_superseded_by q = Some j \<longrightarrow> q = r))"
proof -
  have ok: "memory_ok db" by (rule memory_reach_ok [OF assms])
  note row = memory_ok_row [OF ok]
  note sel = record_of_row [OF row]
  let ?rows = "limited (mf_limit f) (rev (filter (keeps f) (mem_rows db)))"
  have sub: "set ?rows \<subseteq> set (mem_rows db)" using set_limited by fastforce
  have mem: "x \<in> set (mem_rows db) \<and> mr_id (record_of s x) = ag_id x" if "x \<in> set ?rows" for x
    using that sub sel(2) by blast
  have "sorted_wrt (\<lambda>a b. ag_id b < ag_id a) (rev (filter (keeps f) (mem_rows db)))"
    using ok by (simp add: memory_ok_def sorted_wrt_map sorted_wrt_rev sorted_wrt_filter)
  then have "sorted_wrt (\<lambda>a b. ag_id b < ag_id a) ?rows" by (rule sorted_limited)
  then have "sorted_wrt (\<lambda>a b. mr_id (record_of s b) < mr_id (record_of s a)) ?rows"
    by (rule sorted_wrt_mono_rel [rotated]) (simp add: mem)
  moreover have "\<forall>r \<in> set ?rows. get_memory s db (mr_id (record_of s r)) = Ok (Some (record_of s r))"
    by (simp add: mem get_memory_eq [OF ok])
  ultimately show "\<exists>rs. records s db f = Ok rs \<and> sorted_wrt (\<lambda>a b. mr_id b < mr_id a) rs
        \<and> (\<forall>r \<in> set rs. get_memory s db (mr_id r) = Ok (Some r))"
    by (simp add: records_eq [OF ok] sorted_wrt_map)
  let ?rs = "map (record_of s) (rev (mem_rows db))"
  have "records s db all_memories = Ok ?rs" by (simp add: records_eq [OF ok] limited_def)
  moreover have "length ?rs = fst (memory_counts db) + snd (memory_counts db)"
    using sum_length_filter_compl [of "\<lambda>r. ag_superseded_by r = None" "mem_rows db"] by (simp add: memory_counts_def)
  moreover have "mr_id (record_of s r) < j \<and> j \<in> mr_id ` set ?rs
      \<and> (\<forall>q \<in> set (mem_rows db). mr_superseded_by (record_of s q) = Some j \<longrightarrow> record_of s q = record_of s r)"
    if r: "r \<in> set (mem_rows db)" "mr_superseded_by (record_of s r) = Some j" for r j
  proof -
    from r have j: "ag_superseded_by r = Some j" by (simp add: sel(3))
    have "\<forall>q \<in> set (mem_rows db). mr_superseded_by (record_of s q) = Some j \<longrightarrow> q = r"
      using ok r(1) j sel(3) by (auto simp: memory_ok_def one_each_def)
    moreover have "mr_id ` set ?rs = ag_id ` set (mem_rows db)" using sel(2) by (auto simp: image_image)
    ultimately show ?thesis using row [OF r(1)] j sel(2) [OF r(1)] by (auto simp: row_inv_def)
  qed
  ultimately show "\<exists>rs. records s db all_memories = Ok rs \<and> length rs = fst (memory_counts db) + snd (memory_counts db)
        \<and> (\<forall>r \<in> set rs. \<forall>j. mr_superseded_by r = Some j \<longrightarrow> mr_id r < j \<and> j \<in> mr_id ` set rs
             \<and> (\<forall>q \<in> set rs. mr_superseded_by q = Some j \<longrightarrow> q = r))"
    by (intro exI [of _ ?rs]) (simp add: image_image)
qed

text \<open>C22. On every reachable table, against every graph, every listing succeeds, newest first, and each record in it is
  the one its id names. Every supersession names a younger record that is still there, and no record supersedes two,
  so the chains never meet and never loop; the live and the superseded records are all there are.\<close>

theorem memory_chains:
  assumes "memory_reach db"
  shows "(\<exists>rs. records s db f = Ok rs \<and> sorted_wrt (\<lambda>a b. mr_id b < mr_id a) rs
        \<and> (\<forall>r \<in> set rs. get_memory s db (mr_id r) = Ok (Some r)))
    \<and> (\<exists>rs. records s db all_memories = Ok rs \<and> length rs = fst (memory_counts db) + snd (memory_counts db)
        \<and> (\<forall>r \<in> set rs. \<forall>j. mr_superseded_by r = Some j \<longrightarrow> mr_id r < j \<and> j \<in> mr_id ` set rs
             \<and> (\<forall>q \<in> set rs. mr_superseded_by q = Some j \<longrightarrow> q = r)))"
  using memory_chains_parts [OF assms] by (rule conjI)

lemma live_after_mark:
  "filter (\<lambda>r. ag_superseded_by r = None) (map (mark i now t) rows)
     = filter (\<lambda>r. t \<noteq> Some (ag_id r)) (filter (\<lambda>r. ag_superseded_by r = None) rows)"
  by (induction rows) (auto simp: mark_def)

text \<open>What the state of an anchor is in a graph: whether the node is there, and whether its content is the one captured.\<close>

definition anchor_in :: "store \<Rightarrow> string option \<Rightarrow> string option \<Rightarrow> anchor_state" where
  "anchor_in g anchor captured = (case anchor of
       None \<Rightarrow> Unanchored
     | Some k \<Rightarrow> (case node_of_key g k of
           None \<Rightarrow> Vanished
         | Some n \<Rightarrow> (case (captured, nr_blob_hash n) of
               (Some a, Some b) \<Rightarrow> if a = b then Valid else Drifted | _ \<Rightarrow> Unverifiable)))"

lemma record_of_new:
  "mr_id (record_of g (new_row s now i w)) = i" "mr_kind (record_of g (new_row s now i w)) = mw_kind w"
  "mr_body (record_of g (new_row s now i w)) = mw_body w"
  "mr_anchor_state (record_of g (new_row s now i w))
     = anchor_in g (mw_anchor w) (Option.bind (Option.bind (mw_anchor w) (node_of_key s)) nr_blob_hash)"
  by (auto simp: record_of_def record_from_row_def new_row_def Let_def anchor_in_def resolve_anchor_def
      split: option.split)

lemma record_memory_effect_parts:
  assumes "memory_reach db"
  shows "(\<exists>r. record_memory s now db w = Ok r) \<longleftrightarrow> validate w = Ok ()
      \<and> (case mw_supersedes w of None \<Rightarrow> True | Some t \<Rightarrow> \<exists>r. get_memory s db t = Ok (Some r) \<and> is_live r)"
    and "record_memory s now db w = Ok (db', i) \<Longrightarrow> records g db live_memories = Ok rs \<Longrightarrow>
      mem_seq db < i \<and> (\<exists>r. records g db' live_memories = Ok (r # filter (\<lambda>x. mw_supersedes w \<noteq> Some (mr_id x)) rs)
        \<and> mr_id r = i \<and> mr_kind r = mw_kind w \<and> mr_body r = mw_body w
        \<and> mr_anchor_state r = anchor_in g (mw_anchor w)
            (Option.bind (Option.bind (mw_anchor w) (node_of_key s)) nr_blob_hash))"
proof -
  have ok: "memory_ok db" by (rule memory_reach_ok [OF assms])
  note w = record_memory_Ok [OF ok, of s now w]
  have get: "(\<exists>r. get_memory s db t = Ok (Some r) \<and> is_live r)
      \<longleftrightarrow> (\<exists>r \<in> set (mem_rows db). ag_id r = t \<and> ag_superseded_by r = None)" for t
  proof (cases "\<exists>r \<in> set (mem_rows db). ag_id r = t")
    case True
    then obtain r where r: "r \<in> set (mem_rows db)" "ag_id r = t" by blast
    have uniq: "q = r" if "q \<in> set (mem_rows db)" "ag_id q = t" for q
      using memory_ok_distinct [OF ok] r that by (auto simp: distinct_map inj_on_def)
    have "(\<exists>r. get_memory s db t = Ok (Some r) \<and> is_live r) \<longleftrightarrow> ag_superseded_by r = None"
      using get_memory_eq [OF ok r(1), of s] record_of_row(3) [OF memory_ok_row [OF ok r(1)], of s] r(2)
      by (simp add: is_live_def)
    also have "\<dots> \<longleftrightarrow> (\<exists>r \<in> set (mem_rows db). ag_id r = t \<and> ag_superseded_by r = None)"
      using r uniq by blast
    finally show ?thesis .
  next
    case False
    then have "List.find (\<lambda>r. ag_id r = t) (mem_rows db) = None" by (auto simp: find_None_iff)
    with False show ?thesis by (auto simp: get_memory_def)
  qed
  show "(\<exists>r. record_memory s now db w = Ok r) \<longleftrightarrow> validate w = Ok ()
      \<and> (case mw_supersedes w of None \<Rightarrow> True | Some t \<Rightarrow> \<exists>r. get_memory s db t = Ok (Some r) \<and> is_live r)"
    using w unfolding get supersedable_def [symmetric] by auto
  assume r: "record_memory s now db w = Ok (db', i)" and rs: "records g db live_memories = Ok rs"
  have ok': "memory_ok db'" by (rule record_memory_ok [OF ok r])
  from r w have i: "i = mem_seq db + 1"
    and db': "mem_rows db' = map (mark i now (mw_supersedes w)) (mem_rows db) @ [new_row s now i w]" by simp_all
  let ?live = "filter (\<lambda>r. ag_superseded_by r = None) (mem_rows db)"
  have keep: "keeps live_memories = (\<lambda>r. ag_superseded_by r = None)" by (simp add: fun_eq_iff)
  have rs': "rs = map (record_of g) (rev ?live)" using rs by (simp add: records_eq [OF ok] limited_def keep)
  have "filter (\<lambda>x. mw_supersedes w \<noteq> Some (mr_id x)) rs
      = map (record_of g) (rev (filter (\<lambda>r. mw_supersedes w \<noteq> Some (ag_id r)) ?live))"
  proof -
    have "filter (\<lambda>x. mw_supersedes w \<noteq> Some (mr_id (record_of g x))) ?live = filter (\<lambda>r. mw_supersedes w \<noteq> Some (ag_id r)) ?live"
      by (rule filter_cong) (use record_of_row(2) [OF memory_ok_row [OF ok]] in auto)
    then show ?thesis by (simp add: rs' filter_map comp_def flip: rev_filter)
  qed
  then have "records g db' live_memories
      = Ok (record_of g (new_row s now i w) # filter (\<lambda>x. mw_supersedes w \<noteq> Some (mr_id x)) rs)"
    by (simp add: records_eq [OF ok'] limited_def db' live_after_mark keep)
  then show "mem_seq db < i \<and> (\<exists>r. records g db' live_memories = Ok (r # filter (\<lambda>x. mw_supersedes w \<noteq> Some (mr_id x)) rs)
        \<and> mr_id r = i \<and> mr_kind r = mw_kind w \<and> mr_body r = mw_body w
        \<and> mr_anchor_state r = anchor_in g (mw_anchor w)
            (Option.bind (Option.bind (mw_anchor w) (node_of_key s)) nr_blob_hash))"
    by (intro conjI exI [of _ "record_of g (new_row s now i w)"]) (simp_all add: i record_of_new)
qed

text \<open>C21. A write is accepted exactly when it is well-formed and what it supersedes is there and live. It gets an id larger
  than any ever given out, forgotten ones included; from then on the live listing starts with it and is otherwise the
  old one without the record it supersedes; and in every graph it applies or not by its anchor alone: vanished with the
  node, drifted when the node's content is not the one captured when it was written, whatever tree either was.\<close>

theorem record_memory_effect:
  assumes "memory_reach db"
  shows "((\<exists>r. record_memory s now db w = Ok r) \<longleftrightarrow> validate w = Ok ()
      \<and> (case mw_supersedes w of None \<Rightarrow> True | Some t \<Rightarrow> \<exists>r. get_memory s db t = Ok (Some r) \<and> is_live r))
    \<and> (\<forall>db' i g rs. record_memory s now db w = Ok (db', i) \<longrightarrow> records g db live_memories = Ok rs \<longrightarrow>
      mem_seq db < i \<and> (\<exists>r. records g db' live_memories = Ok (r # filter (\<lambda>x. mw_supersedes w \<noteq> Some (mr_id x)) rs)
        \<and> mr_id r = i \<and> mr_kind r = mw_kind w \<and> mr_body r = mw_body w
        \<and> mr_anchor_state r = anchor_in g (mw_anchor w)
            (Option.bind (Option.bind (mw_anchor w) (node_of_key s)) nr_blob_hash)))"
  using record_memory_effect_parts [OF assms] by blast

lemma filter_eq_distinct: "distinct xs \<Longrightarrow> x \<in> set xs \<Longrightarrow> filter (\<lambda>y. y = x) xs = [x]"
  by (induction xs) (auto simp: filter_empty_conv)

lemma forget_undoes_record_parts:
  assumes "memory_reach db" "record_memory s now db w = Ok (db', i)"
  shows "forget_memory db' i = (db\<lparr>mem_seq := i\<rparr>,
      Some \<lparr>mg_id = i, mg_restored = (case mw_supersedes w of Some t \<Rightarrow> [t] | None \<Rightarrow> [])\<rparr>)"
    and "j \<notin> ag_id ` set (mem_rows db) \<Longrightarrow> forget_memory db j = (db, None)"
proof -
  have ok: "memory_ok db" by (rule memory_reach_ok [OF assms(1)])
  from assms(2) record_memory_Ok [OF ok] have sup: "supersedable db (mw_supersedes w)" and i: "i = mem_seq db + 1"
    and db': "db' = \<lparr>mem_seq = i, mem_rows = map (mark i now (mw_supersedes w)) (mem_rows db) @ [new_row s now i w]\<rparr>"
    by simp_all
  have fresh: "ag_id r \<noteq> i \<and> ag_superseded_by r \<noteq> Some i \<and> (ag_superseded_by r = None \<longrightarrow> ag_superseded_at r = None)"
    if "r \<in> set (mem_rows db)" for r
    using memory_ok_row [OF ok that] memory_ok_id [OF ok] i by (fastforce simp: row_inv_def)
  have once: "ag_superseded_by r = None" if "r \<in> set (mem_rows db)" "mw_supersedes w = Some (ag_id r)" for r
  proof -
    from sup that obtain q where q: "q \<in> set (mem_rows db)" "ag_id q = ag_id r" "ag_superseded_by q = None"
      by (auto simp: supersedable_def)
    then have "q = r" using memory_ok_distinct [OF ok] that by (auto simp: distinct_map inj_on_def)
    with q show ?thesis by simp
  qed
  have undo: "unmark i (mark i now (mw_supersedes w) r) = r" if "r \<in> set (mem_rows db)" for r
    using fresh [OF that] once [OF that] by (auto simp: unmark_def mark_def)
  have "map (unmark i) (filter (\<lambda>r. ag_id r \<noteq> i) (mem_rows db')) = mem_rows db"
    using fresh undo by (simp add: db' filter_map comp_def map_idI)
  then have rows: "fst (forget_memory db' i) = db\<lparr>mem_seq := i\<rparr>"
    by (simp add: forget_memory_rows db')
  have "filter (\<lambda>r. ag_superseded_by r = Some i) (mem_rows db')
      = map (mark i now (mw_supersedes w)) (filter (\<lambda>r. mw_supersedes w = Some (ag_id r)) (mem_rows db))"
    using fresh by (auto simp: db' filter_map comp_def intro!: arg_cong [where f = "map _"] filter_cong)
  then have "sort (map ag_id (filter (\<lambda>r. ag_superseded_by r = Some i) (mem_rows db')))
      = sort (map ag_id (filter (\<lambda>r. mw_supersedes w = Some (ag_id r)) (mem_rows db)))" by (simp add: comp_def)
  also have "\<dots> = (case mw_supersedes w of Some t \<Rightarrow> [t] | None \<Rightarrow> [])"
  proof (cases "mw_supersedes w")
    case (Some t)
    with sup have "t \<in> set (map ag_id (mem_rows db))" by (auto simp: supersedable_def)
    then have "filter (\<lambda>x. x = t) (map ag_id (mem_rows db)) = [t]"
      using memory_ok_distinct [OF ok] by (simp add: filter_eq_distinct)
    then have "map ag_id (filter (\<lambda>r. ag_id r = t) (mem_rows db)) = [t]" by (simp add: filter_map comp_def)
    then show ?thesis by (simp add: Some eq_commute [of t])
  qed simp
  finally have "snd (forget_memory db' i)
      = Some \<lparr>mg_id = i, mg_restored = (case mw_supersedes w of Some t \<Rightarrow> [t] | None \<Rightarrow> [])\<rparr>"
    by (simp add: forget_memory_def Let_def db' list_ex_iff)
  with rows show "forget_memory db' i = (db\<lparr>mem_seq := i\<rparr>,
      Some \<lparr>mg_id = i, mg_restored = (case mw_supersedes w of Some t \<Rightarrow> [t] | None \<Rightarrow> [])\<rparr>)"
    by (metis prod.collapse)
  show "j \<notin> ag_id ` set (mem_rows db) \<Longrightarrow> forget_memory db j = (db, None)"
    by (auto simp: forget_memory_def list_ex_iff)
qed

text \<open>C20. Forgetting undoes a write: forgetting the record just written leaves exactly the rows there were before, what it
  had superseded live again and reported as restored; only the id is never given out again. Forgetting an id that is
  not there changes nothing.\<close>

theorem forget_undoes_record:
  assumes "memory_reach db" "record_memory s now db w = Ok (db', i)"
  shows "forget_memory db' i = (db\<lparr>mem_seq := i\<rparr>,
      Some \<lparr>mg_id = i, mg_restored = (case mw_supersedes w of Some t \<Rightarrow> [t] | None \<Rightarrow> [])\<rparr>)
    \<and> (\<forall>j. j \<notin> ag_id ` set (mem_rows db) \<longrightarrow> forget_memory db j = (db, None))"
  using forget_undoes_record_parts [OF assms] by blast

lemma recalled_le_total: "total_on_list recalled_le A"
  unfolding total_on_list_def recalled_le_def by auto

definition recall_filter :: "recall_options \<Rightarrow> memory_filter" where
  "recall_filter o' = \<lparr>mf_scope = ro_scope o', mf_kind = ro_kind o', mf_anchor_key = ro_anchor_key o',
     mf_include_superseded = False, mf_limit = None\<rparr>"

lemma applies_state: "row_inv ids seq r \<Longrightarrow> mr_applies (record_of s r) = anchor_applies (mr_anchor_state (record_of s r))"
  by (auto simp: row_inv_def record_of_def record_from_row_def Let_def)

text \<open>C23. Recall answers with records in force only: never a superseded one and, when asked for those that apply, never one
  whose anchor drifted, vanished or cannot be checked. It is a ranking of all of them that match, each scored from its
  confidence, its anchor and its age in generations, greatest first and the younger first among equals; a limit cuts
  that ranking short and changes nothing in it.\<close>

theorem recall_ranked:
  assumes "memory_reach db"
  shows "\<exists>rs ranked. records s db (recall_filter opts) = Ok rs
    \<and> recall fl lower s db opts
        = Ok (case ro_limit opts of Some n \<Rightarrow> if 0 < n then take n ranked else ranked | None \<Rightarrow> ranked)
    \<and> sorted_wrt recalled_le ranked
    \<and> (\<forall>x \<in> set ranked. re_record x \<in> set rs \<and> is_live (re_record x)
         \<and> (ro_applicable_only opts \<longrightarrow> mr_anchor_state (re_record x) \<in> {Unanchored, Valid})
         \<and> x = recalled_of fl (ro_decay opts) (generation db) (re_record x))
    \<and> (ro_query opts = None \<and> \<not> ro_applicable_only opts \<longrightarrow>
         mset ranked = image_mset (recalled_of fl (ro_decay opts) (generation db)) (mset rs))"
proof -
  have ok: "memory_ok db" by (rule memory_reach_ok [OF assms])
  let ?live = "filter (keeps (recall_filter opts)) (mem_rows db)"
  let ?rs = "map (record_of s) (rev ?live)"
  have rs: "records s db (recall_filter opts) = Ok ?rs"
    by (simp add: records_eq [OF ok] limited_def recall_filter_def)
  define tokens where "tokens = (case ro_query opts of Some q \<Rightarrow> query_tokens (lower (trim q)) | None \<Rightarrow> [])"
  let ?kept = "filter (\<lambda>r. (ro_applicable_only opts \<longrightarrow> mr_applies r)
                     \<and> (tokens \<noteq> [] \<longrightarrow> matches_tokens lower r tokens)) ?rs"
  let ?of = "recalled_of fl (ro_decay opts) (generation db)"
  let ?ranked = "sort_by recalled_le (map ?of ?kept)"
  have r: "recall fl lower s db opts
        = Ok (case ro_limit opts of Some n \<Rightarrow> if 0 < n then take n ?ranked else ?ranked | None \<Rightarrow> ?ranked)"
    using rs unfolding recall_def recall_filter_def [symmetric]
    by (simp add: Let_def tokens_def window_take split: option.split)
  have sel: "re_record (?of x) = x" for x by (simp add: recalled_of_def Let_def)
  have good: "is_live x \<and> mr_applies x = (mr_anchor_state x \<in> {Unanchored, Valid})" if x: "x \<in> set ?rs" for x
  proof -
    from x obtain q where q: "q \<in> set (mem_rows db)" "keeps (recall_filter opts) q" "x = record_of s q" by auto
    note inv = memory_ok_row [OF ok q(1)]
    have "ag_superseded_by q = None" using q(2) by (auto simp: keeps_def recall_filter_def)
    then show ?thesis using record_of_row(3) [OF inv, of s] applies_state [OF inv, of s]
      by (simp add: q(3) is_live_def anchor_applies_def)
  qed
  have "re_record x \<in> set ?rs \<and> is_live (re_record x)
         \<and> (ro_applicable_only opts \<longrightarrow> mr_anchor_state (re_record x) \<in> {Unanchored, Valid}) \<and> x = ?of (re_record x)"
    if x: "x \<in> set ?ranked" for x
  proof -
    from x obtain y where y: "y \<in> set ?kept" "x = ?of y" by (simp only: set_sort_by set_map) blast
    then have "y \<in> set ?rs" "ro_applicable_only opts \<longrightarrow> mr_applies y" unfolding set_filter mem_Collect_eq by blast+
    with good [of y] show ?thesis by (simp only: y(2) sel)
  qed
  moreover have "sorted_wrt recalled_le ?ranked" by (rule sorted_sort_by [OF recalled_le_total])
  moreover have "mset ?ranked = image_mset ?of (mset ?rs)" if "ro_query opts = None \<and> \<not> ro_applicable_only opts"
  proof -
    have "?kept = ?rs" using that by (simp add: tokens_def)
    then show ?thesis by (simp only: mset_sort_by mset_map)
  qed
  ultimately show ?thesis using rs r by blast
qed

section \<open>Witnesses\<close>

definition demo_write :: "int option \<Rightarrow> memory_write" where
  "demo_write target = \<lparr>mw_scope = ''repo'', mw_kind = Lesson, mw_anchor = Some ''k'', mw_body = ''b'',
     mw_confidence = None, mw_supersedes = target\<rparr>"

definition demo_memory :: memory_db where
  "demo_memory = \<lparr>mem_seq = 1, mem_rows = [new_row empty_store ''t'' 1 (demo_write None)]\<rparr>"

lemma demo_valid: "validate (demo_write target) = Ok ()"
proof -
  have "trim ''repo'' = ''repo''" "trim ''b'' = ''b''" by code_simp+
  moreover have "\<not> list_ex is_control (chars ''repo'')" by code_simp
  ultimately show ?thesis by (simp add: validate_def demo_write_def MAX_MEMORY_SCOPE_def MAX_MEMORY_BODY_def)
qed

lemma demo_recorded: "record_memory empty_store ''t'' memory_empty (demo_write None) = Ok (demo_memory, 1)"
proof -
  have "memory_ok memory_empty" by (rule memory_reach_ok [OF memory_reach.empty])
  from record_memory_Ok [OF this] demo_valid show ?thesis
    by (simp add: supersedable_def demo_memory_def memory_empty_def demo_write_def)
qed

lemma demo_memory_reach: "memory_reach demo_memory"
  by (rule memory_reach.written [OF memory_reach.empty demo_recorded])

lemma demo_superseded: "\<exists>db'. record_memory empty_store ''u'' demo_memory (demo_write (Some 1)) = Ok (db', 2)"
  using record_memory_Ok [OF memory_reach_ok [OF demo_memory_reach], of empty_store "''u''" "demo_write (Some 1)"] demo_valid
  by (simp add: supersedable_def demo_memory_def demo_write_def)

theorem memory_chains_witness:
  "\<exists>rs. records empty_store demo_memory all_memories = Ok rs \<and> length rs = 1"
  using memory_chains [OF demo_memory_reach, of empty_store, THEN conjunct2] by (auto simp: memory_counts_def demo_memory_def)

theorem record_memory_effect_witness:
  "\<exists>r. record_memory empty_store ''t'' demo_memory (demo_write None) = Ok r"
  using record_memory_effect [OF demo_memory_reach, of empty_store "''t''" "demo_write None", THEN conjunct1] demo_valid
  by (simp add: demo_write_def)

theorem forget_undoes_record_witness:
  "\<exists>db'. record_memory empty_store ''u'' demo_memory (demo_write (Some 1)) = Ok (db', 2)
     \<and> mem_rows (fst (forget_memory db' 2)) = mem_rows demo_memory"
proof -
  obtain db' where r: "record_memory empty_store ''u'' demo_memory (demo_write (Some 1)) = Ok (db', 2)"
    using demo_superseded by blast
  from forget_undoes_record [OF demo_memory_reach r] have "mem_rows (fst (forget_memory db' 2)) = mem_rows demo_memory"
    by simp
  with r show ?thesis by blast
qed

definition demo_recall :: recall_options where
  "demo_recall = \<lparr>ro_scope = None, ro_kind = None, ro_anchor_key = None, ro_query = None, ro_decay = NoDecay,
     ro_applicable_only = True, ro_limit = Some 1\<rparr>"

theorem recall_ranked_witness:
  "\<exists>ranked. recall \<lparr>linear = \<lambda>_ _. 0, halving = \<lambda>_ _. 0, times = (*)\<rparr> id empty_store demo_memory demo_recall = Ok (take 1 ranked)"
  using recall_ranked [OF demo_memory_reach, of empty_store demo_recall "\<lparr>linear = \<lambda>_ _. 0, halving = \<lambda>_ _. 0, times = (*)\<rparr>" id]
  by (auto simp: demo_recall_def)

end
