(* ===== verification/AgentCache.thy ===== *)
theory AgentCache imports Memory PrefixCache begin

text \<open>
  \<open>crates/rto-graph/src/memory.rs\<close>, the cache tier: derivable artifacts with logical access times, swept to a
  byte budget. The tables are \<open>agent_cache\<close> and \<open>agent_cache_clock\<close> of migration 13. Counters are natural
  numbers, \<open>saturating_add\<close> written out; a failed insert keeps the tick it took, as no transaction is around it.
\<close>

section \<open>Table\<close>

record cache_write =
  cw_key :: string
  cw_fingerprint :: string
  cw_json :: string
  cw_anchor :: "string option"

record agent_entry =
  ae_key :: string
  ae_fingerprint :: string
  ae_json :: string
  ae_bytes :: nat
  ae_generation :: nat
  ae_last_used :: nat
  ae_hits :: nat
  ae_anchor :: "string option"
  ae_anchor_state :: anchor_state

record agent_row =
  ac_key :: string
  ac_fingerprint :: string
  ac_json :: string
  ac_bytes :: nat
  ac_generation :: nat
  ac_last_used :: nat
  ac_hits :: nat
  ac_anchor_key :: "string option"
  ac_anchor_blob :: "string option"

record agent_cache =
  agc_rows :: "agent_row list"
  agc_ticks :: nat
  agc_generation :: nat

record cache_stats =
  ct_entries :: nat
  ct_bytes :: nat
  ct_budget_bytes :: nat
  ct_generation :: nat

record cache_sweep_report =
  cw_budget_bytes :: nat
  cw_scanned :: nat
  cw_pinned :: nat
  cw_evicted :: nat
  cw_freed_bytes :: nat
  cw_retained_bytes :: nat
  cw_over_budget :: bool
  cw_generation :: nat

definition agent_cache_empty :: agent_cache where
  "agent_cache_empty = \<lparr>agc_rows = [], agc_ticks = 0, agc_generation = 0\<rparr>"

definition next_tick :: "agent_cache \<Rightarrow> agent_cache \<times> nat" where
  "next_tick c = (c\<lparr>agc_ticks := Suc (agc_ticks c)\<rparr>, Suc (agc_ticks c))"

definition I64_MAX :: nat where "I64_MAX = 9223372036854775807"

text \<open>The result says whether the insert passed the table's check on the key.\<close>

definition cache_put :: "store \<Rightarrow> agent_cache \<Rightarrow> cache_write \<Rightarrow> agent_cache \<times> bool" where
  "cache_put s c w =
     (let bytes = min (length (cw_key w) + length (cw_fingerprint w) + length (cw_json w)) I64_MAX;
          anchor_blob = Option.bind (Option.bind (cw_anchor w) (node_of_key s)) nr_blob_hash
      in case next_tick c of (c, tick) \<Rightarrow>
           if cw_key w = [] then (c, False)
           else let row = \<lparr>ac_key = cw_key w, ac_fingerprint = cw_fingerprint w, ac_json = cw_json w,
                           ac_bytes = bytes, ac_generation = agc_generation c, ac_last_used = tick, ac_hits = 0,
                           ac_anchor_key = cw_anchor w, ac_anchor_blob = anchor_blob\<rparr>
                in (if list_ex (\<lambda>r. ac_key r = cw_key w) (agc_rows c)
                    then c\<lparr>agc_rows := map (\<lambda>r. if ac_key r = cw_key w then row\<lparr>ac_hits := ac_hits r\<rparr> else r) (agc_rows c)\<rparr>
                    else c\<lparr>agc_rows := agc_rows c @ [row]\<rparr>, True))"

definition row_anchor_state :: "store \<Rightarrow> agent_row \<Rightarrow> anchor_state" where
  "row_anchor_state s r =
     (let joined = Option.bind (ac_anchor_key r) (node_of_key s)
      in resolve_anchor (ac_anchor_key r) (ac_anchor_blob r) (map_option nr_key joined) (Option.bind joined nr_blob_hash))"

definition cache_entry_from_row :: "store \<Rightarrow> agent_row \<Rightarrow> agent_entry" where
  "cache_entry_from_row s r =
     \<lparr>ae_key = ac_key r, ae_fingerprint = ac_fingerprint r, ae_json = ac_json r, ae_bytes = ac_bytes r,
      ae_generation = ac_generation r, ae_last_used = ac_last_used r, ae_hits = ac_hits r,
      ae_anchor = ac_anchor_key r, ae_anchor_state = row_anchor_state s r\<rparr>"

definition cache_get :: "store \<Rightarrow> agent_cache \<Rightarrow> string \<Rightarrow> agent_cache \<times> agent_entry option" where
  "cache_get s c key =
     (case List.find (\<lambda>r. ac_key r = key) (agc_rows c) of
        None \<Rightarrow> (c, None)
      | Some r \<Rightarrow> (case next_tick c of (c, tick) \<Rightarrow>
          (c\<lparr>agc_rows := map (\<lambda>r. if ac_key r = key
               then r\<lparr>ac_hits := Suc (ac_hits r), ac_last_used := tick\<rparr> else r) (agc_rows c)\<rparr>,
           Some (cache_entry_from_row s r))))"

definition cache_entries :: "store \<Rightarrow> agent_cache \<Rightarrow> agent_entry list" where
  "cache_entries s c = map (cache_entry_from_row s) (sort_key ac_key (agc_rows c))"

definition cache_forget :: "agent_cache \<Rightarrow> string \<Rightarrow> agent_cache \<times> bool" where
  "cache_forget c key =
     (c\<lparr>agc_rows := filter (\<lambda>r. ac_key r \<noteq> key) (agc_rows c)\<rparr>, list_ex (\<lambda>r. ac_key r = key) (agc_rows c))"

definition cache_bytes :: "agent_row list \<Rightarrow> nat" where
  "cache_bytes rows = sum_list (map ac_bytes rows)"

definition cache_stats_of :: "agent_cache \<Rightarrow> nat \<Rightarrow> cache_stats" where
  "cache_stats_of c budget = \<lparr>ct_entries = length (agc_rows c), ct_bytes = cache_bytes (agc_rows c),
     ct_budget_bytes = budget, ct_generation = agc_generation c\<rparr>"

section \<open>The sweep\<close>

text \<open>How many entries go, the loop's total and count carried along.\<close>

fun evict_loop :: "nat list \<Rightarrow> nat \<Rightarrow> nat \<Rightarrow> nat" where
  "evict_loop [] tot budget = 0"
| "evict_loop (b # bs) tot budget = (if budget < tot then Suc (evict_loop bs (tot - b) budget) else 0)"

definition evict_count :: "nat list \<Rightarrow> nat \<Rightarrow> nat \<Rightarrow> nat" where
  "evict_count evictable pinned budget = evict_loop evictable (sat_add pinned (sum_list evictable)) budget"

definition own_work :: "store \<Rightarrow> agent_cache \<Rightarrow> agent_row \<Rightarrow> bool" where
  "own_work s c r \<longleftrightarrow> agc_generation c \<le> ac_generation r \<and> anchor_applies (row_anchor_state s r)"

definition mru_key :: "agent_row list \<Rightarrow> string option" where
  "mru_key rows = map_option ac_key (max_by_key ac_last_used rows)"

definition is_pinned :: "store \<Rightarrow> agent_cache \<Rightarrow> agent_row \<Rightarrow> bool" where
  "is_pinned s c r \<longleftrightarrow> mru_key (sort_key ac_key (agc_rows c)) = Some (ac_key r) \<or> own_work s c r"

definition candidate_key :: "store \<Rightarrow> agent_row \<Rightarrow> bool \<times> nat \<times> string" where
  "candidate_key s r = (anchor_applies (row_anchor_state s r), ac_last_used r, ac_key r)"

definition candidates :: "store \<Rightarrow> agent_cache \<Rightarrow> agent_row list" where
  "candidates s c = sort_key (candidate_key s) (filter (\<lambda>r. \<not> is_pinned s c r) (sort_key ac_key (agc_rows c)))"

definition cache_sweep :: "store \<Rightarrow> agent_cache \<Rightarrow> nat \<Rightarrow> agent_cache \<times> cache_sweep_report" where
  "cache_sweep s c budget =
     (let entries = sort_key ac_key (agc_rows c);
          pinned_bytes = foldl (\<lambda>t r. if is_pinned s c r then sat_add t (ac_bytes r) else t) 0 entries;
          cands = candidates s c;
          evicted = evict_count (map ac_bytes cands) pinned_bytes budget;
          gone = take evicted cands;
          freed = foldl (\<lambda>t r. sat_add t (ac_bytes r)) 0 gone;
          rows = foldl (\<lambda>rows e. filter (\<lambda>r. ac_key r \<noteq> ac_key e) rows) (agc_rows c) gone;
          retained = cache_bytes entries - freed
      in (c\<lparr>agc_rows := rows, agc_generation := Suc (agc_generation c)\<rparr>,
          \<lparr>cw_budget_bytes = budget, cw_scanned = length entries, cw_pinned = length entries - length cands,
           cw_evicted = evicted, cw_freed_bytes = freed, cw_retained_bytes = retained,
           cw_over_budget = (budget < retained), cw_generation = Suc (agc_generation c)\<rparr>))"

section \<open>What the sweep does\<close>

lemma evict_loop_le: "evict_loop bs tot budget \<le> length bs"
  by (induction bs arbitrary: tot) auto

text \<open>The loop stops as soon as the rest fits, or when nothing is left to evict.\<close>

lemma evict_loop_spec:
  "let n = evict_loop bs (p + sum_list bs) budget in
     (p + sum_list (drop n bs) \<le> budget \<or> n = length bs)
     \<and> (0 < n \<longrightarrow> budget < p + sum_list (drop (n - 1) bs))"
proof (induction bs)
  case (Cons b bs)
  have "p + sum_list (b # bs) - b = p + sum_list bs" by simp
  then have e: "evict_loop (b # bs) (p + sum_list (b # bs)) budget =
      (if budget < p + sum_list (b # bs) then Suc (evict_loop bs (p + sum_list bs) budget) else 0)"
    by (simp only: evict_loop.simps)
  let ?n = "evict_loop bs (p + sum_list bs) budget"
  show ?case
  proof (cases "budget < p + sum_list (b # bs)")
    case True
    then have n: "evict_loop (b # bs) (p + sum_list (b # bs)) budget = Suc ?n" by (simp only: e if_True)
    show ?thesis unfolding n Let_def
      using Cons True by (cases ?n) (auto simp: Let_def)
  next
    case False
    then show ?thesis by (simp add: e)
  qed
qed simp

lemma foldl_sat:
  "t \<le> U64_MAX \<Longrightarrow> foldl (\<lambda>t r. if P r then sat_add t (f r) else t) t rs = min U64_MAX (t + sum_list (map f (filter P rs)))"
proof (induction rs arbitrary: t)
  case (Cons r rs)
  have "sat_add t (f r) \<le> U64_MAX" by (simp add: sat_add_def)
  with Cons show ?case by (auto simp: sat_add_def min_def)
qed (simp add: min_def)

lemma foldl_sat_all: "foldl (\<lambda>t r. sat_add t (f r)) 0 rs = min U64_MAX (sum_list (map f rs))"
  using foldl_sat [of 0 "\<lambda>_. True" f rs] by simp

lemma foldl_filter_keys:
  "foldl (\<lambda>rows e. filter (\<lambda>r. ac_key r \<noteq> ac_key e) rows) rows gone = filter (\<lambda>r. ac_key r \<notin> ac_key ` set gone) rows"
proof (induction gone arbitrary: rows)
  case (Cons e gone)
  have "foldl (\<lambda>rows e. filter (\<lambda>r. ac_key r \<noteq> ac_key e) rows) rows (e # gone)
      = filter (\<lambda>r. ac_key r \<notin> ac_key ` set gone) (filter (\<lambda>r. ac_key r \<noteq> ac_key e) rows)"
    by (simp add: Cons.IH)
  also have "\<dots> = filter (\<lambda>r. ac_key r \<notin> ac_key ` set (e # gone)) rows" by (auto intro: filter_cong)
  finally show ?case .
qed simp

definition agent_ok :: "agent_cache \<Rightarrow> bool" where
  "agent_ok c \<longleftrightarrow> distinct (map ac_key (agc_rows c)) \<and> distinct (map ac_last_used (agc_rows c))
     \<and> (\<forall>r \<in> set (agc_rows c). ac_last_used r \<le> agc_ticks c \<and> ac_generation r \<le> agc_generation c \<and> ac_key r \<noteq> [])"

lemma agent_ok_keys: "agent_ok c \<Longrightarrow> r \<in> set (agc_rows c) \<Longrightarrow> q \<in> set (agc_rows c) \<Longrightarrow> ac_key r = ac_key q \<Longrightarrow> r = q"
  by (auto simp: agent_ok_def distinct_map inj_on_def)

lemma set_candidates: "set (candidates s c) = {r \<in> set (agc_rows c). \<not> is_pinned s c r}"
  by (auto simp: candidates_def)

lemma sum_sort_key: "sum_list (map f (sort_key k xs)) = sum_list (map f xs :: nat list)"
  by (metis mset_map mset_sort sum_mset_sum_list)

lemma candidates_bytes:
  "sum_list (map ac_bytes (candidates s c)) + sum_list (map ac_bytes (filter (is_pinned s c) (agc_rows c))) = cache_bytes (agc_rows c)"
proof -
  have "sum_list (map ac_bytes (candidates s c)) = sum_list (map ac_bytes (filter (\<lambda>r. \<not> is_pinned s c r) (agc_rows c)))"
    by (simp only: candidates_def filter_sort sum_sort_key)
  moreover have "sum_list (map f (filter P xs)) + sum_list (map f (filter (\<lambda>x. \<not> P x) xs)) = sum_list (map f xs :: nat list)"
    for f and P :: "agent_row \<Rightarrow> bool" and xs by (induction xs) auto
  ultimately show ?thesis by (simp add: cache_bytes_def add.commute)
qed

text \<open>The sweep with the totals written as sums: the entries a prefix of the candidates names are gone.\<close>

lemma cache_sweep_eq:
  fixes s c budget
  defines "p \<equiv> sum_list (map ac_bytes (filter (is_pinned s c) (agc_rows c)))"
  defines "n \<equiv> evict_loop (map ac_bytes (candidates s c)) (p + sum_list (map ac_bytes (candidates s c))) budget"
  defines "gone \<equiv> take n (candidates s c)"
  assumes ok: "agent_ok c" and fit: "cache_bytes (agc_rows c) \<le> U64_MAX"
  shows "agc_rows (fst (cache_sweep s c budget)) = filter (\<lambda>r. r \<notin> set gone) (agc_rows c)"
    and "cw_evicted (snd (cache_sweep s c budget)) = n"
    and "cw_freed_bytes (snd (cache_sweep s c budget)) = sum_list (map ac_bytes gone)"
    and "cw_retained_bytes (snd (cache_sweep s c budget)) = cache_bytes (agc_rows c) - sum_list (map ac_bytes gone)"
    and "cw_over_budget (snd (cache_sweep s c budget)) = (budget < cw_retained_bytes (snd (cache_sweep s c budget)))"
    and "cw_scanned (snd (cache_sweep s c budget)) = length (agc_rows c)"
    and "cw_pinned (snd (cache_sweep s c budget)) = length (agc_rows c) - length (candidates s c)"
    and "agc_ticks (fst (cache_sweep s c budget)) = agc_ticks c"
    and "agc_generation (fst (cache_sweep s c budget)) = Suc (agc_generation c)"
proof -
  have split: "p + sum_list (map ac_bytes (candidates s c)) = cache_bytes (agc_rows c)"
    using candidates_bytes [of s c] by (simp add: p_def)
  have pinned: "foldl (\<lambda>t r. if is_pinned s c r then sat_add t (ac_bytes r) else t) 0 (sort_key ac_key (agc_rows c)) = p"
  proof -
    have "sum_list (map ac_bytes (filter (is_pinned s c) (sort_key ac_key (agc_rows c)))) = p"
      unfolding p_def filter_sort by (simp only: sum_sort_key)
    then show ?thesis using foldl_sat [of 0 "is_pinned s c" ac_bytes] split fit by (simp add: min_def)
  qed
  have count: "evict_count (map ac_bytes (candidates s c)) p budget = n"
    using split fit by (simp add: evict_count_def n_def sat_add_def)
  have gone: "sum_list (map ac_bytes gone) \<le> U64_MAX"
  proof -
    have "sum_list (map ac_bytes gone) \<le> sum_list (map ac_bytes (candidates s c))"
      unfolding gone_def by (metis append_take_drop_id le_add1 map_append sum_list_append)
    then show ?thesis using split fit by linarith
  qed
  then have freed: "foldl (\<lambda>t r. sat_add t (ac_bytes r)) 0 gone = sum_list (map ac_bytes gone)"
    by (simp add: foldl_sat_all min_def)
  have sub: "set gone \<subseteq> set (agc_rows c)" using set_take_subset [of n "candidates s c"] by (auto simp: gone_def set_candidates)
  have rows: "filter (\<lambda>r. ac_key r \<notin> ac_key ` set gone) (agc_rows c) = filter (\<lambda>r. r \<notin> set gone) (agc_rows c)"
    by (rule filter_cong) (use agent_ok_keys [OF ok] sub in blast)+
  have held: "cache_bytes (sort_key ac_key (agc_rows c)) = cache_bytes (agc_rows c)"
    by (simp only: cache_bytes_def sum_sort_key)
  note sw = cache_sweep_def [of s c budget, unfolded Let_def pinned count gone_def [symmetric] freed foldl_filter_keys rows held]
  show "agc_rows (fst (cache_sweep s c budget)) = filter (\<lambda>r. r \<notin> set gone) (agc_rows c)"
    "cw_evicted (snd (cache_sweep s c budget)) = n"
    "cw_freed_bytes (snd (cache_sweep s c budget)) = sum_list (map ac_bytes gone)"
    "cw_retained_bytes (snd (cache_sweep s c budget)) = cache_bytes (agc_rows c) - sum_list (map ac_bytes gone)"
    "cw_over_budget (snd (cache_sweep s c budget)) = (budget < cw_retained_bytes (snd (cache_sweep s c budget)))"
    "cw_scanned (snd (cache_sweep s c budget)) = length (agc_rows c)"
    "cw_pinned (snd (cache_sweep s c budget)) = length (agc_rows c) - length (candidates s c)"
    "agc_ticks (fst (cache_sweep s c budget)) = agc_ticks c"
    "agc_generation (fst (cache_sweep s c budget)) = Suc (agc_generation c)"
    by (simp_all add: sw)
qed

section \<open>Reachable caches\<close>

lemma agent_ok_find:
  assumes "agent_ok c" "r \<in> set (agc_rows c)"
  shows "List.find (\<lambda>q. ac_key q = ac_key r) (agc_rows c) = Some r"
  using assms by (auto simp: agent_ok_def intro: distinct_map_find)

lemma agent_okI:
  "distinct (map ac_key rows) \<Longrightarrow> distinct (map ac_last_used rows)
    \<Longrightarrow> (\<And>r. r \<in> set rows \<Longrightarrow> ac_last_used r \<le> t \<and> ac_generation r \<le> agc_generation c \<and> ac_key r \<noteq> [])
    \<Longrightarrow> agent_ok (c\<lparr>agc_ticks := t, agc_rows := rows\<rparr>)"
  by (simp add: agent_ok_def)

text \<open>Touching the row of one key at the next tick.\<close>

lemma touch_ok:
  assumes ok: "agent_ok c" and k: "\<And>r. ac_key (f r) = ac_key r" "\<And>r. ac_last_used (f r) = Suc (agc_ticks c)"
    "\<And>r. r \<in> set (agc_rows c) \<Longrightarrow> ac_generation (f r) \<le> agc_generation c"
  shows "agent_ok (c\<lparr>agc_ticks := Suc (agc_ticks c), agc_rows := map (\<lambda>r. if ac_key r = key then f r else r) (agc_rows c)\<rparr>)"
proof -
  let ?g = "\<lambda>r. if ac_key r = key then f r else r"
  have keys: "ac_key (?g r) = ac_key r" for r by (simp add: k)
  have d: "distinct (map ac_key (agc_rows c))" "distinct (map ac_last_used (agc_rows c))" "distinct (agc_rows c)"
    and used: "\<And>r. r \<in> set (agc_rows c) \<Longrightarrow> ac_last_used r \<le> agc_ticks c \<and> ac_generation r \<le> agc_generation c \<and> ac_key r \<noteq> []"
    using ok by (auto simp: agent_ok_def distinct_map)
  have "inj_on (\<lambda>r. ac_last_used (?g r)) (set (agc_rows c))"
  proof (rule inj_onI)
    fix r q assume rq: "r \<in> set (agc_rows c)" "q \<in> set (agc_rows c)" "ac_last_used (?g r) = ac_last_used (?g q)"
    have "ac_last_used r \<noteq> Suc (agc_ticks c)" "ac_last_used q \<noteq> Suc (agc_ticks c)" using used rq by fastforce+
    with rq(3) have "ac_key r = ac_key q \<or> ac_last_used r = ac_last_used q" by (auto simp: k split: if_splits)
    with rq d(1,2) show "r = q" by (auto simp: distinct_map inj_on_def)
  qed
  with d(3) have "distinct (map ac_last_used (map ?g (agc_rows c)))" by (simp add: distinct_map comp_def)
  moreover have "map ac_key (map ?g (agc_rows c)) = map ac_key (agc_rows c)" using keys by simp
  moreover have "ac_last_used r \<le> Suc (agc_ticks c) \<and> ac_generation r \<le> agc_generation c \<and> ac_key r \<noteq> []"
    if r: "r \<in> set (map ?g (agc_rows c))" for r
  proof -
    from r obtain q where "q \<in> set (agc_rows c)" "r = ?g q" by auto
    with used [of q] k(3) [of q] show ?thesis by (auto simp: k)
  qed
  ultimately show ?thesis using d(1) by (intro agent_okI) (simp_all only: simp_thms)
qed

lemma filter_ok: "agent_ok c \<Longrightarrow> agent_ok (c\<lparr>agc_rows := filter P (agc_rows c)\<rparr>)"
  by (auto simp: agent_ok_def distinct_map inj_on_def)

lemma agent_ok_clock:
  "agent_ok c \<Longrightarrow> agc_ticks c \<le> t \<Longrightarrow> agc_generation c \<le> g \<Longrightarrow> agent_ok (c\<lparr>agc_ticks := t, agc_generation := g\<rparr>)"
  by (fastforce simp: agent_ok_def)

definition put_row :: "store \<Rightarrow> agent_cache \<Rightarrow> cache_write \<Rightarrow> agent_row" where
  "put_row s c w = \<lparr>ac_key = cw_key w, ac_fingerprint = cw_fingerprint w, ac_json = cw_json w,
     ac_bytes = min (length (cw_key w) + length (cw_fingerprint w) + length (cw_json w)) I64_MAX,
     ac_generation = agc_generation c, ac_last_used = Suc (agc_ticks c), ac_hits = 0,
     ac_anchor_key = cw_anchor w,
     ac_anchor_blob = Option.bind (Option.bind (cw_anchor w) (node_of_key s)) nr_blob_hash\<rparr>"

lemma cache_put_eq:
  "cache_put s c w = (if cw_key w = [] then (c\<lparr>agc_ticks := Suc (agc_ticks c)\<rparr>, False)
     else (c\<lparr>agc_ticks := Suc (agc_ticks c),
             agc_rows := (if cw_key w \<in> ac_key ` set (agc_rows c)
               then map (\<lambda>r. if ac_key r = cw_key w then (put_row s c w)\<lparr>ac_hits := ac_hits r\<rparr> else r) (agc_rows c)
               else agc_rows c @ [put_row s c w])\<rparr>, True))"
  by (auto simp: cache_put_def Let_def next_tick_def put_row_def list_ex_iff image_iff)

lemma cache_put_ok: "agent_ok c \<Longrightarrow> agent_ok (fst (cache_put s c w))"
proof -
  assume ok: "agent_ok c"
  consider "cw_key w = []" | "cw_key w \<noteq> []" "cw_key w \<in> ac_key ` set (agc_rows c)" | "cw_key w \<noteq> []" "cw_key w \<notin> ac_key ` set (agc_rows c)"
    by blast
  then show ?thesis
  proof cases
    case 1
    with agent_ok_clock [OF ok, of "Suc (agc_ticks c)" "agc_generation c"] show ?thesis by (simp add: cache_put_eq)
  next
    case 2
    have "(\<lambda>r. if ac_key r = cw_key w then (put_row s c w)\<lparr>ac_hits := ac_hits r\<rparr> else r)
        = (\<lambda>r. if ac_key r = cw_key w then (put_row s c w)\<lparr>ac_hits := ac_hits r, ac_key := ac_key r\<rparr> else r)"
      by (auto simp: put_row_def)
    with touch_ok [OF ok, of "\<lambda>r. (put_row s c w)\<lparr>ac_hits := ac_hits r, ac_key := ac_key r\<rparr>" "cw_key w"] 2
    show ?thesis by (simp add: cache_put_eq put_row_def)
  next
    case 3
    with ok show ?thesis by (fastforce simp: cache_put_eq agent_ok_def put_row_def)
  qed
qed

lemma cache_get_eq:
  assumes "agent_ok c"
  shows "cache_get s c key = (if key \<in> ac_key ` set (agc_rows c)
     then (c\<lparr>agc_ticks := Suc (agc_ticks c), agc_rows := map (\<lambda>r. if ac_key r = key
              then r\<lparr>ac_hits := Suc (ac_hits r), ac_last_used := Suc (agc_ticks c)\<rparr> else r) (agc_rows c)\<rparr>,
           map_option (cache_entry_from_row s) (List.find (\<lambda>r. ac_key r = key) (agc_rows c)))
     else (c, None))"
proof (cases "List.find (\<lambda>r. ac_key r = key) (agc_rows c)")
  case None
  then have "key \<notin> ac_key ` set (agc_rows c)" by (simp add: find_None_map)
  with None show ?thesis by (simp add: cache_get_def)
next
  case (Some r)
  from find_SomeD [OF this] have "key \<in> ac_key ` set (agc_rows c)" by auto
  with Some show ?thesis by (simp add: cache_get_def next_tick_def)
qed

lemma cache_get_ok: "agent_ok c \<Longrightarrow> agent_ok (fst (cache_get s c key))"
  using touch_ok [of c "\<lambda>r. r\<lparr>ac_hits := Suc (ac_hits r), ac_last_used := Suc (agc_ticks c)\<rparr>" key]
  by (simp add: cache_get_eq agent_ok_def)

lemma cache_forget_ok: "agent_ok c \<Longrightarrow> agent_ok (fst (cache_forget c key))"
  using filter_ok by (simp add: cache_forget_def)

lemma cache_sweep_ok: "agent_ok c \<Longrightarrow> agent_ok (fst (cache_sweep s c budget))"
  using filter_ok [THEN agent_ok_clock, of c _ "agc_ticks c" "Suc (agc_generation c)"]
  by (simp add: cache_sweep_def Let_def foldl_filter_keys)

inductive agent_reach :: "agent_cache \<Rightarrow> bool" where
  empty: "agent_reach agent_cache_empty"
| put: "agent_reach c \<Longrightarrow> agent_reach (fst (cache_put s c w))"
| get: "agent_reach c \<Longrightarrow> agent_reach (fst (cache_get s c key))"
| forget: "agent_reach c \<Longrightarrow> agent_reach (fst (cache_forget c key))"
| sweep: "agent_reach c \<Longrightarrow> agent_reach (fst (cache_sweep s c budget))"

lemma agent_reach_ok: "agent_reach c \<Longrightarrow> agent_ok c"
proof (induction rule: agent_reach.induct)
  case empty
  show ?case by (simp add: agent_ok_def agent_cache_empty_def)
qed (auto intro: cache_put_ok cache_get_ok cache_forget_ok cache_sweep_ok)

section \<open>What a sweep removes\<close>

lemma is_pinned_iff:
  assumes ok: "agent_ok c" and r: "r \<in> set (agc_rows c)"
  shows "is_pinned s c r \<longleftrightarrow> own_work s c r \<or> (\<forall>q \<in> set (agc_rows c). ac_last_used q \<le> ac_last_used r)"
proof -
  obtain m where m: "max_by_key ac_last_used (sort_key ac_key (agc_rows c)) = Some m"
    using r max_by_key_None [of ac_last_used "sort_key ac_key (agc_rows c)"]
    by (metis empty_iff empty_set not_None_eq set_sort)
  from max_by_key_Some [OF m] have mm: "m \<in> set (agc_rows c)" "\<forall>q \<in> set (agc_rows c). ac_last_used q \<le> ac_last_used m"
    by simp_all
  have "ac_key m = ac_key r \<longleftrightarrow> (\<forall>q \<in> set (agc_rows c). ac_last_used q \<le> ac_last_used r)"
  proof
    assume "ac_key m = ac_key r"
    with agent_ok_keys [OF ok mm(1) r] mm(2) show "\<forall>q \<in> set (agc_rows c). ac_last_used q \<le> ac_last_used r" by simp
  next
    assume "\<forall>q \<in> set (agc_rows c). ac_last_used q \<le> ac_last_used r"
    with mm r have "ac_last_used m = ac_last_used r" by (meson order_antisym)
    with ok mm(1) r show "ac_key m = ac_key r" by (auto simp: agent_ok_def distinct_map inj_on_def)
  qed
  with m show ?thesis by (auto simp: is_pinned_def mru_key_def)
qed

lemma candidates_sorted:
  assumes "agent_ok c"
  shows "sorted_wrt (\<lambda>r q. candidate_key s r < candidate_key s q) (candidates s c)"
proof -
  have "distinct (map (candidate_key s) (candidates s c))"
  proof -
    have "distinct (map ac_key (agc_rows c))" using assms by (simp add: agent_ok_def)
    then have "inj_on ac_key (set (agc_rows c))" "distinct (agc_rows c)" by (simp_all add: distinct_map)
    then show ?thesis
      by (auto simp: distinct_map candidates_def candidate_key_def inj_on_def)
  qed
  moreover have "sorted (map (candidate_key s) (candidates s c))" by (simp add: candidates_def)
  ultimately have "sorted_wrt (<) (map (candidate_key s) (candidates s c))" by (simp add: strict_sorted_iff)
  then show ?thesis by (simp add: sorted_wrt_map)
qed

lemma sorted_take_drop: "sorted_wrt R xs \<Longrightarrow> x \<in> set (take n xs) \<Longrightarrow> y \<in> set (drop n xs) \<Longrightarrow> R x y"
  by (metis append_take_drop_id sorted_wrt_append)

lemma sweep_parts:
  assumes ok: "agent_ok c" and fit: "cache_bytes (agc_rows c) \<le> U64_MAX"
  obtains n where "n \<le> length (candidates s c)"
    "agc_rows (fst (cache_sweep s c budget)) = filter (\<lambda>r. r \<notin> set (take n (candidates s c))) (agc_rows c)"
    "filter (\<lambda>r. r \<notin> set (agc_rows (fst (cache_sweep s c budget)))) (agc_rows c)
       = filter (\<lambda>r. r \<in> set (take n (candidates s c))) (agc_rows c)"
    "cw_evicted (snd (cache_sweep s c budget)) = n"
    "length (filter (\<lambda>r. r \<in> set (take n (candidates s c))) (agc_rows c)) = n"
    "cw_freed_bytes (snd (cache_sweep s c budget)) = cache_bytes (filter (\<lambda>r. r \<in> set (take n (candidates s c))) (agc_rows c))"
    "cw_retained_bytes (snd (cache_sweep s c budget)) = cache_bytes (agc_rows (fst (cache_sweep s c budget)))"
    "cache_bytes (agc_rows (fst (cache_sweep s c budget))) \<le> budget \<or> n = length (candidates s c)"
    "0 < n \<Longrightarrow> budget < cache_bytes (agc_rows (fst (cache_sweep s c budget))) + ac_bytes (candidates s c ! (n - 1))"
proof -
  let ?cs = "candidates s c"
  define p where "p = sum_list (map ac_bytes (filter (is_pinned s c) (agc_rows c)))"
  define n where "n = evict_loop (map ac_bytes ?cs) (p + sum_list (map ac_bytes ?cs)) budget"
  note eqs = cache_sweep_eq [OF ok fit, of s budget, folded p_def, folded n_def]
  have d: "distinct (agc_rows c)" "distinct ?cs" using ok by (simp_all add: agent_ok_def distinct_map candidates_def)
  have sub: "set (take n ?cs) \<subseteq> set (agc_rows c)" using set_take_subset [of n ?cs] by (auto simp: set_candidates)
  have "mset (filter (\<lambda>r. r \<in> set (take n ?cs)) (agc_rows c)) = mset (take n ?cs)"
    using d sub by (subst set_eq_iff_mset_eq_distinct [symmetric]) auto
  then have gone: "cache_bytes (filter (\<lambda>r. r \<in> set (take n ?cs)) (agc_rows c)) = sum_list (map ac_bytes (take n ?cs))"
      "length (filter (\<lambda>r. r \<in> set (take n ?cs)) (agc_rows c)) = length (take n ?cs)"
    unfolding cache_bytes_def by (metis mset_map sum_mset_sum_list, metis size_mset)
  have n: "n \<le> length ?cs" using evict_loop_le [of "map ac_bytes ?cs"] by (simp add: n_def)
  have total: "p + sum_list (map ac_bytes ?cs) = cache_bytes (agc_rows c)"
    using candidates_bytes [of s c] by (simp add: p_def)
  have "cache_bytes (filter (\<lambda>r. r \<notin> S) xs) + cache_bytes (filter (\<lambda>r. r \<in> S) xs) = cache_bytes xs" for S xs
    by (induction xs) (auto simp: cache_bytes_def)
  from this [of "set (take n ?cs)" "agc_rows c"] gone(1)
  have kept: "cache_bytes (agc_rows (fst (cache_sweep s c budget))) + sum_list (map ac_bytes (take n ?cs)) = cache_bytes (agc_rows c)"
    by (simp add: eqs(1))
  moreover have "sum_list (map ac_bytes (take n ?cs)) + sum_list (map ac_bytes (drop n ?cs)) = sum_list (map ac_bytes ?cs)"
    by (metis append_take_drop_id map_append sum_list_append)
  ultimately have rest: "cache_bytes (agc_rows (fst (cache_sweep s c budget))) = p + sum_list (map ac_bytes (drop n ?cs))"
    using total by linarith
  have spec: "p + sum_list (map ac_bytes (drop n ?cs)) \<le> budget \<or> n = length ?cs"
      "0 < n \<longrightarrow> budget < p + sum_list (map ac_bytes (drop (n - 1) ?cs))"
    using evict_loop_spec [of "map ac_bytes ?cs" p budget] by (simp_all add: Let_def n_def drop_map)
  show thesis
  proof (rule that [of n])
    show "cw_retained_bytes (snd (cache_sweep s c budget)) = cache_bytes (agc_rows (fst (cache_sweep s c budget)))"
      using eqs(4) kept by linarith
    show "budget < cache_bytes (agc_rows (fst (cache_sweep s c budget))) + ac_bytes (?cs ! (n - 1))" if "0 < n"
      using spec(2) that n rest Cons_nth_drop_Suc [of "n - 1" ?cs, symmetric] by simp
    show "filter (\<lambda>r. r \<notin> set (agc_rows (fst (cache_sweep s c budget)))) (agc_rows c)
       = filter (\<lambda>r. r \<in> set (take n ?cs)) (agc_rows c)"
      by (rule filter_cong) (auto simp: eqs(1))
  qed (use n eqs gone spec rest in simp_all)
qed

lemma sweep_facts:
  fixes s c budget
  assumes reach: "agent_reach c" and fit: "cache_bytes (agc_rows c) \<le> U64_MAX"
  defines "c' \<equiv> fst (cache_sweep s c budget)"
  defines "gone \<equiv> filter (\<lambda>r. r \<notin> set (agc_rows c')) (agc_rows c)"
  shows "\<exists>P. agc_rows c' = filter P (agc_rows c)"
    and "\<forall>r \<in> set gone. \<not> own_work s c r \<and> (\<exists>q \<in> set (agc_rows c'). ac_last_used r < ac_last_used q)"
    and "\<forall>r \<in> set gone. \<forall>q \<in> set (agc_rows c'). is_pinned s c q \<or> candidate_key s r < candidate_key s q"
    and "cache_bytes (agc_rows c') \<le> budget \<or> (\<forall>q \<in> set (agc_rows c'). is_pinned s c q)"
    and "\<forall>r \<in> set gone. (\<forall>q \<in> set gone. candidate_key s q \<le> candidate_key s r)
           \<longrightarrow> budget < cache_bytes (agc_rows c') + ac_bytes r"
    and "cw_evicted (snd (cache_sweep s c budget)) = length gone"
    and "cw_freed_bytes (snd (cache_sweep s c budget)) = cache_bytes gone"
    and "cw_retained_bytes (snd (cache_sweep s c budget)) = cache_bytes (agc_rows c')"
proof -
  note ok = agent_reach_ok [OF reach]
  let ?cs = "candidates s c"
  obtain n where n: "n \<le> length ?cs" and rows: "agc_rows c' = filter (\<lambda>r. r \<notin> set (take n ?cs)) (agc_rows c)"
    and gone: "gone = filter (\<lambda>r. r \<in> set (take n ?cs)) (agc_rows c)"
    and rep: "cw_evicted (snd (cache_sweep s c budget)) = n" "length gone = n"
      "cw_freed_bytes (snd (cache_sweep s c budget)) = cache_bytes gone"
      "cw_retained_bytes (snd (cache_sweep s c budget)) = cache_bytes (agc_rows c')"
    and stop: "cache_bytes (agc_rows c') \<le> budget \<or> n = length ?cs"
    and needed: "0 < n \<Longrightarrow> budget < cache_bytes (agc_rows c') + ac_bytes (?cs ! (n - 1))"
    unfolding c'_def gone_def by (rule sweep_parts [OF ok fit, of s budget]) (simp_all only:)
  have sub: "set (take n ?cs) \<subseteq> set ?cs" by (rule set_take_subset)
  have set_gone: "set gone = set (take n ?cs)" using sub by (auto simp: gone set_candidates)
  have cand: "q \<in> set (drop n ?cs)" if "q \<in> set (agc_rows c')" "\<not> is_pinned s c q" for q
  proof -
    have "set ?cs = set (take n ?cs) \<union> set (drop n ?cs)" by (metis append_take_drop_id set_append)
    moreover have "q \<in> set ?cs" "q \<notin> set (take n ?cs)" using that by (simp_all add: rows set_candidates)
    ultimately show ?thesis by blast
  qed
  show "\<exists>P. agc_rows c' = filter P (agc_rows c)" using rows by blast
  show "\<forall>r \<in> set gone. \<not> own_work s c r \<and> (\<exists>q \<in> set (agc_rows c'). ac_last_used r < ac_last_used q)"
  proof
    fix r assume r: "r \<in> set gone"
    then have rc: "r \<in> set (agc_rows c)" "\<not> is_pinned s c r" using sub by (auto simp: set_gone set_candidates)
    obtain m where m: "max_by_key ac_last_used (agc_rows c) = Some m"
      using rc(1) max_by_key_None [of ac_last_used "agc_rows c"] by fastforce
    from max_by_key_Some [OF m] have mm: "m \<in> set (agc_rows c)" "\<forall>q \<in> set (agc_rows c). ac_last_used q \<le> ac_last_used m"
      by simp_all
    then have "is_pinned s c m" using is_pinned_iff [OF ok mm(1)] by blast
    then have "m \<in> set (agc_rows c')" using mm(1) sub by (auto simp: rows set_candidates)
    moreover have "\<not> own_work s c r" "\<not> (\<forall>q \<in> set (agc_rows c). ac_last_used q \<le> ac_last_used r)"
      using rc is_pinned_iff [OF ok rc(1)] by blast+
    ultimately show "\<not> own_work s c r \<and> (\<exists>q \<in> set (agc_rows c'). ac_last_used r < ac_last_used q)"
      using mm(2) by (meson le_less_trans not_le)
  qed
  show "\<forall>r \<in> set gone. \<forall>q \<in> set (agc_rows c'). is_pinned s c q \<or> candidate_key s r < candidate_key s q"
    using cand sorted_take_drop [OF candidates_sorted [OF ok]] by (metis set_gone)
  show "cache_bytes (agc_rows c') \<le> budget \<or> (\<forall>q \<in> set (agc_rows c'). is_pinned s c q)"
    using stop cand by fastforce
  show "\<forall>r \<in> set gone. (\<forall>q \<in> set gone. candidate_key s q \<le> candidate_key s r)
      \<longrightarrow> budget < cache_bytes (agc_rows c') + ac_bytes r"
  proof (intro ballI impI)
    fix r assume r: "r \<in> set gone" and last: "\<forall>q \<in> set gone. candidate_key s q \<le> candidate_key s r"
    then obtain i where i: "i < n" "r = ?cs ! i" using n by (auto simp: set_gone in_set_conv_nth)
    have "i = n - 1"
    proof (rule ccontr)
      assume "i \<noteq> n - 1"
      with i n have "candidate_key s (?cs ! i) < candidate_key s (?cs ! (n - 1))"
        using sorted_wrt_nth_less [OF candidates_sorted [OF ok], of i "n - 1"] by simp
      moreover have "?cs ! (n - 1) \<in> set gone"
        using i n nth_mem [of "n - 1" "take n ?cs"] by (simp add: set_gone)
      ultimately show False using last i(2) by (simp add: not_le [symmetric])
    qed
    with needed i show "budget < cache_bytes (agc_rows c') + ac_bytes r" by simp
  qed
  show "cw_evicted (snd (cache_sweep s c budget)) = length gone"
    "cw_freed_bytes (snd (cache_sweep s c budget)) = cache_bytes gone"
    "cw_retained_bytes (snd (cache_sweep s c budget)) = cache_bytes (agc_rows c')"
    by (simp_all only: rep)
qed

text \<open>C24. A sweep of a reachable cache (whose bytes fit a 64-bit counter) removes rows and changes none. What
  goes is never the current generation's applicable work nor the most recently used entry; it precedes, in the
  order "anchor no longer applies, least recently used, key", every entry that is kept without being pinned;
  eviction stops exactly when the budget is met or only pinned entries are left, so the last entry removed was
  needed; and the report's counts and byte totals are those of the rows removed and kept.\<close>

theorem sweep_effect:
  assumes "agent_reach c" and "cache_bytes (agc_rows c) \<le> U64_MAX"
  shows "let (c', rep) = cache_sweep s c budget;
             gone = filter (\<lambda>r. r \<notin> set (agc_rows c')) (agc_rows c)
         in (\<exists>P. agc_rows c' = filter P (agc_rows c))
          \<and> (\<forall>r \<in> set gone. \<not> own_work s c r \<and> (\<exists>q \<in> set (agc_rows c'). ac_last_used r < ac_last_used q))
          \<and> (\<forall>r \<in> set gone. \<forall>q \<in> set (agc_rows c'). is_pinned s c q \<or> candidate_key s r < candidate_key s q)
          \<and> (cache_bytes (agc_rows c') \<le> budget \<or> (\<forall>q \<in> set (agc_rows c'). is_pinned s c q))
          \<and> (\<forall>r \<in> set gone. (\<forall>q \<in> set gone. candidate_key s q \<le> candidate_key s r)
               \<longrightarrow> budget < cache_bytes (agc_rows c') + ac_bytes r)
          \<and> cw_scanned rep = length (agc_rows c) \<and> cw_evicted rep = length gone
          \<and> cw_freed_bytes rep = cache_bytes gone \<and> cw_retained_bytes rep = cache_bytes (agc_rows c')
          \<and> cw_over_budget rep = (budget < cache_bytes (agc_rows c'))
          \<and> agc_generation c' = Suc (agc_generation c)"
proof -
  note f = sweep_facts [OF assms, of s budget]
  note e = cache_sweep_eq [OF agent_reach_ok [OF assms(1)] assms(2), of s budget]
  show ?thesis
    unfolding Let_def split_beta e(5) e(6) e(9) f(8)
    by (intro conjI f(1-7) refl)
qed

lemma pinned_stays:
  "agent_ok c \<Longrightarrow> r \<in> set (agc_rows c) \<Longrightarrow> is_pinned s c r \<Longrightarrow> r \<in> set (agc_rows (fst (cache_sweep s c budget)))"
proof -
  assume ok: "agent_ok c" and r: "r \<in> set (agc_rows c)" "is_pinned s c r"
  have "ac_key r \<notin> ac_key ` set (take n (candidates s c))" for n
  proof
    assume "ac_key r \<in> ac_key ` set (take n (candidates s c))"
    then obtain q where q: "q \<in> set (take n (candidates s c))" "ac_key q = ac_key r" by auto
    from q(1) have "q \<in> set (candidates s c)" by (rule in_set_takeD)
    with q(2) r ok show False using agent_ok_keys [of c q r] by (simp add: set_candidates)
  qed
  then show ?thesis using r by (simp add: cache_sweep_def Let_def foldl_filter_keys)
qed

lemma row_anchor_state_in: "row_anchor_state g r = anchor_in g (ac_anchor_key r) (ac_anchor_blob r)"
  by (auto simp: row_anchor_state_def anchor_in_def resolve_anchor_def Let_def node_of_key_def
      split: option.splits dest: find_SomeD)

lemma cache_get_row:
  assumes "agent_ok c" "r \<in> set (agc_rows c)"
  shows "snd (cache_get g c (ac_key r)) = Some (cache_entry_from_row g r)"
  using assms by (auto simp: cache_get_eq agent_ok_find)

lemma cache_get_cong:
  assumes "agent_ok c" "agent_ok d" "\<And>r. ac_key r = k \<Longrightarrow> r \<in> set (agc_rows c) \<longleftrightarrow> r \<in> set (agc_rows d)"
  shows "snd (cache_get g c k) = snd (cache_get g d k)"
proof (cases "k \<in> ac_key ` set (agc_rows c)")
  case True
  then obtain r where r: "r \<in> set (agc_rows c)" "ac_key r = k" by auto
  with assms cache_get_row [of c r g] cache_get_row [of d r g] show ?thesis by simp
next
  case False
  with assms(3) have "k \<notin> ac_key ` set (agc_rows d)" by auto
  with False assms(1,2) show ?thesis by (simp add: cache_get_eq)
qed

definition hits_of :: "agent_cache \<Rightarrow> string \<Rightarrow> nat" where
  "hits_of c key = (case List.find (\<lambda>r. ac_key r = key) (agc_rows c) of None \<Rightarrow> 0 | Some r \<Rightarrow> ac_hits r)"

lemma cache_put_row:
  assumes ok: "agent_ok c" and k: "cw_key w \<noteq> []"
  shows "(put_row s c w)\<lparr>ac_hits := hits_of c (cw_key w)\<rparr> \<in> set (agc_rows (fst (cache_put s c w)))"
    and "\<And>r. ac_key r \<noteq> cw_key w \<Longrightarrow> r \<in> set (agc_rows (fst (cache_put s c w))) \<longleftrightarrow> r \<in> set (agc_rows c)"
    and "\<And>r. r \<in> set (agc_rows (fst (cache_put s c w))) \<Longrightarrow> ac_last_used r \<le> Suc (agc_ticks c)"
proof -
  show "\<And>r. r \<in> set (agc_rows (fst (cache_put s c w))) \<Longrightarrow> ac_last_used r \<le> Suc (agc_ticks c)"
    using cache_put_ok [OF ok, of s w] k by (auto simp: agent_ok_def cache_put_eq split: if_splits)
  have [simp]: "ac_key (put_row s c w) = cw_key w" by (simp add: put_row_def)
  show "\<And>r. ac_key r \<noteq> cw_key w \<Longrightarrow> r \<in> set (agc_rows (fst (cache_put s c w))) \<longleftrightarrow> r \<in> set (agc_rows c)"
    using k by (auto simp: cache_put_eq image_iff)
  show "(put_row s c w)\<lparr>ac_hits := hits_of c (cw_key w)\<rparr> \<in> set (agc_rows (fst (cache_put s c w)))"
  proof (cases "cw_key w \<in> ac_key ` set (agc_rows c)")
    case True
    then obtain r where r: "r \<in> set (agc_rows c)" "ac_key r = cw_key w" by auto
    with agent_ok_find [OF ok r(1)] have "hits_of c (cw_key w) = ac_hits r" by (simp add: hits_of_def)
    with r k True show ?thesis by (auto simp: cache_put_eq image_iff intro!: bexI [of _ r])
  next
    case False
    then have "hits_of c (cw_key w) = 0" using find_None_map [of ac_key "cw_key w" "agc_rows c"] by (simp add: hits_of_def)
    then have "(put_row s c w)\<lparr>ac_hits := hits_of c (cw_key w)\<rparr> = put_row s c w" by (simp add: put_row_def)
    with False k show ?thesis by (simp add: cache_put_eq)
  qed
qed

lemma put_survives:
  assumes ok: "agent_ok c" and k: "cw_key w \<noteq> []"
  shows "snd (cache_get h (fst (cache_sweep g (fst (cache_put s c w)) budget)) (cw_key w))
       = snd (cache_get h (fst (cache_put s c w)) (cw_key w))"
proof -
  let ?c = "fst (cache_put s c w)" and ?r = "(put_row s c w)\<lparr>ac_hits := hits_of c (cw_key w)\<rparr>"
  note ok1 = cache_put_ok [OF ok, of s w]
  have r: "?r \<in> set (agc_rows ?c)" "ac_key ?r = cw_key w" "ac_last_used ?r = Suc (agc_ticks c)"
    using cache_put_row [OF ok k] by (simp_all add: put_row_def)
  have "is_pinned g ?c ?r" using is_pinned_iff [OF ok1 r(1)] cache_put_row(3) [OF ok k] r(3) by simp
  from pinned_stays [OF ok1 r(1) this, of budget] r(1,2)
    cache_get_row [OF ok1 r(1), of h] cache_get_row [OF cache_sweep_ok [OF ok1], of ?r g budget h]
  show ?thesis by simp
qed

text \<open>C25. What a put with a non-empty key writes, a get reads back: the fingerprint, payload and anchor given, the
  size as the bytes of the three texts, the current generation, the hit count the key had, and the anchor judged
  against the graph at the time of the read. Other keys read as before, and no sweep, at any budget and against
  any graph, takes the entry just written.\<close>

theorem cache_read_back:
  assumes "agent_reach c" and "cw_key w \<noteq> []"
  shows "let c1 = fst (cache_put s c w); captured = Option.bind (Option.bind (cw_anchor w) (node_of_key s)) nr_blob_hash
         in snd (cache_put s c w)
          \<and> snd (cache_get g c1 (cw_key w))
             = Some \<lparr>ae_key = cw_key w, ae_fingerprint = cw_fingerprint w, ae_json = cw_json w,
                 ae_bytes = min (length (cw_key w) + length (cw_fingerprint w) + length (cw_json w)) I64_MAX,
                 ae_generation = agc_generation c, ae_last_used = Suc (agc_ticks c), ae_hits = hits_of c (cw_key w),
                 ae_anchor = cw_anchor w, ae_anchor_state = anchor_in g (cw_anchor w) captured\<rparr>
          \<and> (\<forall>k. k \<noteq> cw_key w \<longrightarrow> snd (cache_get g c1 k) = snd (cache_get g c k))
          \<and> snd (cache_get h (fst (cache_sweep g c1 budget)) (cw_key w)) = snd (cache_get h c1 (cw_key w))"
proof -
  note ok = agent_reach_ok [OF assms(1)]
  note ok1 = cache_put_ok [OF ok, of s w]
  note row = cache_get_row [OF ok1 cache_put_row(1) [OF ok assms(2)], of g]
  have other: "snd (cache_get g (fst (cache_put s c w)) k) = snd (cache_get g c k)" if "k \<noteq> cw_key w" for k
    by (rule cache_get_cong [OF ok1 ok]) (use that cache_put_row(2) [OF ok assms(2)] in simp)
  have "snd (cache_put s c w)" using assms(2) by (simp add: cache_put_eq)
  with row other put_survives [OF ok assms(2)] show ?thesis
    by (simp add: Let_def cache_entry_from_row_def row_anchor_state_in put_row_def)
qed

text \<open>Two entries of three bytes each, written before a sweep that leaves both; a budget of 4 evicts the older one.\<close>

definition sample_agent_row :: "string \<Rightarrow> nat \<Rightarrow> agent_row" where
  "sample_agent_row k t = \<lparr>ac_key = k, ac_fingerprint = ''f'', ac_json = ''1'', ac_bytes = 3, ac_generation = 0,
     ac_last_used = t, ac_hits = 0, ac_anchor_key = None, ac_anchor_blob = None\<rparr>"

definition sample_agent_write :: "string \<Rightarrow> cache_write" where
  "sample_agent_write k = \<lparr>cw_key = k, cw_fingerprint = ''f'', cw_json = ''1'', cw_anchor = None\<rparr>"

definition sample_agent_cache :: agent_cache where
  "sample_agent_cache = \<lparr>agc_rows = [sample_agent_row ''a'' 1, sample_agent_row ''b'' 2], agc_ticks = 2, agc_generation = 1\<rparr>"

lemmas sample_agent_defs = sample_agent_row_def sample_agent_write_def sample_agent_cache_def

lemma sample_row_applies: "anchor_applies (row_anchor_state s (sample_agent_row k t))"
  by (simp add: row_anchor_state_in anchor_in_def anchor_applies_def sample_agent_row_def)

lemma sample_agent_cache_reach: "agent_reach sample_agent_cache"
proof -
  define c2 where "c2 = \<lparr>agc_rows = [sample_agent_row ''a'' 1, sample_agent_row ''b'' 2], agc_ticks = 2, agc_generation = 0\<rparr>"
  let ?c1 = "\<lparr>agc_rows = [sample_agent_row ''a'' 1], agc_ticks = 1, agc_generation = 0\<rparr>"
  have "fst (cache_put empty_store agent_cache_empty (sample_agent_write ''a'')) = ?c1"
    by (simp add: cache_put_eq put_row_def agent_cache_empty_def sample_agent_defs I64_MAX_def)
  then have 1: "agent_reach ?c1" using agent_reach.put [OF agent_reach.empty, of empty_store "sample_agent_write ''a''"] by simp
  have "fst (cache_put empty_store ?c1 (sample_agent_write ''b'')) = c2"
    by (simp add: cache_put_eq put_row_def c2_def sample_agent_defs I64_MAX_def)
  then have 2: "agent_reach c2" using agent_reach.put [OF 1, of empty_store "sample_agent_write ''b''"] by simp
  have "own_work empty_store c2 r" if "r \<in> set (agc_rows c2)" for r
    using that by (auto simp: c2_def own_work_def sample_row_applies)
  then have "filter (\<lambda>r. \<not> is_pinned empty_store c2 r) (sort_key ac_key (agc_rows c2)) = []"
    by (simp add: filter_empty_conv is_pinned_def)
  then have "candidates empty_store c2 = []" by (simp add: candidates_def)
  then have "fst (cache_sweep empty_store c2 0) = sample_agent_cache"
    by (simp add: cache_sweep_def Let_def evict_count_def) (simp add: c2_def sample_agent_cache_def)
  then show ?thesis using agent_reach.sweep [OF 2, of empty_store 0] by simp
qed

theorem cache_read_back_witness:
  "map_option ae_json (snd (cache_get empty_store (fst (cache_put empty_store sample_agent_cache
      (sample_agent_write ''c''))) ''c'')) = Some ''1''"
  using cache_read_back [of sample_agent_cache "sample_agent_write ''c''" empty_store empty_store empty_store 0]
    sample_agent_cache_reach
  by (simp add: Let_def sample_agent_write_def)

theorem sweep_effect_witness:
  "cw_evicted (snd (cache_sweep empty_store sample_agent_cache 4)) = 1
   \<and> cw_retained_bytes (snd (cache_sweep empty_store sample_agent_cache 4)) = 3
   \<and> agc_generation (fst (cache_sweep empty_store sample_agent_cache 4)) = 2"
proof -
  have bytes: "cache_bytes (agc_rows sample_agent_cache) \<le> U64_MAX" by (simp add: cache_bytes_def sample_agent_defs U64_MAX_def)
  from sweep_effect [OF sample_agent_cache_reach bytes, of empty_store 4]
  have "agc_generation (fst (cache_sweep empty_store sample_agent_cache 4)) = Suc (agc_generation sample_agent_cache)"
    by (simp add: Let_def split_beta)
  then have "agc_generation (fst (cache_sweep empty_store sample_agent_cache 4)) = 2" by (simp add: sample_agent_cache_def)
  moreover have "filter (\<lambda>r. \<not> is_pinned empty_store sample_agent_cache r) (sort_key ac_key (agc_rows sample_agent_cache))
      = [sample_agent_row ''a'' 1]"
    by (simp add: is_pinned_def mru_key_def own_work_def sample_agent_defs)
  then have "candidates empty_store sample_agent_cache = [sample_agent_row ''a'' 1]" by (simp add: candidates_def)
  moreover note cache_sweep_eq(2,4) [OF agent_reach_ok [OF sample_agent_cache_reach] bytes, of empty_store 4]
  moreover have "filter (is_pinned empty_store sample_agent_cache) (agc_rows sample_agent_cache) = [sample_agent_row ''b'' 2]"
    by (simp add: is_pinned_def mru_key_def own_work_def sample_agent_defs)
  ultimately show ?thesis by (simp add: cache_bytes_def sample_agent_defs)
qed

end
