(* ===== verification/Decimal.thy ===== *)
theory Decimal imports Strings begin

text \<open>
  Decimal printing and parsing as the standard library does them: \<open>Display\<close> of an unsigned integer, the
  zero-padded width of a format string, and \<open>str::parse::<i64>\<close>.
\<close>

section \<open>Digits\<close>

definition digit_char :: "nat \<Rightarrow> char" where
  "digit_char d = char_of (48 + d)"

definition digit_val :: "char \<Rightarrow> nat" where
  "digit_val c = of_char c - 48"

fun show_nat :: "nat \<Rightarrow> string" where
  "show_nat n = (if n < 10 then [digit_char n] else show_nat (n div 10) @ [digit_char (n mod 10)])"

declare show_nat.simps [simp del]

definition pad_zero :: "nat \<Rightarrow> string \<Rightarrow> string" where
  "pad_zero w s = replicate (w - length s) CHR ''0'' @ s"

definition digits_val :: "string \<Rightarrow> nat" where
  "digits_val s = foldl (\<lambda>n c. 10 * n + digit_val c) 0 s"

definition parse_nat :: "string \<Rightarrow> nat option" where
  "parse_nat s = (if s \<noteq> [] \<and> list_all is_ascii_digit s then Some (digits_val s) else None)"

text \<open>\<open>str::parse::<i64>\<close>: an optional sign, at least one digit, and a value in range.\<close>

definition parse_i64 :: "string \<Rightarrow> int option" where
  "parse_i64 s = (case s of
       c # ds \<Rightarrow> if c = CHR ''-'' then Option.bind (parse_nat ds) (\<lambda>n. if n \<le> 2 ^ 63 then Some (- int n) else None)
                else Option.bind (parse_nat (if c = CHR ''+'' then ds else s))
                       (\<lambda>n. if n < 2 ^ 63 then Some (int n) else None)
     | [] \<Rightarrow> None)"

lemma digit_char_val [simp]: "d < 10 \<Longrightarrow> digit_val (digit_char d) = d"
  by (simp add: digit_val_def digit_char_def)

lemma digit_char_digit [simp]: "d < 10 \<Longrightarrow> is_ascii_digit (digit_char d)"
  by (simp add: is_ascii_digit_def digit_char_def)

lemma zero_char: "CHR ''0'' = digit_char 0"
  by code_simp

lemma digits_val_snoc [simp]: "digits_val (s @ [c]) = 10 * digits_val s + digit_val c"
  by (simp add: digits_val_def)

lemma digits_val_zeros [simp]: "digits_val (replicate k CHR ''0'' @ s) = digits_val s"
proof -
  have "foldl (\<lambda>n c. 10 * n + digit_val c) 0 (replicate k CHR ''0'') = 0"
    by (induction k) (simp_all add: zero_char)
  then show ?thesis by (simp add: digits_val_def)
qed

lemma show_nat_nonempty [simp]: "show_nat n \<noteq> []"
  by (subst show_nat.simps) simp

lemma show_nat_digits [simp]: "list_all is_ascii_digit (show_nat n)"
  by (induction n rule: show_nat.induct) (subst show_nat.simps, simp)

lemma show_nat_val [simp]: "digits_val (show_nat n) = n"
proof (induction n rule: show_nat.induct)
  case (1 n)
  show ?case
  proof (cases "n < 10")
    case True
    then show ?thesis by (subst show_nat.simps) (simp add: digits_val_def)
  next
    case False
    with 1 show ?thesis by (subst show_nat.simps) simp
  qed
qed

lemma show_nat_length: "n < 10 ^ Suc k \<Longrightarrow> length (show_nat n) \<le> Suc k"
proof (induction k arbitrary: n)
  case 0
  then show ?case by (subst show_nat.simps) simp
next
  case (Suc k)
  have "n div 10 < 10 ^ Suc k" using Suc.prems by (simp add: less_mult_imp_div_less mult.commute)
  with Suc.IH show ?case by (subst show_nat.simps) simp
qed

lemma pad_zero_length: "n < 10 ^ Suc k \<Longrightarrow> length (pad_zero (Suc k) (show_nat n)) = Suc k"
  using show_nat_length [of n k] by (simp add: pad_zero_def)

lemma pad_zero_digits [simp]: "list_all is_ascii_digit (pad_zero w (show_nat n))"
  by (simp add: pad_zero_def list_all_iff zero_char) (use show_nat_digits [of n] in \<open>auto simp: list_all_iff\<close>)

lemma pad_zero_val [simp]: "digits_val (pad_zero w (show_nat n)) = n"
  by (simp add: pad_zero_def)

lemma pad_zero_nonempty [simp]: "pad_zero w (show_nat n) \<noteq> []"
  by (simp add: pad_zero_def)

lemma pad_zero_inj: "pad_zero w (show_nat m) = pad_zero w (show_nat n) \<longleftrightarrow> m = n"
  by (metis pad_zero_val)

lemma digit_not_sign: "is_ascii_digit c \<Longrightarrow> c \<noteq> CHR ''-'' \<and> c \<noteq> CHR ''+'' \<and> c \<noteq> CHR '':''"
  by (auto simp: is_ascii_digit_def)

lemma parse_i64_digits:
  assumes "list_all is_ascii_digit s" "s \<noteq> []" "digits_val s < 2 ^ 63"
  shows "parse_i64 s = Some (int (digits_val s))"
proof -
  obtain c ds where s: "s = c # ds" using assms(2) by (cases s) auto
  with assms(1) have "c \<noteq> CHR ''-''" "c \<noteq> CHR ''+''" using digit_not_sign by auto
  with assms s show ?thesis by (simp add: parse_i64_def parse_nat_def)
qed

end
