(* ===== verification/Clock.thy ===== *)
theory Clock imports Decimal begin

text \<open>
  \<open>crates/rto-graph/src/clock.rs\<close>: RFC 3339 timestamps. Dates are integers as in the code, division is
  \<open>div_euclid\<close> or the truncating one on operands that are not negative; the products of the offset, which a
  hostile text can make large, wrap at 64 bits.
\<close>

section \<open>Dates\<close>

definition civil_from_days :: "int \<Rightarrow> int \<times> int \<times> int" where
  "civil_from_days z0 =
     (let z = z0 + 719468;
          era = z div 146097;
          doe = z mod 146097;
          yoe = (doe - doe div 1460 + doe div 36524 - doe div 146096) div 365;
          y = yoe + era * 400;
          doy = doe - (365 * yoe + yoe div 4 - yoe div 100);
          mp = (5 * doy + 2) div 153;
          d = doy - (153 * mp + 2) div 5 + 1;
          m = (if mp < 10 then mp + 3 else mp - 9)
      in (if m \<le> 2 then y + 1 else y, m, d))"

definition days_from_civil :: "int \<Rightarrow> int \<Rightarrow> int \<Rightarrow> int" where
  "days_from_civil y0 m d =
     (let y = (if m \<le> 2 then y0 - 1 else y0);
          era = y div 400;
          yoe = y - era * 400;
          doy = (153 * (if m > 2 then m - 3 else m + 9) + 2) div 5 + d - 1;
          doe = yoe * 365 + yoe div 4 - yoe div 100 + doy
      in era * 146097 + doe - 719468)"

text \<open>The calendar itself: leap years, lengths of months, and the day after a day.\<close>

definition leap :: "int \<Rightarrow> bool" where
  "leap y \<longleftrightarrow> y mod 4 = 0 \<and> (y mod 100 \<noteq> 0 \<or> y mod 400 = 0)"

definition month_length :: "int \<Rightarrow> int \<Rightarrow> int" where
  "month_length y m = (if m = 2 then (if leap y then 29 else 28) else if m \<in> {4, 6, 9, 11} then 30 else 31)"

definition valid_date :: "int \<times> int \<times> int \<Rightarrow> bool" where
  "valid_date = (\<lambda>(y, m, d). 1 \<le> m \<and> m \<le> 12 \<and> 1 \<le> d \<and> d \<le> month_length y m)"

definition next_day :: "int \<times> int \<times> int \<Rightarrow> int \<times> int \<times> int" where
  "next_day = (\<lambda>(y, m, d). if d < month_length y m then (y, m, d + 1)
     else if m < 12 then (y, m + 1, 1) else (y + 1, 1, 1))"

lemma month_cases:
  assumes "1 \<le> m" "m \<le> (12::int)"
  obtains "m = 1" | "m = 2" | "m = 3" | "m = 4" | "m = 5" | "m = 6" | "m = 7" | "m = 8" | "m = 9" | "m = 10" | "m = 11" | "m = 12"
proof -
  have "m = 1 \<or> m = 2 \<or> m = 3 \<or> m = 4 \<or> m = 5 \<or> m = 6 \<or> m = 7 \<or> m = 8 \<or> m = 9 \<or> m = 10 \<or> m = 11 \<or> m = 12"
    using assms by presburger
  then show thesis using that by blast
qed

lemma next_day_valid: "valid_date x \<Longrightarrow> valid_date (next_day x)"
  by (cases x) (auto simp: valid_date_def next_day_def month_length_def split: if_splits)

text \<open>Years counted from March of the year 0: day of the year, and days before the year.\<close>

definition march_days :: "int \<Rightarrow> int" where
  "march_days y = 365 * y + y div 4 - y div 100 + y div 400"

text \<open>A year in centuries of the era, leap cycles of the century, and years of the cycle.\<close>

lemma div_mod_eqI: "y = k * q + r \<Longrightarrow> 0 \<le> r \<Longrightarrow> r < k \<Longrightarrow> y div k = q \<and> y mod k = (r::int)"
  by (simp add: mult.commute)

definition year_parts :: "int \<Rightarrow> int \<Rightarrow> int \<Rightarrow> int \<Rightarrow> int \<Rightarrow> bool" where
  "year_parts y q a b c \<longleftrightarrow> y = 400 * q + 100 * a + 4 * b + c \<and> 0 \<le> a \<and> a \<le> 3 \<and> 0 \<le> b \<and> b \<le> 24 \<and> 0 \<le> c \<and> c \<le> 3"

lemma year_parts_ex: obtains q a b c where "year_parts y q a b c"
proof -
  have "y = 400 * (y div 400) + 100 * (y mod 400 div 100) + 4 * (y mod 400 mod 100 div 4) + y mod 400 mod 100 mod 4"
    by simp
  moreover have "y mod 400 div 100 \<le> 3" "0 \<le> y mod 400 div 100"
    using pos_mod_bound [of 400 y] pos_mod_sign [of 400 y] by linarith+
  moreover have "y mod 400 mod 100 div 4 \<le> 24" "0 \<le> y mod 400 mod 100 div 4"
    using pos_mod_bound [of 100 "y mod 400"] pos_mod_sign [of 100 "y mod 400"] by linarith+
  moreover have "y mod 400 mod 100 mod 4 \<le> 3" "0 \<le> y mod 400 mod 100 mod 4"
    using pos_mod_bound [of 4 "y mod 400 mod 100"] by simp_all
  ultimately show thesis using that unfolding year_parts_def by blast
qed

lemma year_parts_div:
  assumes "year_parts y q a b c"
  shows "y div 400 = q" "y mod 400 = 100 * a + 4 * b + c" "y div 100 = 4 * q + a" "y mod 100 = 4 * b + c"
    "y div 4 = 100 * q + 25 * a + b" "y mod 4 = c"
proof -
  have "y div 400 = q \<and> y mod 400 = 100 * a + 4 * b + c" by (rule div_mod_eqI) (use assms in \<open>simp_all add: year_parts_def\<close>)
  then show "y div 400 = q" "y mod 400 = 100 * a + 4 * b + c" by blast+
  have "y div 100 = 4 * q + a \<and> y mod 100 = 4 * b + c" by (rule div_mod_eqI) (use assms in \<open>simp_all add: year_parts_def\<close>)
  then show "y div 100 = 4 * q + a" "y mod 100 = 4 * b + c" by blast+
  have "y div 4 = 100 * q + 25 * a + b \<and> y mod 4 = c" by (rule div_mod_eqI) (use assms in \<open>simp_all add: year_parts_def\<close>)
  then show "y div 4 = 100 * q + 25 * a + b" "y mod 4 = c" by blast+
qed

lemma march_days_parts: "year_parts y q a b c \<Longrightarrow> march_days y = 365 * y + 97 * q + 24 * a + b"
  by (simp add: march_days_def year_parts_div)

lemma leap_parts: "year_parts y q a b c \<Longrightarrow> leap y \<longleftrightarrow> c = 0 \<and> (b \<noteq> 0 \<or> a = 0)"
  by (simp add: leap_def year_parts_div) (auto simp: year_parts_def)

lemma march_days_era: "(let era = y div 400; yoe = y - era * 400 in era * 146097 + (yoe * 365 + yoe div 4 - yoe div 100)) = march_days y"
proof -
  obtain q a b c where p: "year_parts y q a b c" by (rule year_parts_ex)
  then have r: "year_parts (y - q * 400) 0 a b c" by (simp add: year_parts_def)
  show ?thesis
    unfolding Let_def year_parts_div(1) [OF p] year_parts_div(3,5) [OF r] march_days_parts [OF p]
    using p by (simp add: year_parts_def)
qed

lemma days_from_civil_eq:
  "days_from_civil y m d = march_days (if m \<le> 2 then y - 1 else y)
     + (153 * (if m > 2 then m - 3 else m + 9) + 2) div 5 + d - 1 - 719468"
  using march_days_era [of "if m \<le> 2 then y - 1 else y"] by (simp add: days_from_civil_def Let_def)

lemma march_days_Suc: "march_days (y - 1) + (if leap y then 366 else 365) = march_days y"
proof -
  obtain q a b c where p: "year_parts y q a b c" by (rule year_parts_ex)
  consider "0 < c" | "c = 0" "0 < b" | "c = 0" "b = 0" "0 < a" | "c = 0" "b = 0" "a = 0"
    using p by (force simp: year_parts_def)
  then show ?thesis
  proof cases
    case 1
    then have "year_parts (y - 1) q a b (c - 1)" using p by (simp add: year_parts_def)
    with 1 p show ?thesis by (simp add: march_days_parts leap_parts)
  next
    case 2
    then have "year_parts (y - 1) q a (b - 1) 3" using p by (simp add: year_parts_def)
    with 2 p show ?thesis by (simp add: march_days_parts leap_parts)
  next
    case 3
    then have "year_parts (y - 1) q (a - 1) 24 3" using p by (simp add: year_parts_def)
    with 3 p show ?thesis by (simp add: march_days_parts leap_parts)
  next
    case 4
    then have "year_parts (y - 1) (q - 1) 3 24 3" using p by (simp add: year_parts_def)
    with 4 p show ?thesis by (simp add: march_days_parts leap_parts)
  qed
qed

lemma days_next_day:
  assumes "valid_date (y, m, d)"
  shows "(case next_day (y, m, d) of (y', m', d') \<Rightarrow> days_from_civil y' m' d') = days_from_civil y m d + 1"
proof -
  have m: "1 \<le> m" "m \<le> 12" "d \<le> month_length y m" using assms by (simp_all add: valid_date_def)
  show ?thesis
    by (rule month_cases [OF m(1,2)])
      (use m(3) march_days_Suc [of y] in \<open>auto simp: next_day_def days_from_civil_eq month_length_def split: if_splits\<close>)
qed

text \<open>The days before a day of a March year stay within it.\<close>

lemma doe_year:
  fixes yoe doy :: int
  assumes yoe: "0 \<le> yoe" "yoe < 400" and doy: "0 \<le> doy" "doy \<le> 365" and leap: "doy = 365 \<Longrightarrow> leap (yoe + 1)"
  defines "doe \<equiv> yoe * 365 + yoe div 4 - yoe div 100 + doy"
  shows "(doe - doe div 1460 + doe div 36524 - doe div 146096) div 365 = yoe"
    and "0 \<le> doe" and "doe < 146097"
proof -
  obtain q a b c where p0: "year_parts yoe q a b c" by (rule year_parts_ex)
  with yoe have "q = 0" by (simp add: year_parts_def)
  with p0 have p: "year_parts yoe 0 a b c" by simp
  then have y: "yoe = 100 * a + 4 * b + c" and bounds: "0 \<le> a" "a \<le> 3" "0 \<le> b" "b \<le> 24" "0 \<le> c" "c \<le> 3"
    by (simp_all add: year_parts_def)
  have doe: "doe = 36524 * a + 1461 * b + 365 * c + doy"
    unfolding doe_def using year_parts_div [OF p] y by simp
  have last: "c = 3 \<and> (b \<noteq> 24 \<or> a = 3)" if d: "doy = 365"
  proof (rule ccontr)
    assume n: "\<not> (c = 3 \<and> (b \<noteq> 24 \<or> a = 3))"
    show False
    proof (cases "c = 3")
      case False
      then have "year_parts (yoe + 1) 0 a b (c + 1)" using y bounds by (simp add: year_parts_def)
      with leap [OF d] bounds show False by (simp add: leap_parts)
    next
      case True
      with n have "year_parts (yoe + 1) 0 (a + 1) 0 0" using y bounds by (simp add: year_parts_def)
      with leap [OF d] bounds show False by (simp add: leap_parts)
    qed
  qed
  have full: "36524 * a + 1461 * b + 365 * c + doy < 36524 * (a + 1) \<or> (a = 3 \<and> b = 24 \<and> c = 3 \<and> doy = 365)"
  proof (cases "doy = 365")
    case True
    with last bounds show ?thesis by (cases "b = 24") simp_all
  qed (use bounds doy in simp)
  show "0 \<le> doe" using bounds doy doe by linarith
  show "doe < 146097" using bounds doy doe full by linarith
  show "(doe - doe div 1460 + doe div 36524 - doe div 146096) div 365 = yoe"
  proof (cases "a = 3 \<and> b = 24 \<and> c = 3 \<and> doy = 365")
    case True
    then have "doe = 146096" "yoe = 399" using doe y by simp_all
    then show ?thesis by simp
  next
    case False
    with full have small: "36524 * a + 1461 * b + 365 * c + doy < 36524 * (a + 1)" by blast
    define t where "t = (24 * a + b + 365 * c + doy) div 1460"
    have 1: "doe div 1460 = 25 * a + b + t"
    proof -
      have "doe = 1460 * (25 * a + b) + (24 * a + b + 365 * c + doy)" using doe by simp
      then show ?thesis unfolding t_def by simp
    qed
    have 2: "doe div 36524 = a"
      using div_mod_eqI [of doe 36524 a "doe - 36524 * a"] doe small bounds doy by simp
    have 3: "doe div 146096 = 0" using doe small bounds doy by simp
    have t: "t = 0 \<or> t = 1" "t = 1 \<longleftrightarrow> 1460 \<le> 24 * a + b + 365 * c + doy"
    proof -
      let ?x = "24 * a + b + 365 * c + doy"
      have x: "0 \<le> ?x" "?x < 2920" using bounds doy by linarith+
      have "1460 \<le> ?x \<Longrightarrow> t = 1" using div_mod_eqI [of ?x 1460 1 "?x - 1460"] x by (simp add: t_def)
      moreover have "\<not> 1460 \<le> ?x \<Longrightarrow> t = 0" using x by (simp add: t_def)
      ultimately show "t = 0 \<or> t = 1" "t = 1 \<longleftrightarrow> 1460 \<le> ?x" by (metis zero_neq_one)+
    qed
    have "0 \<le> doy - t" using t bounds doy by auto
    moreover have "doy - t \<le> 364"
    proof (cases "doy = 365")
      case True
      with last bounds t(2) show ?thesis by simp
    qed (use t(1) doy in auto)
    moreover have "doe - doe div 1460 + doe div 36524 - doe div 146096 = 365 * yoe + (doy - t)"
      unfolding 1 2 3 using doe y by simp
    ultimately show ?thesis by simp
  qed
qed

lemma leap_era: "leap (y mod 400 + 1) \<longleftrightarrow> leap (y + 1)"
proof -
  obtain q a b c where p: "year_parts (y + 1) q a b c" by (rule year_parts_ex)
  then have "year_parts (y mod 400 + 1) (q - y div 400) a b c"
    by (simp add: year_parts_def minus_div_mult_eq_mod [symmetric])
  with p show ?thesis by (simp add: leap_parts)
qed

lemma month_of_doy:
  assumes "valid_date (y, m, d)"
  defines "mp \<equiv> if m > 2 then m - 3 else m + 9"
  defines "doy \<equiv> (153 * mp + 2) div 5 + d - 1"
  shows "0 \<le> doy \<and> doy \<le> 365 \<and> (doy = 365 \<longrightarrow> m = 2 \<and> leap y) \<and> (5 * doy + 2) div 153 = mp"
proof -
  have m: "1 \<le> m" "m \<le> 12" "1 \<le> d" "d \<le> month_length y m" using assms by (simp_all add: valid_date_def)
  have "0 \<le> doy \<and> doy \<le> 365 \<and> (doy = 365 \<longrightarrow> m = 2 \<and> leap y)"
    and "153 * mp \<le> 5 * doy + 2 \<and> 5 * doy + 2 < 153 * (mp + 1)"
    unfolding doy_def mp_def
    by (rule month_cases [OF m(1,2)]; use m(3,4) in \<open>simp add: month_length_def split: if_splits\<close>)+
  with div_mod_eqI [of "5 * doy + 2" 153 mp "5 * doy + 2 - 153 * mp"] show ?thesis by simp
qed

lemma civil_of_days:
  assumes v: "valid_date (y, m, d)"
  shows "civil_from_days (days_from_civil y m d) = (y, m, d)"
proof -
  define mp where "mp = (if m > 2 then m - 3 else m + 9)"
  define doy where "doy = (153 * mp + 2) div 5 + d - 1"
  define y' where "y' = (if m \<le> 2 then y - 1 else y)"
  define yoe where "yoe = y' mod 400"
  define doe where "doe = yoe * 365 + yoe div 4 - yoe div 100 + doy"
  note mo = month_of_doy [OF v, folded mp_def, folded doy_def]
  have leap: "leap (yoe + 1)" if "doy = 365"
  proof -
    from mo that have "m = 2" "leap y" by blast+
    with leap_era [of y'] show ?thesis by (simp add: yoe_def y'_def)
  qed
  have "0 \<le> yoe" "yoe < 400" "0 \<le> doy" "doy \<le> 365" using mo by (simp_all add: yoe_def)
  note dy = doe_year [of yoe doy, OF this, folded doe_def]
  have year: "(doe - doe div 1460 + doe div 36524 - doe div 146096) div 365 = yoe" "0 \<le> doe" "doe < 146097"
    by (rule dy, rule leap, assumption)+
  have days: "days_from_civil y m d + 719468 = 146097 * (y' div 400) + doe"
    unfolding days_from_civil_def Let_def y'_def [symmetric] mp_def [symmetric] minus_div_mult_eq_mod
      doe_def yoe_def [symmetric] doy_def by simp
  from div_mod_eqI [OF this year(2,3)]
  have zz: "(days_from_civil y m d + 719468) div 146097 = y' div 400" "(days_from_civil y m d + 719468) mod 146097 = doe" by blast+
  have doy: "doe - (365 * yoe + yoe div 4 - yoe div 100) = doy" by (simp add: doe_def)
  have y: "yoe + y' div 400 * 400 = y'" by (simp add: yoe_def)
  have month: "(if mp < 10 then mp + 3 else mp - 9) = m" using v by (simp add: mp_def valid_date_def)
  have day: "doy - (153 * mp + 2) div 5 + 1 = d" by (simp add: doy_def)
  have mp: "(5 * doy + 2) div 153 = mp" using mo by blast
  show ?thesis
    unfolding civil_from_days_def Let_def zz year(1) doy mp month day y by (simp add: y'_def)
qed

text \<open>The date of day \<open>n\<close> is reached from the epoch by the calendar, a day at a time.\<close>

lemma days_walk: "valid_date ((next_day ^^ n) (1970, 1, 1)) \<and>
   (case (next_day ^^ n) (1970, 1, 1) of (y, m, d) \<Rightarrow> days_from_civil y m d) = int n"
proof (induction n)
  case 0
  show ?case by (simp add: valid_date_def month_length_def days_from_civil_def)
next
  case (Suc n)
  obtain y m d where x: "(next_day ^^ n) (1970, 1, 1) = (y, m, d)" by (cases "(next_day ^^ n) (1970, 1, 1)")
  with Suc have v: "valid_date (y, m, d)" "days_from_civil y m d = int n" by simp_all
  from days_next_day [OF v(1)] v(2) x next_day_valid [OF v(1)] show ?case by (auto split: prod.splits)
qed

lemma civil_walk: "civil_from_days (int n) = (next_day ^^ n) (1970, 1, 1)"
  using days_walk [of n] civil_of_days by (metis (no_types, lifting) case_prod_conv surj_pair)

lemma civil_inverse: "civil_from_days (int n) = (y, m, d) \<Longrightarrow> valid_date (y, m, d) \<and> days_from_civil y m d = int n"
  using days_walk [of n] by (simp add: civil_walk)

section \<open>Timestamps\<close>

definition rfc3339_from_unix :: "nat \<Rightarrow> string" where
  "rfc3339_from_unix secs =
     (let days = int (secs div 86400); rem = secs mod 86400
      in case civil_from_days days of (year, month, day) \<Rightarrow>
           pad_zero 4 (show_nat (nat year)) @ ''-'' @ pad_zero 2 (show_nat (nat month)) @ ''-''
           @ pad_zero 2 (show_nat (nat day)) @ ''T'' @ pad_zero 2 (show_nat (rem div 3600)) @ '':''
           @ pad_zero 2 (show_nat (rem mod 3600 div 60)) @ '':'' @ pad_zero 2 (show_nat (rem mod 60)) @ ''Z'')"

text \<open>\<open>SystemTime\<close> as nanoseconds from the epoch; earlier times are clamped to it, later ones to \<open>i64::MAX\<close> seconds.\<close>

definition rfc3339_utc :: "int \<Rightarrow> string" where
  "rfc3339_utc at = rfc3339_from_unix (min (if at < 0 then 0 else nat (at div 1000000000)) 9223372036854775807)"

text \<open>\<open>str::get\<close> of a range: nothing unless both ends are character boundaries of the text.\<close>

definition boundary :: "string \<Rightarrow> nat \<Rightarrow> bool" where
  "boundary s i \<longleftrightarrow> i = length s \<or> i < length s \<and> \<not> continuation (s ! i)"

definition get_range :: "string \<Rightarrow> nat \<Rightarrow> nat \<Rightarrow> string option" where
  "get_range s a b = (if a \<le> b \<and> boundary s a \<and> boundary s b then Some (take (b - a) (drop a s)) else None)"

definition wrap64 :: "int \<Rightarrow> int" where
  "wrap64 x = (x + 2 ^ 63) mod 2 ^ 64 - 2 ^ 63"

text \<open>\<open>split_at\<close> panics inside a character; nothing else in the module panics.\<close>

datatype 'a outcome = Panics | Returns 'a

definition offset_fields :: "string \<Rightarrow> (string \<times> string) option outcome" where
  "offset_fields rest = (case split_once CHR '':'' rest of
       Some hm \<Rightarrow> Returns (Some hm)
     | None \<Rightarrow> if length rest = 4 then if boundary rest 2 then Returns (Some (take 2 rest, drop 2 rest)) else Panics
              else Returns None)"

definition offset_value :: "int \<Rightarrow> string \<Rightarrow> string \<Rightarrow> int option" where
  "offset_value sign h m =
     (case parse_i64 h of None \<Rightarrow> None | Some hours \<Rightarrow>
      case parse_i64 m of None \<Rightarrow> None | Some minutes \<Rightarrow>
        if 23 < hours \<or> 59 < minutes then None
        else Some (wrap64 (sign * wrap64 (wrap64 (hours * 3600) + wrap64 (minutes * 60)))))"

definition offset_seconds :: "string \<Rightarrow> int option outcome" where
  "offset_seconds suffix0 =
     (let suffix = (case split_once CHR ''.'' suffix0 of Some (_, rest) \<Rightarrow> dropWhile is_ascii_digit rest | None \<Rightarrow> suffix0)
      in if suffix = [] \<or> suffix = ''Z'' \<or> suffix = ''z'' then Returns (Some 0)
         else if hd suffix \<noteq> CHR ''+'' \<and> hd suffix \<noteq> CHR ''-'' then Returns None
         else let sign = (if hd suffix = CHR ''+'' then 1 else -1)
              in case offset_fields (tl suffix) of
                   Panics \<Rightarrow> Panics
                 | Returns None \<Rightarrow> Returns None
                 | Returns (Some (h, m)) \<Rightarrow> Returns (offset_value sign h m))"

definition get_i64 :: "string \<Rightarrow> nat \<Rightarrow> nat \<Rightarrow> int option" where
  "get_i64 s a b = Option.bind (get_range s a b) parse_i64"

definition unix_from_rfc3339 :: "string \<Rightarrow> int option outcome" where
  "unix_from_rfc3339 s =
     (if length s < 10 then Returns None
      else case get_i64 s 0 4 of None \<Rightarrow> Returns None | Some year \<Rightarrow>
        case get_i64 s 5 7 of None \<Rightarrow> Returns None | Some month \<Rightarrow>
        case get_i64 s 8 10 of None \<Rightarrow> Returns None | Some day \<Rightarrow>
        if s ! 4 \<noteq> CHR ''-'' \<or> s ! 7 \<noteq> CHR ''-'' \<or> \<not> (1 \<le> month \<and> month \<le> 12) \<or> \<not> (1 \<le> day \<and> day \<le> 31) then Returns None
        else let secs = days_from_civil year month day * 86400
             in if 19 \<le> length s \<and> (s ! 10 = CHR ''T'' \<or> s ! 10 = CHR '' '')
                then case get_i64 s 11 13 of None \<Rightarrow> Returns None | Some hour \<Rightarrow>
                  case get_i64 s 14 16 of None \<Rightarrow> Returns None | Some minute \<Rightarrow>
                  case get_i64 s 17 19 of None \<Rightarrow> Returns None | Some second \<Rightarrow>
                  if 23 < hour \<or> 59 < minute \<or> 60 < second then Returns None
                  else (case offset_seconds (drop 19 s) of
                      Panics \<Rightarrow> Panics
                    | Returns off \<Rightarrow> Returns (map_option (\<lambda>o'. wrap64 (secs + hour * 3600 + minute * 60 + second - o')) off))
                else if length s \<noteq> 10 then Returns None else Returns (Some secs))"

text \<open>\<open>i64\<close> division truncates towards zero.\<close>

definition quot_trunc :: "int \<Rightarrow> int \<Rightarrow> int" where
  "quot_trunc a b = sgn a * sgn b * (\<bar>a\<bar> div \<bar>b\<bar>)"

definition age_in_days :: "string \<Rightarrow> string \<Rightarrow> int option outcome" where
  "age_in_days earlier later =
     (case unix_from_rfc3339 later of
        Panics \<Rightarrow> Panics
      | Returns None \<Rightarrow> Returns None
      | Returns (Some t) \<Rightarrow> case unix_from_rfc3339 earlier of
          Panics \<Rightarrow> Panics
        | Returns None \<Rightarrow> Returns None
        | Returns (Some f) \<Rightarrow> Returns (Some (quot_trunc (wrap64 (t - f)) 86400)))"

section \<open>Reading back what was written\<close>

lemma wrap64_id: "- (2 ^ 63) \<le> x \<Longrightarrow> x < 2 ^ 63 \<Longrightarrow> wrap64 x = x"
  by (simp add: wrap64_def)

lemma digit_boundary: "is_ascii_digit c \<Longrightarrow> \<not> continuation c"
  by (simp add: is_ascii_digit_def continuation_def)

lemma length_2: "length xs = 2 \<longleftrightarrow> (\<exists>a b. xs = [a, b])"
  by (auto simp: length_Suc_conv numeral_eq_Suc)

lemma length_4: "length xs = 4 \<longleftrightarrow> (\<exists>a b c d. xs = [a, b, c, d])"
  by (auto simp: length_Suc_conv numeral_eq_Suc)

definition field2 :: "nat \<Rightarrow> string" where "field2 n = pad_zero 2 (show_nat n)"
definition field4 :: "nat \<Rightarrow> string" where "field4 n = pad_zero 4 (show_nat n)"

lemma field2_cases:
  assumes "n < 100"
  obtains a b where "field2 n = [a, b]" "is_ascii_digit a" "is_ascii_digit b" "parse_i64 [a, b] = Some (int n)"
proof -
  have l: "length (field2 n) = 2" using pad_zero_length [of n 1] assms by (simp add: field2_def numeral_2_eq_2)
  then obtain a b where f: "field2 n = [a, b]" by (auto simp: length_2)
  have ds: "list_all is_ascii_digit (field2 n)" "digits_val (field2 n) = n" by (simp_all only: field2_def pad_zero_digits pad_zero_val)
  then have "is_ascii_digit a" "is_ascii_digit b" by (simp_all add: f)
  moreover have "parse_i64 [a, b] = Some (int n)"
    using parse_i64_digits [OF ds(1)] assms by (simp add: ds(2)) (simp add: f)
  ultimately show thesis using that f by blast
qed

lemma field4_cases:
  assumes "n < 10000"
  obtains a b c d where "field4 n = [a, b, c, d]" "is_ascii_digit a" "is_ascii_digit b" "is_ascii_digit c" "is_ascii_digit d"
    "parse_i64 [a, b, c, d] = Some (int n)"
proof -
  have l: "length (field4 n) = 4" using pad_zero_length [of n 3, simplified] assms by (simp add: field4_def)
  then obtain a b c d where f: "field4 n = [a, b, c, d]" by (auto simp: length_4)
  have ds: "list_all is_ascii_digit (field4 n)" "digits_val (field4 n) = n" by (simp_all only: field4_def pad_zero_digits pad_zero_val)
  then have "is_ascii_digit a" "is_ascii_digit b" "is_ascii_digit c" "is_ascii_digit d" by (simp_all add: f)
  moreover have "parse_i64 [a, b, c, d] = Some (int n)"
    using parse_i64_digits [OF ds(1)] assms by (simp add: ds(2)) (simp add: f)
  ultimately show thesis using that f by blast
qed

text \<open>The text of a date and a time of day, and what the parser makes of it before an offset.\<close>

definition stamp :: "nat \<Rightarrow> nat \<Rightarrow> nat \<Rightarrow> nat \<Rightarrow> nat \<Rightarrow> nat \<Rightarrow> string" where
  "stamp y m d h mi se = field4 y @ ''-'' @ field2 m @ ''-'' @ field2 d @ ''T'' @ field2 h @ '':'' @ field2 mi @ '':'' @ field2 se"

lemma stamp_parse:
  assumes "y < 10000" "1 \<le> m" "m \<le> 12" "1 \<le> d" "d \<le> 31" "h < 24" "mi < 60" "se < 60"
    and off: "offset_seconds suffix = Returns (Some off)" and suffix: "suffix = [] \<or> \<not> continuation (hd suffix)"
  shows "unix_from_rfc3339 (stamp y m d h mi se @ suffix)
    = Returns (Some (wrap64 (days_from_civil (int y) (int m) (int d) * 86400 + int h * 3600 + int mi * 60 + int se - off)))"
proof -
  obtain y1 y2 y3 y4 where Y: "field4 y = [y1, y2, y3, y4]" "is_ascii_digit y1" "is_ascii_digit y2" "is_ascii_digit y3" "is_ascii_digit y4"
    "parse_i64 [y1, y2, y3, y4] = Some (int y)" by (rule field4_cases [OF assms(1)])
  obtain m1 m2 where M: "field2 m = [m1, m2]" "is_ascii_digit m1" "is_ascii_digit m2" "parse_i64 [m1, m2] = Some (int m)"
    by (rule field2_cases [of m]) (use assms in simp)
  obtain d1 d2 where D: "field2 d = [d1, d2]" "is_ascii_digit d1" "is_ascii_digit d2" "parse_i64 [d1, d2] = Some (int d)"
    by (rule field2_cases [of d]) (use assms in simp)
  obtain h1 h2 where H: "field2 h = [h1, h2]" "is_ascii_digit h1" "is_ascii_digit h2" "parse_i64 [h1, h2] = Some (int h)"
    by (rule field2_cases [of h]) (use assms in simp)
  obtain n1 n2 where N: "field2 mi = [n1, n2]" "is_ascii_digit n1" "is_ascii_digit n2" "parse_i64 [n1, n2] = Some (int mi)"
    by (rule field2_cases [of mi]) (use assms in simp)
  obtain s1 s2 where S: "field2 se = [s1, s2]" "is_ascii_digit s1" "is_ascii_digit s2" "parse_i64 [s1, s2] = Some (int se)"
    by (rule field2_cases [of se]) (use assms in simp)
  let ?t = "[y1, y2, y3, y4, CHR ''-'', m1, m2, CHR ''-'', d1, d2, CHR ''T'', h1, h2, CHR '':'', n1, n2, CHR '':'', s1, s2] @ suffix"
  have t: "stamp y m d h mi se @ suffix = ?t" by (simp add: stamp_def Y M D H N S)
  have sep: "\<not> continuation CHR ''-''" "\<not> continuation CHR '':''" "\<not> continuation CHR ''T''" by (simp_all add: continuation_def)
  note nc = Y(2-5) [THEN digit_boundary] M(2,3) [THEN digit_boundary] D(2,3) [THEN digit_boundary] H(2,3) [THEN digit_boundary]
    N(2,3) [THEN digit_boundary] S(2,3) [THEN digit_boundary] sep
  have last: "boundary ?t 19" using suffix by (cases suffix) (simp_all add: boundary_def)
  have g: "get_i64 ?t 0 4 = Some (int y)" "get_i64 ?t 5 7 = Some (int m)" "get_i64 ?t 8 10 = Some (int d)"
    "get_i64 ?t 11 13 = Some (int h)" "get_i64 ?t 14 16 = Some (int mi)"
    using Y(6) M(4) D(4) H(4) N(4) nc by (simp_all add: get_i64_def get_range_def boundary_def)
  have g2: "get_i64 ?t 17 19 = Some (int se)" using S(4) nc last by (simp add: get_i64_def get_range_def boundary_def)
  have o: "offset_seconds (drop 19 ?t) = Returns (Some off)" using off by simp
  have len: "\<not> length ?t < 10" "19 \<le> length ?t" and sp: "?t ! 4 = CHR ''-''" "?t ! 7 = CHR ''-''" "?t ! 10 = CHR ''T''" by simp_all
  show ?thesis
    unfolding t unix_from_rfc3339_def Let_def g g2 o using len sp assms by simp
qed

lemma offset_Z: "offset_seconds ''Z'' = Returns (Some 0)"
  by (simp add: offset_seconds_def)

definition offset_text :: "bool \<Rightarrow> nat \<Rightarrow> nat \<Rightarrow> string" where
  "offset_text east oh om = (if east then ''+'' else ''-'') @ field2 oh @ '':'' @ field2 om"

lemma offset_of_text:
  assumes "oh < 24" "om < 60"
  shows "offset_seconds (offset_text east oh om) = Returns (Some ((if east then 1 else -1) * int (oh * 3600 + om * 60)))"
proof -
  obtain h1 h2 where H: "field2 oh = [h1, h2]" "is_ascii_digit h1" "is_ascii_digit h2" "parse_i64 [h1, h2] = Some (int oh)"
    by (rule field2_cases [of oh]) (use assms in simp)
  obtain n1 n2 where N: "field2 om = [n1, n2]" "is_ascii_digit n1" "is_ascii_digit n2" "parse_i64 [n1, n2] = Some (int om)"
    by (rule field2_cases [of om]) (use assms in simp)
  have colon: "h1 \<noteq> CHR '':''" "h2 \<noteq> CHR '':''" using digit_not_sign H(2,3) by blast+
  have dot: "\<not> is_ascii_digit CHR ''.''" by (simp add: is_ascii_digit_def)
  let ?o = "(if east then CHR ''+'' else CHR ''-'') # [h1, h2, CHR '':'', n1, n2]"
  have o: "offset_text east oh om = ?o" by (simp add: offset_text_def H N)
  have "split_once CHR ''.'' ?o = None" using dot H(2,3) N(2,3) by auto
  moreover have "offset_fields (tl ?o) = Returns (Some ([h1, h2], [n1, n2]))" using colon by (simp add: offset_fields_def)
  moreover have "offset_value (if east then 1 else -1) [h1, h2] [n1, n2] = Some ((if east then 1 else -1) * int (oh * 3600 + om * 60))"
  proof -
    have "wrap64 (int oh * 3600) = int oh * 3600" "wrap64 (int om * 60) = int om * 60"
      "wrap64 (int oh * 3600 + int om * 60) = int oh * 3600 + int om * 60"
      "wrap64 (- (int oh * 3600 + int om * 60)) = - (int oh * 3600 + int om * 60)"
      using assms by (simp_all add: wrap64_id)
    with H N assms show ?thesis by (simp add: offset_value_def)
  qed
  ultimately show ?thesis unfolding o offset_seconds_def Let_def by (cases east) simp_all
qed

lemma march_days_mono: "y \<le> y' \<Longrightarrow> march_days y + 365 * (y' - y) \<le> march_days y'"
proof (induction y' rule: int_ge_induct)
  case (step i)
  from march_days_Suc [of "i + 1"] have "march_days i + 365 \<le> march_days (i + 1)" by (simp split: if_splits)
  with step.IH show ?case by (simp add: algebra_simps)
qed simp

lemma march_days_neg: "y \<le> 0 \<Longrightarrow> march_days y \<le> 0"
  using march_days_mono [of y 0] by (simp add: march_days_def)

lemma year_range:
  assumes v: "valid_date (y, m, d)" and n: "0 \<le> days_from_civil y m d" "days_from_civil y m d < 2932897"
  shows "0 \<le> y" "y < 10000"
proof -
  let ?y = "if m \<le> 2 then y - 1 else y"
  define doy where "doy = (153 * (if m > 2 then m - 3 else m + 9) + 2) div 5 + d - 1"
  have doy: "0 \<le> doy" "doy \<le> 365" using month_of_doy [OF v] unfolding doy_def by blast+
  have late: "306 \<le> doy" if "m \<le> 2"
  proof -
    have "m = 1 \<or> m = 2" "1 \<le> d" using v that by (auto simp: valid_date_def)
    then show ?thesis by (auto simp: doy_def)
  qed
  have days: "days_from_civil y m d = march_days ?y + doy - 719468"
    by (simp add: days_from_civil_eq doy_def)
  show "0 \<le> y"
  proof (rule ccontr)
    assume "\<not> 0 \<le> y"
    then have "march_days ?y \<le> 0" by (intro march_days_neg) simp
    with days doy n(1) show False by linarith
  qed
  show "y < 10000"
  proof (rule ccontr)
    assume y: "\<not> y < 10000"
    show False
    proof (cases "m \<le> 2")
      case True
      with y march_days_mono [of 9999 "y - 1"] have "3652059 \<le> march_days ?y" by (simp add: march_days_def)
      with days late [OF True] n(2) show False by linarith
    next
      case False
      with y march_days_mono [of 10000 y] have "3652425 \<le> march_days ?y" by (simp add: march_days_def)
      with days doy n(2) show False by linarith
    qed
  qed
qed

lemma stamp_of_unix:
  assumes "secs < 253402300800"
  obtains y m d h mi se where "rfc3339_from_unix secs = stamp y m d h mi se @ ''Z''"
    "y < 10000" "1 \<le> m" "m \<le> 12" "1 \<le> d" "d \<le> 31" "h < 24" "mi < 60" "se < 60"
    "days_from_civil (int y) (int m) (int d) * 86400 + int h * 3600 + int mi * 60 + int se = int secs"
proof -
  obtain y m d where c: "civil_from_days (int (secs div 86400)) = (y, m, d)" by (cases "civil_from_days (int (secs div 86400))")
  note v = civil_inverse [OF c]
  have "secs div 86400 < 2932897" using assms by (simp add: less_mult_imp_div_less)
  with v year_range [of y m d] have y: "0 \<le> y" "y < 10000" by simp_all
  have md: "1 \<le> m" "m \<le> 12" "1 \<le> d" "d \<le> 31" using v by (auto simp: valid_date_def month_length_def split: if_splits)
  let ?r = "secs mod 86400"
  have time: "?r div 3600 < 24" "?r mod 3600 div 60 < 60" "?r mod 60 < 60" by (simp_all add: less_mult_imp_div_less)
  have "int (?r div 3600) * 3600 + int (?r mod 3600 div 60) * 60 + int (?r mod 60) = int ?r"
  proof -
    have "?r mod 3600 mod 60 = ?r mod 60" by (rule mod_mod_cancel) simp
    then have "?r div 3600 * 3600 + ?r mod 3600 div 60 * 60 + ?r mod 60 = ?r"
      using div_mult_mod_eq [of "?r mod 3600" 60] div_mult_mod_eq [of ?r 3600] by linarith
    from arg_cong [OF this, of int] show ?thesis by (simp only: of_nat_add of_nat_mult of_nat_numeral)
  qed
  moreover have "days_from_civil y m d * 86400 + int ?r = int secs"
    using v arg_cong [OF div_mult_mod_eq [of secs 86400], of int] by (simp only: of_nat_add of_nat_mult of_nat_numeral)
  ultimately have "days_from_civil (int (nat y)) (int (nat m)) (int (nat d)) * 86400 + int (?r div 3600) * 3600
      + int (?r mod 3600 div 60) * 60 + int (?r mod 60) = int secs"
    using y md by simp
  moreover have "rfc3339_from_unix secs = stamp (nat y) (nat m) (nat d) (?r div 3600) (?r mod 3600 div 60) (?r mod 60) @ ''Z''"
    by (simp add: rfc3339_from_unix_def Let_def c stamp_def field2_def field4_def)
  ultimately show thesis using that y md time by (simp add: nat_less_iff nat_le_iff le_nat_iff)
qed

text \<open>C39. For an instant before the year 10000 the date printed is the one the calendar reaches from 1970-01-01 in as many
  days; parsing the text gives the instant back; and the same text with an offset in place of \<open>Z\<close> reads as that
  local time, the offset converted and never dropped.\<close>

theorem timestamp_roundtrip:
  assumes "secs < 253402300800"
  shows "civil_from_days (int (secs div 86400)) = (next_day ^^ (secs div 86400)) (1970, 1, 1)
    \<and> unix_from_rfc3339 (rfc3339_from_unix secs) = Returns (Some (int secs))
    \<and> (\<forall>east oh om. oh < 24 \<and> om < 60 \<longrightarrow>
         unix_from_rfc3339 (butlast (rfc3339_from_unix secs) @ offset_text east oh om)
           = Returns (Some (int secs - (if east then 1 else -1) * int (oh * 3600 + om * 60))))"
proof -
  obtain y m d h mi se where t: "rfc3339_from_unix secs = stamp y m d h mi se @ ''Z''"
    and r: "y < 10000" "1 \<le> m" "m \<le> 12" "1 \<le> d" "d \<le> 31" "h < 24" "mi < 60" "se < 60"
    and s: "days_from_civil (int y) (int m) (int d) * 86400 + int h * 3600 + int mi * 60 + int se = int secs"
    by (rule stamp_of_unix [OF assms])
  have z: "unix_from_rfc3339 (rfc3339_from_unix secs) = Returns (Some (int secs))"
    unfolding t using stamp_parse [OF r offset_Z] s assms by (simp add: continuation_def wrap64_id)
  have "unix_from_rfc3339 (butlast (rfc3339_from_unix secs) @ offset_text east oh om)
      = Returns (Some (int secs - (if east then 1 else -1) * int (oh * 3600 + om * 60)))" if "oh < 24 \<and> om < 60" for east oh om
  proof -
    have "\<not> continuation (hd (offset_text east oh om))" by (simp add: offset_text_def continuation_def)
    moreover have "oh * 3600 + om * 60 < 86400" using that by linarith
    ultimately show ?thesis
      unfolding t using that s assms
      by (simp add: stamp_parse [OF r offset_of_text] butlast_append wrap64_id)
  qed
  with z civil_walk [of "secs div 86400"] show ?thesis by blast
qed

theorem timestamp_roundtrip_witness:
  "unix_from_rfc3339 (butlast (rfc3339_from_unix 1755248400) @ offset_text True 2 0) = Returns (Some 1755241200)"
  using timestamp_roundtrip [of 1755248400] by (simp del: of_nat_add of_nat_mult)

text \<open>What the parser lets through although no such instant is written: a day February does not have, a signed hour,
  and an offset ahead of a decimal point, which is dropped; and a four-byte offset cut inside a character.\<close>

lemmas parser_eval = unix_from_rfc3339_def get_i64_def get_range_def boundary_def continuation_def parse_i64_def parse_nat_def
  is_ascii_digit_def digits_val_def digit_val_def offset_seconds_def offset_fields_def offset_value_def days_from_civil_def
  wrap64_def

lemma parser_leniency:
  "unix_from_rfc3339 ''2026-02-31'' = unix_from_rfc3339 ''2026-03-03''
   \<and> unix_from_rfc3339 ''2026-01-02T-1:00:00Z'' = unix_from_rfc3339 ''2026-01-01T23:00:00Z''
   \<and> unix_from_rfc3339 ''2026-01-01T00:00:00+02:00.0'' = unix_from_rfc3339 ''2026-01-01T00:00:00Z''
   \<and> unix_from_rfc3339 (''2026-01-01T00:00:00+'' @ [CHR 0xE2, CHR 0x82, CHR 0xAC, CHR ''1'']) = Panics"
  by (intro conjI) (simp_all add: parser_eval)

end
