(* ===== verification/Consent.thy ===== *)
theory Consent imports Prelude begin

text \<open>
  \<open>crates/rto-graph/src/layering.rs\<close> and \<open>trust.rs\<close>, \<open>crates/rto-remote/src/consent.rs\<close> and \<open>escalation.rs\<close>: which
  configuration layer may grant or deny, whether the remote tier may be used, and when a local answer falls short.
  The sentences shown to a reader are not modelled.
\<close>

section \<open>Layered grants\<close>

record 'a grant =
  gr_project :: "'a option"
  gr_user :: "'a option"
  gr_default :: 'a

definition grant_from_layers :: "'a option \<Rightarrow> 'a option \<Rightarrow> 'a \<Rightarrow> 'a grant" where
  "grant_from_layers project user builtin = \<lparr>gr_project = project, gr_user = user, gr_default = builtin\<rparr>"

definition baseline :: "'a grant \<Rightarrow> 'a" where
  "baseline g = (case gr_user g of Some u \<Rightarrow> u | None \<Rightarrow> gr_default g)"

definition grant_as_effective :: "'a::linorder grant \<Rightarrow> 'a option" where
  "grant_as_effective g = (case gr_project g of Some p \<Rightarrow> if p \<le> baseline g then Some p else gr_user g | None \<Rightarrow> gr_user g)"

definition resolved :: "'a::linorder grant \<Rightarrow> 'a" where
  "resolved g = (case grant_as_effective g of Some v \<Rightarrow> v | None \<Rightarrow> gr_default g)"

definition project_widening_ignored :: "'a::linorder grant \<Rightarrow> bool" where
  "project_widening_ignored g = (case gr_project g of Some p \<Rightarrow> baseline g < p | None \<Rightarrow> False)"

definition project_narrowed :: "'a::linorder grant \<Rightarrow> bool" where
  "project_narrowed g = (case gr_project g of Some p \<Rightarrow> p < baseline g | None \<Rightarrow> False)"

text \<open>A project narrows what the user and the default give, and never widens it.\<close>

lemma resolved_min:
  "resolved (grant_from_layers p u d) = (case p of Some v \<Rightarrow> min v (baseline (grant_from_layers p u d)) | None \<Rightarrow> baseline (grant_from_layers p u d))"
  by (auto simp: resolved_def grant_as_effective_def baseline_def grant_from_layers_def min_def split: option.splits)

lemma project_verdicts:
  "project_narrowed g \<longleftrightarrow> resolved g < baseline g"
  "project_widening_ignored g \<Longrightarrow> resolved g = baseline g"
  by (auto simp: project_narrowed_def project_widening_ignored_def resolved_def grant_as_effective_def baseline_def
      split: option.splits if_splits)

section \<open>Producers and the remote tier's consent\<close>

datatype producer_trust = PinnedDigest | VendorAsserted

definition producer_trust_as_str :: "producer_trust \<Rightarrow> string" where
  "producer_trust_as_str t = (case t of PinnedDigest \<Rightarrow> ''pinned_digest'' | VendorAsserted \<Rightarrow> ''vendor_asserted'')"

definition is_verifiable :: "producer_trust \<Rightarrow> bool" where
  "is_verifiable t \<longleftrightarrow> t = PinnedDigest"

record config_grant =
  cg_project_denied :: bool
  cg_project_grant_ignored :: bool
  cg_user :: "bool option"

definition config_from_layers :: "bool option \<Rightarrow> bool option \<Rightarrow> config_grant" where
  "config_from_layers project user = \<lparr>cg_project_denied = (project = Some False),
     cg_project_grant_ignored = (project = Some True), cg_user = user\<rparr>"

definition config_project :: "config_grant \<Rightarrow> bool option" where
  "config_project c = (if cg_project_denied c then Some False else if cg_project_grant_ignored c then Some True else None)"

definition config_as_effective :: "config_grant \<Rightarrow> bool option" where
  "config_as_effective c = grant_as_effective (grant_from_layers (config_project c) (cg_user c) False)"

datatype invocation = Unset | Flag bool | Prompt bool

definition invocation_answer :: "invocation \<Rightarrow> bool option" where
  "invocation_answer i = (case i of Unset \<Rightarrow> None | Flag b \<Rightarrow> Some b | Prompt b \<Rightarrow> Some b)"

datatype reason = Granted | ProjectDenied | InvocationDenied | PromptDeclined | UserLayerDenied | UserLayerUnset | InvocationUnset

definition reason_as_str :: "reason \<Rightarrow> string" where
  "reason_as_str r = (case r of Granted \<Rightarrow> ''granted'' | ProjectDenied \<Rightarrow> ''project_denied''
     | InvocationDenied \<Rightarrow> ''invocation_denied'' | PromptDeclined \<Rightarrow> ''prompt_declined''
     | UserLayerDenied \<Rightarrow> ''user_layer_denied'' | UserLayerUnset \<Rightarrow> ''user_layer_unset''
     | InvocationUnset \<Rightarrow> ''invocation_unset'')"

definition reason_granted :: "reason \<Rightarrow> bool" where
  "reason_granted r \<longleftrightarrow> r = Granted"

record consent_decision =
  dc_reason :: reason
  dc_project_grant_ignored :: bool

definition decision_granted :: "consent_decision \<Rightarrow> bool" where
  "decision_granted d = reason_granted (dc_reason d)"

definition decide_with :: "config_grant \<Rightarrow> invocation \<Rightarrow> consent_decision" where
  "decide_with config i =
     (let reason = (if cg_project_denied config then ProjectDenied
        else if i = Flag False then InvocationDenied
        else if i = Prompt False then PromptDeclined
        else case config_as_effective config of
            Some False \<Rightarrow> UserLayerDenied
          | None \<Rightarrow> UserLayerUnset
          | Some True \<Rightarrow> (case i of Unset \<Rightarrow> InvocationUnset | _ \<Rightarrow> Granted))
      in \<lparr>dc_reason = reason, dc_project_grant_ignored = cg_project_grant_ignored config\<rparr>)"

definition decide :: "config_grant \<Rightarrow> bool option \<Rightarrow> consent_decision" where
  "decide config i = decide_with config (case i of None \<Rightarrow> Unset | Some b \<Rightarrow> Flag b)"

definition may_prompt :: "reason \<Rightarrow> bool" where
  "may_prompt r \<longleftrightarrow> r = InvocationUnset"

lemma effective_of_layers:
  "config_as_effective (config_from_layers project user) = (if project = Some False then Some False else user)"
  by (auto simp: config_as_effective_def config_from_layers_def config_project_def grant_as_effective_def
      grant_from_layers_def baseline_def split: option.splits)

text \<open>C36. The remote tier is granted exactly when the user's own configuration and the invocation both grant it and the
  project does not deny it. What a committed project file grants never changes the decision and is reported; a
  denial by the project comes first, then the invocation's; and a prompt may be shown exactly when its yes would
  be the one grant still missing.\<close>

theorem consent_needs_both:
  "let dec = \<lambda>p i. decide_with (config_from_layers p user) i in
     (decision_granted (dec project i) \<longleftrightarrow> project \<noteq> Some False \<and> user = Some True \<and> invocation_answer i = Some True)
     \<and> dc_reason (dec (Some True) i) = dc_reason (dec None i)
     \<and> dc_project_grant_ignored (dec project i) = (project = Some True)
     \<and> (dc_reason (dec project i) = ProjectDenied \<longleftrightarrow> project = Some False)
     \<and> (dc_reason (dec project i) \<in> {InvocationDenied, PromptDeclined} \<longleftrightarrow> project \<noteq> Some False \<and> invocation_answer i = Some False)
     \<and> (may_prompt (dc_reason (dec project i)) \<longleftrightarrow> i = Unset \<and> decision_granted (dec project (Prompt True)))"
  by (cases i)
    (auto simp: decide_with_def decision_granted_def reason_granted_def may_prompt_def invocation_answer_def Let_def
      effective_of_layers split: option.splits bool.splits, auto simp: config_from_layers_def)

section \<open>When a local answer falls short\<close>

record local_attempt =
  la_output_chars :: nat
  la_tool_calls :: nat
  la_rounds :: nat
  la_max_rounds :: nat

record escalation_policy =
  ep_length_floor :: nat

definition policy_default :: escalation_policy where
  "policy_default = \<lparr>ep_length_floor = 16\<rparr>"

datatype trigger = EmptyOutput | NoToolCallAfterMaxRounds | BelowLengthFloor

definition trigger_as_str :: "trigger \<Rightarrow> string" where
  "trigger_as_str t = (case t of EmptyOutput \<Rightarrow> ''empty_output''
     | NoToolCallAfterMaxRounds \<Rightarrow> ''no_tool_call_after_max_rounds'' | BelowLengthFloor \<Rightarrow> ''below_length_floor'')"

record escalation_check =
  ck_trigger :: "trigger option"
  ck_output_chars :: nat
  ck_tool_calls :: nat
  ck_rounds :: nat
  ck_max_rounds :: nat
  ck_length_floor :: nat

definition fell_short :: "escalation_check \<Rightarrow> bool" where
  "fell_short c \<longleftrightarrow> ck_trigger c \<noteq> None"

definition escalation_check_of :: "local_attempt \<Rightarrow> escalation_policy \<Rightarrow> escalation_check" where
  "escalation_check_of a p =
     \<lparr>ck_trigger = (if la_output_chars a = 0 then Some EmptyOutput
        else if la_tool_calls a = 0 \<and> la_max_rounds a \<le> la_rounds a \<and> 0 < la_max_rounds a then Some NoToolCallAfterMaxRounds
        else if la_output_chars a < ep_length_floor p then Some BelowLengthFloor else None),
      ck_output_chars = la_output_chars a, ck_tool_calls = la_tool_calls a, ck_rounds = la_rounds a,
      ck_max_rounds = la_max_rounds a, ck_length_floor = ep_length_floor p\<rparr>"

lemma answer_stands:
  "\<not> fell_short (escalation_check_of a p) \<longleftrightarrow> 0 < la_output_chars a \<and> ep_length_floor p \<le> la_output_chars a
     \<and> (0 < la_tool_calls a \<or> la_rounds a < la_max_rounds a \<or> la_max_rounds a = 0)"
  by (auto simp: fell_short_def escalation_check_of_def)

end
