(* ===== verification/Remote.thy ===== *)
theory Remote imports Consent Model Decimal Query Thinking begin

text \<open>
  \<open>crates/rto-remote\<close> and the engine in front of it (\<open>crates/roteiro/src/remote_engine.rs\<close>): where a request may go,
  what it carries, the ledger written around it, and how its answer is read. The printer and the parser of JSON,
  the clock, the disk and the network are parameters; error sentences are represented by what they report.
\<close>

section \<open>Endpoints\<close>

record remote_endpoint =
  en_url :: string
  en_model :: string
  en_trust :: producer_trust

datatype endpoint_error = Scheme string | PlaintextOffHost string string | NoModel

definition LOOPBACK_HOSTS :: "string list" where
  "LOOPBACK_HOSTS = [''localhost'', ''127.0.0.1'', ''[::1]'', ''::1'']"

text \<open>The text after the last occurrence, or all of it: \<open>rsplit_once(..).map_or(s, |(_, h)| h)\<close>.\<close>

definition after_last :: "char \<Rightarrow> string \<Rightarrow> string" where
  "after_last c s = rev (takeWhile (\<lambda>x. x \<noteq> c) (rev s))"

definition before_first :: "char \<Rightarrow> string \<Rightarrow> string" where
  "before_first c s = takeWhile (\<lambda>x. x \<noteq> c) s"

definition host_of :: "string \<Rightarrow> string" where
  "host_of rest =
     (let authority = after_last CHR ''@'' (takeWhile (\<lambda>c. c \<notin> {CHR ''/'', CHR ''?'', CHR ''#''}) rest);
          host = (if starts_with authority ''['' then before_first CHR '']'' authority @ '']'' else before_first CHR '':'' authority)
      in map to_ascii_lower host)"

definition endpoint_new :: "string \<Rightarrow> string \<Rightarrow> producer_trust \<Rightarrow> endpoint_error + remote_endpoint" where
  "endpoint_new url0 model0 trust =
     (let url = trim url0; model = trim model0
      in if model = [] then Err NoModel
         else case strip_prefix ''http://'' url of
             Some rest \<Rightarrow> if host_of rest \<in> set LOOPBACK_HOSTS then Ok \<lparr>en_url = url, en_model = model, en_trust = trust\<rparr>
                         else Err (PlaintextOffHost url (host_of rest))
           | None \<Rightarrow> (case strip_prefix ''https://'' url of
                 Some rest \<Rightarrow> if host_of rest \<noteq> [] then Ok \<lparr>en_url = url, en_model = model, en_trust = trust\<rparr> else Err (Scheme url)
               | None \<Rightarrow> Err (Scheme url)))"

section \<open>Payloads\<close>

definition MAX_PROSE_EXCERPT :: nat where "MAX_PROSE_EXCERPT = 1500"
definition MAX_INSTRUCTION :: nat where "MAX_INSTRUCTION = 8000"
definition MAX_CONTEXT_ITEMS :: nat where "MAX_CONTEXT_ITEMS = 64"

record context_item =
  ci_key :: string
  ci_kind :: string
  ci_name :: string
  ci_path :: "string option"
  ci_prose :: "string option"

definition truncate_chars :: "string \<Rightarrow> nat \<Rightarrow> string" where
  "truncate_chars s k = (if length (chars s) \<le> k then s else concat (take k (chars s)) @ ellipsis @ ''[truncated]'')"

definition context_item_from_node :: "node \<Rightarrow> context_item" where
  "context_item_from_node n =
     \<lparr>ci_key = n_key n, ci_kind = node_kind_as_str (n_kind n), ci_name = n_name n, ci_path = n_path n,
      ci_prose = map_option (\<lambda>t. truncate_chars t MAX_PROSE_EXCERPT) (json_get_str (n_meta n) ''content'')\<rparr>"

datatype payload_error = EmptyInstruction | InstructionTooLong nat | TooMuchContext nat

record payload =
  pl_instruction :: string
  pl_context :: "context_item list"

definition payload_new :: "string \<Rightarrow> node list \<Rightarrow> payload_error + payload" where
  "payload_new instruction0 nodes =
     (let instruction = trim instruction0
      in if instruction = [] then Err EmptyInstruction
         else if MAX_INSTRUCTION < length instruction then Err (InstructionTooLong (length instruction))
         else if MAX_CONTEXT_ITEMS < length nodes then Err (TooMuchContext (length nodes))
         else Ok \<lparr>pl_instruction = instruction, pl_context = map context_item_from_node nodes\<rparr>)"

definition fields_present :: "payload \<Rightarrow> string list" where
  "fields_present p =
     [''instruction'']
     @ (if pl_context p \<noteq> [] then [''node keys'', ''node names''] else [])
     @ (if list_ex (\<lambda>c. ci_path c \<noteq> None) (pl_context p) then [''repository-relative paths''] else [])
     @ (if list_ex (\<lambda>c. ci_prose c \<noteq> None) (pl_context p) then [''captured prose excerpts''] else [])"

definition SYSTEM_MESSAGE :: string where
  "SYSTEM_MESSAGE = ''You are answering a question about a software repository. '' @
     ''You are given node identities from its knowledge graph '' @ [CHR 0xE2, CHR 0x80, CHR 0x94] @ '' keys, kinds, names, paths, and '' @
     ''captured prose. You are not given source code. Answer from what you are given, and say so '' @
     ''when it is not enough.''"

definition newline :: string where "newline = [CHR 0x0A]"

definition item_text :: "context_item \<Rightarrow> string" where
  "item_text c = newline @ newline @ ''--- '' @ ci_key c @ '' ('' @ ci_kind c @ '')'' @ newline @ ''name: '' @ ci_name c
     @ (case ci_path c of None \<Rightarrow> [] | Some path \<Rightarrow> newline @ ''path: '' @ path)
     @ (case ci_prose c of None \<Rightarrow> [] | Some prose \<Rightarrow> newline @ prose)"

definition user_message :: "payload \<Rightarrow> string" where
  "user_message p = foldl (\<lambda>t c. t @ item_text c) (pl_instruction p) (pl_context p)"

text \<open>The request as a JSON value, its keys in the order the map prints them; \<open>to_json\<close> is the library's printer.\<close>

definition payload_json :: "payload \<Rightarrow> remote_endpoint \<Rightarrow> json" where
  "payload_json p e = JObject
     [(''messages'', JArray
        [JObject [(''content'', JString SYSTEM_MESSAGE), (''role'', JString ''system'')],
         JObject [(''content'', JString (user_message p)), (''role'', JString ''user'')]]),
      (''model'', JString (en_model e)), (''stream'', JBool False), (''temperature'', JPosInt 0)]"

definition payload_body :: "(json \<Rightarrow> string) \<Rightarrow> payload \<Rightarrow> remote_endpoint \<Rightarrow> string" where
  "payload_body to_json p e = to_json (payload_json p e)"

definition dry_run :: "(json \<Rightarrow> string) \<Rightarrow> remote_endpoint \<Rightarrow> payload \<Rightarrow> string" where
  "dry_run to_json e p = payload_body to_json p e"

section \<open>The ledger and the call\<close>

record egress =
  eg_call :: string
  eg_at :: string
  eg_endpoint :: string
  eg_model :: string
  eg_trust :: producer_trust
  eg_fields :: "string list"
  eg_bytes :: nat
  eg_body :: string

record outcome_entry =
  oc_call :: string
  oc_at :: string
  oc_ok :: bool
  oc_detail :: string
  oc_response_bytes :: nat

datatype ledger_entry = EgressEntry egress | OutcomeEntry outcome_entry

definition entry_call :: "ledger_entry \<Rightarrow> string" where
  "entry_call e = (case e of EgressEntry g \<Rightarrow> eg_call g | OutcomeEntry c \<Rightarrow> oc_call c)"

definition entry_at :: "ledger_entry \<Rightarrow> string" where
  "entry_at e = (case e of EgressEntry g \<Rightarrow> eg_at g | OutcomeEntry c \<Rightarrow> oc_at c)"

datatype remote_error = NotConsented reason | NoTransport string | TransportFailed string string | LedgerFailed string

text \<open>What happened outside, in order (a write reported as done, a request handed to the transport), the bytes of the
  ledger's file, the readings of the clock, the process-wide call counter and the writes tried so far. A write is
  done, or fails after some of the line's bytes have reached the file.\<close>

datatype remote_event = Logged ledger_entry | Sent remote_endpoint string

record remote_world =
  rw_events :: "remote_event list"
  rw_file :: string
  rw_reads :: nat
  rw_sequence :: nat
  rw_writes :: nat

record remote_env =
  ev_now :: "nat \<Rightarrow> string"
  ev_disk :: "nat \<Rightarrow> (string \<times> nat) option"
  ev_to_json :: "json \<Rightarrow> string"
  ev_entry_line :: "ledger_entry \<Rightarrow> string"
  ev_line_entry :: "string \<Rightarrow> ledger_entry option"

type_synonym transport = "remote_event list \<Rightarrow> remote_endpoint \<Rightarrow> string \<Rightarrow> string + string"

definition remote_start :: remote_world where
  "remote_start = \<lparr>rw_events = [], rw_file = [], rw_reads = 0, rw_sequence = 1, rw_writes = 0\<rparr>"

definition read_clock :: "remote_env \<Rightarrow> remote_world \<Rightarrow> remote_world \<times> string" where
  "read_clock env w = (w\<lparr>rw_reads := Suc (rw_reads w)\<rparr>, ev_now env (rw_reads w))"

text \<open>The counter is 64 bits wide and counts the calls of one process from one, so it does not come round.\<close>

definition next_call_id :: "remote_world \<Rightarrow> string \<Rightarrow> remote_world \<times> string" where
  "next_call_id w at = (w\<lparr>rw_sequence := Suc (rw_sequence w)\<rparr>, at @ ''#'' @ pad_zero 6 (show_nat (rw_sequence w)))"

definition ledger_append :: "remote_env \<Rightarrow> remote_world \<Rightarrow> ledger_entry \<Rightarrow> remote_world \<times> (string + unit)" where
  "ledger_append env w e =
     (let line = ev_entry_line env e @ newline
      in case ev_disk env (rw_writes w) of
        None \<Rightarrow> (w\<lparr>rw_writes := Suc (rw_writes w), rw_file := rw_file w @ line, rw_events := rw_events w @ [Logged e]\<rparr>, Ok ())
      | Some (err, landed) \<Rightarrow>
          (w\<lparr>rw_writes := Suc (rw_writes w), rw_file := rw_file w @ take landed line\<rparr>, Err err))"

text \<open>\<open>BufRead::lines\<close>, each line required to be UTF-8: the reading stops at the first that is not.\<close>

definition ledger_read :: "remote_env \<Rightarrow> remote_world \<Rightarrow> ledger_entry list" where
  "ledger_read env w = List.map_filter (ev_line_entry env) (takeWhile utf8_valid (lines_of (rw_file w)))"

definition call_with :: "remote_env \<Rightarrow> remote_world \<Rightarrow> remote_endpoint \<Rightarrow> payload \<Rightarrow> consent_decision \<Rightarrow> transport option
    \<Rightarrow> remote_world \<times> (remote_error + string)" where
  "call_with env w ep p dec transport =
     (if \<not> decision_granted dec then (w, Err (NotConsented (dc_reason dec)))
      else case transport of
        None \<Rightarrow> (w, Err (NoTransport (en_url ep)))
      | Some send \<Rightarrow>
          let body = payload_body (ev_to_json env) p ep;
              (w1, at) = read_clock env w;
              (w2, call) = next_call_id w1 at;
              (w3, logged) = ledger_append env w2 (EgressEntry
                 \<lparr>eg_call = call, eg_at = at, eg_endpoint = en_url ep, eg_model = en_model ep, eg_trust = en_trust ep,
                  eg_fields = fields_present p, eg_bytes = length body, eg_body = body\<rparr>)
          in case logged of
            Inl err \<Rightarrow> (w3, Err (LedgerFailed err))
          | Inr _ \<Rightarrow>
              let result = send (rw_events w3) ep body;
                  w4 = w3\<lparr>rw_events := rw_events w3 @ [Sent ep body]\<rparr>;
                  (w5, at2) = read_clock env w4;
                  (w6, logged2) = ledger_append env w5 (OutcomeEntry
                     \<lparr>oc_call = call, oc_at = at2, oc_ok = (case result of Inl _ \<Rightarrow> False | Inr _ \<Rightarrow> True),
                      oc_detail = (case result of Inl e \<Rightarrow> e | Inr _ \<Rightarrow> []),
                      oc_response_bytes = (case result of Inl _ \<Rightarrow> 0 | Inr r \<Rightarrow> length r)\<rparr>)
              in case logged2 of
                Inl err \<Rightarrow> (w6, Err (LedgerFailed err))
              | Inr _ \<Rightarrow> (w6, (case result of Inl detail \<Rightarrow> Err (TransportFailed (en_url ep) detail) | Inr r \<Rightarrow> Ok r)))"

section \<open>Reading the answer\<close>

definition EXCERPT :: nat where "EXCERPT = 200"

definition COMPLETE :: "string list" where "COMPLETE = [''stop'', ''end_turn'', ''eos'', ''complete'']"

record remote_answer =
  an_text :: string
  an_model :: "string option"

definition model_matches :: "remote_answer \<Rightarrow> string \<Rightarrow> bool" where
  "model_matches a requested = (case an_model a of None \<Rightarrow> True | Some answered \<Rightarrow> answered = requested)"

datatype malformed_detail = NotJson string | NoChoicesArray | NoContentString

datatype response_error =
    Malformed malformed_detail string | EndpointReported string | NoChoices | Incomplete string nat | Indeterminate nat | EmptyAnswer

definition excerpt_of :: "string \<Rightarrow> string" where
  "excerpt_of raw = truncate_chars (trim raw) EXCERPT"

definition reported_error :: "json \<Rightarrow> string option" where
  "reported_error value = Option.bind (json_get value ''error'') (\<lambda>error.
     Option.bind (case json_get_str error ''message'' of Some m \<Rightarrow> Some m | None \<Rightarrow> json_as_str error) (\<lambda>m.
       let message = trim m in if message = [] then None else Some message))"

definition parse_response :: "(string \<Rightarrow> string + json) \<Rightarrow> string \<Rightarrow> response_error + remote_answer" where
  "parse_response of_json raw =
     (case of_json raw of
        Inl e \<Rightarrow> Err (Malformed (NotJson e) (excerpt_of raw))
      | Inr value \<Rightarrow>
        case reported_error value of
          Some message \<Rightarrow> Err (EndpointReported message)
        | None \<Rightarrow>
          case Option.bind (json_get value ''choices'') json_as_array of
            None \<Rightarrow> Err (Malformed NoChoicesArray (excerpt_of raw))
          | Some [] \<Rightarrow> Err NoChoices
          | Some (choice # _) \<Rightarrow>
            case Option.bind (json_get choice ''message'') (\<lambda>m. json_get_str m ''content'') of
              None \<Rightarrow> Err (Malformed NoContentString (excerpt_of raw))
            | Some content \<Rightarrow>
              let body = trim content
              in case json_get_str choice ''finish_reason'' of
                None \<Rightarrow> Err (Indeterminate (length (chars body)))
              | Some finish \<Rightarrow>
                if map to_ascii_lower finish \<notin> set COMPLETE then Err (Incomplete finish (length (chars body)))
                else if body = [] then Err EmptyAnswer
                else Ok \<lparr>an_text = body, an_model = json_get_str value ''model''\<rparr>)"

section \<open>The engine that may answer remotely\<close>

record completion_stats =
  cs_prompt_tokens :: nat
  cs_completion_tokens :: nat
  cs_finish_reason :: finish_reason

record chat_message =
  cm_role :: string
  cm_content :: string

record chat_request =
  cr_model :: string
  cr_messages :: "chat_message list"
  cr_images :: "string list"
  cr_tools :: "json option"
  cr_audio :: "string list"
  cr_temperature :: "32 word"
  cr_max_tokens :: "32 word"

datatype engine_message =
    LocalMessage string | TextOnly | NoQuestion | BadPayload payload_error | BadCall remote_error | BadResponse response_error

datatype engine_error =
    UnknownModel string | InvalidRequest engine_message | TemplateRejected engine_message | Unsupported engine_message
  | Inference engine_message

record remote_engine =
  re_endpoint :: remote_endpoint
  re_decision :: consent_decision

text \<open>The wrapped local engine by what it lists and by the pieces it emits with its result.\<close>

record local_engine =
  le_models :: "string list"
  le_carries_tools :: "string \<Rightarrow> bool"
  le_chat :: "chat_request \<Rightarrow> string list \<times> (engine_error + completion_stats)"

definition classify_remote_error :: "remote_error \<Rightarrow> engine_error" where
  "classify_remote_error err = (case err of
       NotConsented _ \<Rightarrow> InvalidRequest (BadCall err)
     | NoTransport _ \<Rightarrow> Unsupported (BadCall err)
     | TransportFailed _ _ \<Rightarrow> Inference (BadCall err)
     | LedgerFailed _ \<Rightarrow> Inference (BadCall err))"

fun join_with :: "string \<Rightarrow> string list \<Rightarrow> string" where
  "join_with sep [] = []"
| "join_with sep [x] = x"
| "join_with sep (x # xs) = x @ sep @ join_with sep xs"

definition question_of :: "chat_request \<Rightarrow> string" where
  "question_of req = join_with (newline @ newline)
     (filter (\<lambda>c. c \<noteq> []) (map (\<lambda>m. trim (cm_content m)) (filter (\<lambda>m. cm_role m = ''user'') (cr_messages req))))"

text \<open>\<open>ground\<close> selects the nodes for a question from the graph.\<close>

definition payload_for :: "(string \<Rightarrow> node list) \<Rightarrow> chat_request \<Rightarrow> engine_error + payload" where
  "payload_for ground req =
     (if cr_images req \<noteq> [] \<or> cr_audio req \<noteq> [] then Err (InvalidRequest TextOnly)
      else let instruction = question_of req
        in if instruction = [] then Err (InvalidRequest NoQuestion)
           else (case payload_new instruction (ground instruction) of
               Inl e \<Rightarrow> Err (InvalidRequest (BadPayload e)) | Inr p \<Rightarrow> Ok p))"

definition remote_carries_tools :: "remote_engine \<Rightarrow> local_engine \<Rightarrow> string \<Rightarrow> bool" where
  "remote_carries_tools re le model \<longleftrightarrow> model \<noteq> en_model (re_endpoint re) \<and> le_carries_tools le model"

definition remote_models :: "remote_engine \<Rightarrow> local_engine \<Rightarrow> string list" where
  "remote_models re le = en_model (re_endpoint re) # le_models le"

definition chat_stream :: "remote_env \<Rightarrow> transport \<Rightarrow> (string \<Rightarrow> string + json) \<Rightarrow> (string \<Rightarrow> node list) \<Rightarrow> remote_engine
    \<Rightarrow> local_engine \<Rightarrow> remote_world \<Rightarrow> chat_request \<Rightarrow> remote_world \<times> string list \<times> (engine_error + completion_stats)" where
  "chat_stream env send of_json ground re le w req =
     (if cr_model req \<noteq> en_model (re_endpoint re) then (w, le_chat le req)
      else case payload_for ground req of
        Inl e \<Rightarrow> (w, [], Err e)
      | Inr p \<Rightarrow>
        (case call_with env w (re_endpoint re) p (re_decision re) (Some send) of
           (w', Inl e) \<Rightarrow> (w', [], Err (classify_remote_error e))
         | (w', Inr raw) \<Rightarrow>
             (case parse_response of_json raw of
                Inl e \<Rightarrow> (w', [], Err (Inference (BadResponse e)))
              | Inr ans \<Rightarrow> (w', [an_text ans],
                  Ok \<lparr>cs_prompt_tokens = 0, cs_completion_tokens = 0, cs_finish_reason = FinishStop\<rparr>))))"

text \<open>The endpoint that would answer one request of several, each through its own engine, on one shared ledger.\<close>

record remote_request =
  rq_endpoint :: remote_endpoint
  rq_payload :: payload
  rq_decision :: consent_decision
  rq_transport :: "transport option"

fun remote_calls :: "remote_env \<Rightarrow> remote_request list \<Rightarrow> remote_world \<Rightarrow> remote_world" where
  "remote_calls env [] w = w"
| "remote_calls env (r # rs) w =
     remote_calls env rs (fst (call_with env w (rq_endpoint r) (rq_payload r) (rq_decision r) (rq_transport r)))"

end
