(* ===== verification/RemotePayload.thy ===== *)
theory RemotePayload imports Remote begin

text \<open>
  What the remote tier sends: plaintext stays on the machine, and nothing the reader is not told of leaves it.
\<close>

section \<open>Plaintext stays on the machine\<close>

definition host_char :: "char \<Rightarrow> bool" where
  "host_char c \<longleftrightarrow> c \<notin> {CHR ''/'', CHR ''?'', CHR ''#''}"

definition url_text :: "string \<Rightarrow> bool" where
  "url_text s \<longleftrightarrow> list_all host_char s"

text \<open>A host: a name or an IPv4 address, or an IPv6 address in brackets.\<close>

definition named_host :: "string \<Rightarrow> bool" where
  "named_host h \<longleftrightarrow> h \<noteq> [] \<and> list_all (\<lambda>c. host_char c \<and> c \<notin> {CHR ''@'', CHR '':'', CHR ''['', CHR '']''}) h"

definition bracketed_host :: "string \<Rightarrow> bool" where
  "bracketed_host h \<longleftrightarrow> 2 \<le> length h \<and> hd h = CHR ''['' \<and> last h = CHR '']''
     \<and> list_all (\<lambda>c. host_char c \<and> c \<noteq> CHR ''@'') h \<and> CHR '']'' \<notin> set (butlast h)"

definition plain_host :: "string \<Rightarrow> bool" where
  "plain_host h \<longleftrightarrow> named_host h \<or> bracketed_host h"

lemmas host_defs = plain_host_def named_host_def bracketed_host_def

lemma takeWhile_tail: "(\<And>c. c \<in> set s \<Longrightarrow> P c) \<Longrightarrow> t = [] \<or> \<not> P (hd t) \<Longrightarrow> takeWhile P (s @ t) = s"
  by (cases t) (auto simp: takeWhile_append2)

lemma after_last_none: "c \<notin> set s \<Longrightarrow> after_last c s = s"
proof -
  assume "c \<notin> set s"
  then have "takeWhile (\<lambda>x. x \<noteq> c) (rev s) = rev s" by (subst takeWhile_eq_all_conv) auto
  then show ?thesis by (simp only: after_last_def rev_rev_ident)
qed

lemma after_last_at: "c \<notin> set s \<Longrightarrow> after_last c (t @ c # s) = s"
proof -
  assume "c \<notin> set s"
  then have "takeWhile (\<lambda>x. x \<noteq> c) (rev s @ c # rev t) = rev s"
    by (subst takeWhile_append2) auto
  then show ?thesis by (simp add: after_last_def)
qed

text \<open>The host of \<open>[user@]host[:port]\<close> before a path, a query or a fragment.\<close>

lemma host_of_parts:
  assumes "user = [] \<or> (\<exists>u. user = u @ ''@'')" "url_text user" "plain_host h" "port = [] \<or> (\<exists>p. port = '':'' @ p)"
    "url_text port" "CHR ''@'' \<notin> set port" "tail = [] \<or> hd tail \<in> {CHR ''/'', CHR ''?'', CHR ''#''}"
  shows "host_of (user @ h @ port @ tail) = map to_ascii_lower h"
proof -
  have "url_text h" using assms(3) by (auto simp: host_defs url_text_def list_all_iff)
  then have "list_all host_char (user @ h @ port)" using assms(2,5) by (simp add: url_text_def)
  moreover have "tail = [] \<or> \<not> host_char (hd tail)" using assms(7) by (simp only: host_char_def not_not)
  ultimately have "takeWhile host_char ((user @ h @ port) @ tail) = user @ h @ port"
    by (intro takeWhile_tail) (auto simp: list_all_iff)
  then have cut: "takeWhile (\<lambda>c. c \<notin> {CHR ''/'', CHR ''?'', CHR ''#''}) (user @ h @ port @ tail) = user @ h @ port"
    by (simp only: host_char_def [abs_def] append_assoc)
  have noat: "CHR ''@'' \<notin> set (h @ port)" using assms(3,6) by (auto simp: host_defs list_all_iff)
  have at: "after_last CHR ''@'' (user @ h @ port) = h @ port"
  proof (cases "user = []")
    case True
    with after_last_none [OF noat] show ?thesis by simp
  next
    case False
    with assms(1) obtain u where "user = u @ ''@''" by blast
    with after_last_at [OF noat, of u] show ?thesis by simp
  qed
  have port: "port = [] \<or> \<not> hd port \<noteq> CHR '':''" using assms(4) by auto
  show ?thesis
  proof (cases "named_host h")
    case True
    then obtain x xs where x: "h = x # xs" "x \<noteq> CHR ''[''" by (cases h) (auto simp: named_host_def)
    then have "\<not> starts_with (h @ port) ''[''" by (simp add: starts_with_def)
    moreover have "before_first CHR '':'' (h @ port) = h"
      unfolding before_first_def using True port by (intro takeWhile_tail) (auto simp: named_host_def list_all_iff)
    ultimately show ?thesis by (simp only: host_of_def Let_def cut at if_False)
  next
    case False
    with assms(3) have b: "bracketed_host h" by (simp add: plain_host_def)
    then have ne: "h \<noteq> []" and ends: "hd h = CHR ''[''" "last h = CHR '']''" by (auto simp: bracketed_host_def)
    have hb: "h = butlast h @ '']''" using append_butlast_last_id [OF ne] ends(2) by metis
    have "starts_with (h @ port) ''[''" using ne ends(1) by (cases h) (simp_all add: starts_with_def)
    moreover have "before_first CHR '']'' (h @ port) = butlast h"
    proof -
      have "h @ port = butlast h @ CHR '']'' # port" using hb
        by (metis append.assoc append_Cons append_Nil)
      moreover have "takeWhile (\<lambda>x. x \<noteq> CHR '']'') (butlast h @ CHR '']'' # port) = butlast h"
        using b by (intro takeWhile_tail) (auto simp: bracketed_host_def)
      ultimately show ?thesis by (simp only: before_first_def)
    qed
    ultimately have "host_of (user @ h @ port @ tail) = map to_ascii_lower (butlast h @ '']'')"
      by (simp only: host_of_def Let_def cut at if_True)
    with hb show ?thesis by metis
  qed
qed

lemma lower_colon: "to_ascii_lower c = CHR '':'' \<Longrightarrow> c = CHR '':''"
proof -
  assume l: "to_ascii_lower c = CHR '':''"
  have "(of_char (to_ascii_lower c) :: nat) = 58" unfolding l by simp
  then have "\<not> (65 \<le> (of_char c :: nat) \<and> (of_char c :: nat) \<le> 90)" by (auto simp: to_ascii_lower_def Let_def)
  with l show ?thesis by (simp add: to_ascii_lower_def Let_def)
qed

lemma not_bare_loopback6: "plain_host h \<Longrightarrow> map to_ascii_lower h \<noteq> ''::1''"
proof
  assume h: "plain_host h" and l: "map to_ascii_lower h = ''::1''"
  have "CHR '':'' \<in> set (map to_ascii_lower h)" unfolding l by simp
  then have "CHR '':'' \<in> set h" using lower_colon by fastforce
  with h have b: "bracketed_host h" by (auto simp: plain_host_def named_host_def list_all_iff)
  moreover from l obtain x xs where "h = x # xs" "to_ascii_lower x = CHR '':''" by auto
  ultimately show False using lower_colon [of x] by (simp add: bracketed_host_def)
qed

text \<open>C38. A plain \<open>http\<close> address is accepted exactly when its host is this machine: \<open>localhost\<close>, \<open>127.0.0.1\<close> or, in the
  brackets an IPv6 host has, \<open>[::1]\<close>, in either case; whatever user part, port, path, query or fragment surrounds
  the host, so no text before an \<open>@\<close> or after a slash passes for the host. The host is a name, an IPv4 address or a
  bracketed IPv6 address. An \<open>https\<close> address is accepted with any such host; and what is accepted is the address and
  the model as given, trimmed.\<close>

theorem plaintext_only_loopback:
  assumes "user = [] \<or> (\<exists>u. user = u @ ''@'')" and "url_text user" and "plain_host h" and "port = [] \<or> (\<exists>p. port = '':'' @ p)"
    and "url_text port" and "CHR ''@'' \<notin> set port" and "tail = [] \<or> hd tail \<in> {CHR ''/'', CHR ''?'', CHR ''#''}"
    and "trim model \<noteq> []"
  shows "(trim url = ''http://'' @ user @ h @ port @ tail \<longrightarrow>
       endpoint_new url model trust =
         (if map to_ascii_lower h \<in> {''localhost'', ''127.0.0.1'', ''[::1]''}
          then Ok \<lparr>en_url = trim url, en_model = trim model, en_trust = trust\<rparr>
          else Err (PlaintextOffHost (trim url) (map to_ascii_lower h))))
     \<and> (trim url = ''https://'' @ user @ h @ port @ tail \<longrightarrow>
       endpoint_new url model trust = Ok \<lparr>en_url = trim url, en_model = trim model, en_trust = trust\<rparr>)"
proof -
  note host = host_of_parts [OF assms(1-7)]
  have six: "map to_ascii_lower h \<noteq> ''::1''" by (rule not_bare_loopback6) (rule assms(3))
  have h: "map to_ascii_lower h \<noteq> []" using assms(3) by (auto simp: host_defs)
  show ?thesis
  proof (intro conjI impI)
    assume "trim url = ''http://'' @ user @ h @ port @ tail"
    then have "strip_prefix ''http://'' (trim url) = Some (user @ h @ port @ tail)" by (simp only: strip_prefix_append)
    then show "endpoint_new url model trust =
         (if map to_ascii_lower h \<in> {''localhost'', ''127.0.0.1'', ''[::1]''}
          then Ok \<lparr>en_url = trim url, en_model = trim model, en_trust = trust\<rparr>
          else Err (PlaintextOffHost (trim url) (map to_ascii_lower h)))"
      using assms(8) six by (simp add: endpoint_new_def Let_def host LOOPBACK_HOSTS_def)
  next
    assume u: "trim url = ''https://'' @ user @ h @ port @ tail"
    then have "strip_prefix ''http://'' (trim url) = None" by (simp add: strip_prefix_def)
    moreover have "strip_prefix ''https://'' (trim url) = Some (user @ h @ port @ tail)" unfolding u by (rule strip_prefix_append)
    ultimately show "endpoint_new url model trust = Ok \<lparr>en_url = trim url, en_model = trim model, en_trust = trust\<rparr>"
      using assms(8) h by (simp add: endpoint_new_def Let_def host)
  qed
qed

theorem plaintext_only_loopback_witness:
  "endpoint_new ''http://localhost@evil.example/localhost'' ''m'' VendorAsserted
     = Err (PlaintextOffHost ''http://localhost@evil.example/localhost'' ''evil.example'')
   \<and> endpoint_new ''http://[::1]:8080/v1'' ''m'' VendorAsserted
     = Ok \<lparr>en_url = ''http://[::1]:8080/v1'', en_model = ''m'', en_trust = VendorAsserted\<rparr>"
proof
  show "endpoint_new ''http://localhost@evil.example/localhost'' ''m'' VendorAsserted
     = Err (PlaintextOffHost ''http://localhost@evil.example/localhost'' ''evil.example'')"
    using plaintext_only_loopback [of "''localhost@''" "''evil.example''" "[]" "''/localhost''" "''m''" "''http://localhost@evil.example/localhost''" VendorAsserted]
    by (simp add: url_text_def host_defs host_char_def) code_simp
  show "endpoint_new ''http://[::1]:8080/v1'' ''m'' VendorAsserted
     = Ok \<lparr>en_url = ''http://[::1]:8080/v1'', en_model = ''m'', en_trust = VendorAsserted\<rparr>"
    using plaintext_only_loopback [of "[]" "''[::1]''" "'':8080''" "''/v1''" "''m''" "''http://[::1]:8080/v1''" VendorAsserted]
    by (simp add: url_text_def host_defs host_char_def) code_simp
qed

section \<open>What leaves\<close>

text \<open>Two nodes the disclosure does not tell apart: same identity, and the same first characters of prose.\<close>

definition same_disclosure :: "node \<Rightarrow> node \<Rightarrow> bool" where
  "same_disclosure m n \<longleftrightarrow> n_key m = n_key n \<and> node_kind_as_str (n_kind m) = node_kind_as_str (n_kind n) \<and> n_name m = n_name n
     \<and> n_path m = n_path n
     \<and> (case (json_get_str (n_meta m) ''content'', json_get_str (n_meta n) ''content'') of
          (None, None) \<Rightarrow> True
        | (Some s, Some t) \<Rightarrow> take MAX_PROSE_EXCERPT (chars s) = take MAX_PROSE_EXCERPT (chars t)
            \<and> (length (chars s) \<le> MAX_PROSE_EXCERPT) = (length (chars t) \<le> MAX_PROSE_EXCERPT)
        | _ \<Rightarrow> False)"

lemma truncate_cong:
  assumes "take k (chars s) = take k (chars t)" "(length (chars s) \<le> k) = (length (chars t) \<le> k)"
  shows "truncate_chars s k = truncate_chars t k"
proof (cases "length (chars s) \<le> k")
  case True
  with assms have "chars s = chars t" by simp
  then show ?thesis by (simp add: chars_inj)
next
  case False
  with assms show ?thesis by (simp add: truncate_chars_def)
qed

lemma same_item: "same_disclosure m n \<Longrightarrow> context_item_from_node m = context_item_from_node n"
proof -
  assume d: "same_disclosure m n"
  have "map_option (\<lambda>t. truncate_chars t MAX_PROSE_EXCERPT) (json_get_str (n_meta m) ''content'')
      = map_option (\<lambda>t. truncate_chars t MAX_PROSE_EXCERPT) (json_get_str (n_meta n) ''content'')"
  proof (cases "json_get_str (n_meta m) ''content''")
    case None
    with d show ?thesis by (simp add: same_disclosure_def split: option.splits)
  next
    case (Some t)
    with d obtain u where u: "json_get_str (n_meta n) ''content'' = Some u"
      "take MAX_PROSE_EXCERPT (chars t) = take MAX_PROSE_EXCERPT (chars u)"
      "(length (chars t) \<le> MAX_PROSE_EXCERPT) = (length (chars u) \<le> MAX_PROSE_EXCERPT)"
      unfolding same_disclosure_def by (simp only: prod.case option.case) (auto split: option.splits)
    from truncate_cong [OF u(2,3)] show ?thesis by (simp only: Some u(1) option.map)
  qed
  with d show ?thesis by (simp add: same_disclosure_def context_item_from_node_def)
qed

text \<open>A text cut after at most \<open>k\<close> whole characters, with the mark exactly when something was cut.\<close>

definition cut_text :: "nat \<Rightarrow> string \<Rightarrow> string \<Rightarrow> bool" where
  "cut_text k whole piece \<longleftrightarrow> (\<exists>cs rest. whole = concat cs @ rest \<and> length cs \<le> k \<and> set cs \<subseteq> set (chars whole)
     \<and> piece = concat cs @ (if rest = [] then [] else ellipsis @ ''[truncated]''))"

lemma cut_textI:
  "whole = concat cs @ rest \<Longrightarrow> length cs \<le> k \<Longrightarrow> set cs \<subseteq> set (chars whole)
    \<Longrightarrow> piece = concat cs @ (if rest = [] then [] else ellipsis @ ''[truncated]'') \<Longrightarrow> cut_text k whole piece"
  unfolding cut_text_def by blast

lemma truncate_cuts: "cut_text k s (truncate_chars s k)"
proof (cases "length (chars s) \<le> k")
  case True
  then show ?thesis by (intro cut_textI [of s "chars s" "[]"]) (simp_all add: truncate_chars_def)
next
  case False
  obtain c cs where c: "drop k (chars s) = c # cs" using False by (cases "drop k (chars s)") auto
  then have "c \<in> set (chars s)" by (metis in_set_dropD list.set_intros(1))
  then have ne: "concat (drop k (chars s)) \<noteq> []" using c chars_nonempty by auto
  show ?thesis
  proof (rule cut_textI)
    show "s = concat (take k (chars s)) @ concat (drop k (chars s))"
      by (metis append_take_drop_id concat_append concat_chars)
    show "set (take k (chars s)) \<subseteq> set (chars s)" by (rule set_take_subset)
    show "truncate_chars s k = concat (take k (chars s)) @ (if concat (drop k (chars s)) = [] then [] else ellipsis @ ''[truncated]'')"
      unfolding if_not_P [OF ne] using False by (simp only: truncate_chars_def if_False)
  qed simp
qed

lemma payload_new_Ok:
  "payload_new instruction nodes = Ok p \<longleftrightarrow> trim instruction \<noteq> [] \<and> length (trim instruction) \<le> MAX_INSTRUCTION
     \<and> length nodes \<le> MAX_CONTEXT_ITEMS \<and> p = \<lparr>pl_instruction = trim instruction, pl_context = map context_item_from_node nodes\<rparr>"
  by (auto simp: payload_new_def Let_def)

lemma prose_of_item:
  "ci_prose (context_item_from_node n) = Some prose \<Longrightarrow>
     \<exists>content. json_get_str (n_meta n) ''content'' = Some content \<and> cut_text MAX_PROSE_EXCERPT content prose"
  by (auto simp: context_item_from_node_def truncate_cuts)

text \<open>C37. A payload is built exactly within its limits; its body then depends only on the trimmed instruction and, for
  each node, on the key, kind, name, path, the first 1500 characters of its prose and whether the prose is longer than
  that: spans, hashes, provenance and every other piece of metadata never reach the wire. The prose sent is a prefix
  of the prose captured with a mark where it was cut. The fields named to the reader are exactly those there are: the
  instruction always, node keys and names when there is a node, paths and prose excerpts when some node has one.\<close>

theorem payload_discloses:
  assumes "list_all2 same_disclosure nodes nodes'" and "trim instruction = trim instruction'"
  shows "map_sum id (\<lambda>p. payload_body to_json p e) (payload_new instruction nodes)
         = map_sum id (\<lambda>p. payload_body to_json p e) (payload_new instruction' nodes')
    \<and> ((\<exists>p. payload_new instruction nodes = Ok p) \<longleftrightarrow> trim instruction \<noteq> []
         \<and> length (trim instruction) \<le> MAX_INSTRUCTION \<and> length nodes \<le> MAX_CONTEXT_ITEMS)
    \<and> (\<forall>p. payload_new instruction nodes = Ok p \<longrightarrow>
         (\<forall>c \<in> set (pl_context p). \<forall>prose. ci_prose c = Some prose \<longrightarrow>
            (\<exists>n \<in> set nodes. \<exists>content. json_get_str (n_meta n) ''content'' = Some content \<and> cut_text MAX_PROSE_EXCERPT content prose))
       \<and> fields_present p = [''instruction'']
           @ (if nodes = [] then [] else [''node keys'', ''node names''])
           @ (if \<exists>n \<in> set nodes. n_path n \<noteq> None then [''repository-relative paths''] else [])
           @ (if \<exists>n \<in> set nodes. json_get_str (n_meta n) ''content'' \<noteq> None then [''captured prose excerpts''] else []))"
proof (intro conjI allI impI)
  have "map context_item_from_node nodes = map context_item_from_node nodes'"
    using assms(1) by (induction rule: list_all2_induct) (simp_all add: same_item)
  moreover have "length nodes = length nodes'" using assms(1) by (rule list_all2_lengthD)
  ultimately have "payload_new instruction nodes = payload_new instruction' nodes'"
    using assms(2) by (simp add: payload_new_def Let_def)
  then show "map_sum id (\<lambda>p. payload_body to_json p e) (payload_new instruction nodes)
      = map_sum id (\<lambda>p. payload_body to_json p e) (payload_new instruction' nodes')" by simp
next
  show "(\<exists>p. payload_new instruction nodes = Ok p) \<longleftrightarrow> trim instruction \<noteq> []
      \<and> length (trim instruction) \<le> MAX_INSTRUCTION \<and> length nodes \<le> MAX_CONTEXT_ITEMS"
    by (simp add: payload_new_Ok)
next
  fix p assume p: "payload_new instruction nodes = Ok p"
  then have ctx: "pl_context p = map context_item_from_node nodes" by (simp add: payload_new_Ok)
  show "\<forall>c \<in> set (pl_context p). \<forall>prose. ci_prose c = Some prose \<longrightarrow>
            (\<exists>n \<in> set nodes. \<exists>content. json_get_str (n_meta n) ''content'' = Some content \<and> cut_text MAX_PROSE_EXCERPT content prose)"
  proof (intro ballI allI impI)
    fix c prose assume "c \<in> set (pl_context p)" "ci_prose c = Some prose"
    then obtain n where "n \<in> set nodes" "ci_prose (context_item_from_node n) = Some prose" by (auto simp: ctx)
    with prose_of_item [of n prose] show "\<exists>n \<in> set nodes. \<exists>content. json_get_str (n_meta n) ''content'' = Some content
        \<and> cut_text MAX_PROSE_EXCERPT content prose" by blast
  qed
  show "fields_present p = [''instruction'']
      @ (if nodes = [] then [] else [''node keys'', ''node names''])
      @ (if \<exists>n \<in> set nodes. n_path n \<noteq> None then [''repository-relative paths''] else [])
      @ (if \<exists>n \<in> set nodes. json_get_str (n_meta n) ''content'' \<noteq> None then [''captured prose excerpts''] else [])"
    by (simp add: fields_present_def ctx list_ex_iff context_item_from_node_def)
qed

theorem payload_discloses_witness:
  "map_sum id (\<lambda>p. payload_body (\<lambda>_. ''{}'') p \<lparr>en_url = [], en_model = ''m'', en_trust = VendorAsserted\<rparr>)
       (payload_new ''why'' [(node_new ''k'' KFn ''f'')\<lparr>n_blob_hash := Some ''secret''\<rparr>])
     = map_sum id (\<lambda>p. payload_body (\<lambda>_. ''{}'') p \<lparr>en_url = [], en_model = ''m'', en_trust = VendorAsserted\<rparr>)
       (payload_new ''why'' [node_new ''k'' KFn ''f''])"
proof -
  have "list_all2 same_disclosure [(node_new ''k'' KFn ''f'')\<lparr>n_blob_hash := Some ''secret''\<rparr>] [node_new ''k'' KFn ''f'']"
    by (simp add: same_disclosure_def node_new_def json_get_str_def)
  from payload_discloses [OF this refl] show ?thesis by (rule conjunct1)
qed

end
