(* ===== verification/RemoteCalls.thy ===== *)
theory RemoteCalls imports Remote begin

text \<open>
  Runs of remote calls: nothing is sent without consent and a record of it made first, the ledger reads back what
  was recorded, and the engine hands on an answer only when it is whole.
\<close>

section \<open>One call\<close>

definition egress_of :: "remote_env \<Rightarrow> remote_endpoint \<Rightarrow> payload \<Rightarrow> string \<Rightarrow> string \<Rightarrow> egress" where
  "egress_of env ep p call at = (let body = payload_body (ev_to_json env) p ep in
     \<lparr>eg_call = call, eg_at = at, eg_endpoint = en_url ep, eg_model = en_model ep, eg_trust = en_trust ep,
      eg_fields = fields_present p, eg_bytes = length body, eg_body = body\<rparr>)"

definition outcome_of :: "string \<Rightarrow> string \<Rightarrow> string + string \<Rightarrow> outcome_entry" where
  "outcome_of call at result =
     \<lparr>oc_call = call, oc_at = at, oc_ok = (case result of Inl _ \<Rightarrow> False | Inr _ \<Rightarrow> True),
      oc_detail = (case result of Inl e \<Rightarrow> e | Inr _ \<Rightarrow> []),
      oc_response_bytes = (case result of Inl _ \<Rightarrow> 0 | Inr r \<Rightarrow> length r)\<rparr>"

definition call_id :: "string \<Rightarrow> nat \<Rightarrow> string" where
  "call_id at n = at @ ''#'' @ pad_zero 6 (show_nat n)"

text \<open>The three ways a call that is granted and has a transport can go.\<close>

datatype call_extent = NotLogged | NoOutcome | Whole

definition call_events :: "call_extent \<Rightarrow> egress \<Rightarrow> remote_endpoint \<Rightarrow> outcome_entry \<Rightarrow> remote_event list" where
  "call_events x g ep c = (case x of NotLogged \<Rightarrow> [] | NoOutcome \<Rightarrow> [Logged (EgressEntry g), Sent ep (eg_body g)]
     | Whole \<Rightarrow> [Logged (EgressEntry g), Sent ep (eg_body g), Logged (OutcomeEntry c)])"

lemma call_refused:
  "\<not> decision_granted dec \<Longrightarrow> call_with env w ep p dec transport = (w, Err (NotConsented (dc_reason dec)))"
  "decision_granted dec \<Longrightarrow> call_with env w ep p dec None = (w, Err (NoTransport (en_url ep)))"
  by (simp_all add: call_with_def)

lemma call_granted:
  fixes env w ep p dec send
  defines "at \<equiv> ev_now env (rw_reads w)"
  defines "call \<equiv> call_id at (rw_sequence w)"
  defines "g \<equiv> egress_of env ep p call at"
  defines "result \<equiv> send (rw_events w @ [Logged (EgressEntry g)]) ep (eg_body g)"
  defines "c \<equiv> outcome_of call (ev_now env (Suc (rw_reads w))) result"
  assumes "decision_granted dec"
  shows "call_with env w ep p dec (Some send) =
    (case ev_disk env (rw_writes w) of
       Some (err, k) \<Rightarrow> (w\<lparr>rw_reads := Suc (rw_reads w), rw_sequence := Suc (rw_sequence w), rw_writes := Suc (rw_writes w),
           rw_file := rw_file w @ take k (ev_entry_line env (EgressEntry g) @ newline)\<rparr>, Err (LedgerFailed err))
     | None \<Rightarrow> let w' = w\<lparr>rw_reads := Suc (Suc (rw_reads w)), rw_sequence := Suc (rw_sequence w),
                       rw_writes := Suc (Suc (rw_writes w))\<rparr>;
                   f = rw_file w @ ev_entry_line env (EgressEntry g) @ newline
         in (case ev_disk env (Suc (rw_writes w)) of
            Some (err, k) \<Rightarrow> (w'\<lparr>rw_file := f @ take k (ev_entry_line env (OutcomeEntry c) @ newline),
                               rw_events := rw_events w @ call_events NoOutcome g ep c\<rparr>, Err (LedgerFailed err))
          | None \<Rightarrow> (w'\<lparr>rw_file := f @ ev_entry_line env (OutcomeEntry c) @ newline,
                               rw_events := rw_events w @ call_events Whole g ep c\<rparr>,
               (case result of Inl detail \<Rightarrow> Err (TransportFailed (en_url ep) detail) | Inr r \<Rightarrow> Ok r))))"
  using assms(6)
  by (simp add: call_with_def read_clock_def next_call_id_def ledger_append_def Let_def egress_of_def outcome_of_def
      call_events_def call_id_def g_def c_def result_def call_def at_def split: option.splits prod.splits sum.splits)

lemma call_cases:
  obtains (refused) "fst (call_with env w ep p dec transport) = w"
      "\<not> decision_granted dec \<or> transport = None"
  | (made) x c where "decision_granted dec" "transport \<noteq> None"
      "rw_events (fst (call_with env w ep p dec transport))
         = rw_events w @ call_events x (egress_of env ep p (call_id (ev_now env (rw_reads w)) (rw_sequence w)) (ev_now env (rw_reads w))) ep c"
      "oc_call c = call_id (ev_now env (rw_reads w)) (rw_sequence w)"
      "rw_sequence (fst (call_with env w ep p dec transport)) = Suc (rw_sequence w)"
proof (cases "decision_granted dec \<and> transport \<noteq> None")
  case False
  then have "\<not> decision_granted dec \<or> transport = None" by blast
  then show thesis using refused call_refused by (metis fst_conv)
next
  case True
  then obtain send where t: "transport = Some send" by blast
  let ?g = "egress_of env ep p (call_id (ev_now env (rw_reads w)) (rw_sequence w)) (ev_now env (rw_reads w))"
  let ?c = "outcome_of (call_id (ev_now env (rw_reads w)) (rw_sequence w)) (ev_now env (Suc (rw_reads w)))
      (send (rw_events w @ [Logged (EgressEntry ?g)]) ep (eg_body ?g))"
  note eq = call_granted [of dec env w ep p send, OF conjunct1 [OF True]]
  have "oc_call ?c = call_id (ev_now env (rw_reads w)) (rw_sequence w)" by (simp add: outcome_of_def)
  moreover have "\<exists>x. rw_events (fst (call_with env w ep p dec transport)) = rw_events w @ call_events x ?g ep ?c"
    unfolding t eq by (cases "ev_disk env (rw_writes w)"; cases "ev_disk env (Suc (rw_writes w))")
      (auto simp: Let_def intro: exI [of _ NotLogged] exI [of _ NoOutcome] exI [of _ Whole] simp: call_events_def)
  moreover have "rw_sequence (fst (call_with env w ep p dec transport)) = Suc (rw_sequence w)"
    unfolding t eq by (auto simp: Let_def split: option.splits prod.splits)
  ultimately show thesis using made True by blast
qed

section \<open>Runs of calls\<close>

definition recorded :: "remote_env \<Rightarrow> remote_request list \<Rightarrow> remote_event list \<Rightarrow> nat \<Rightarrow> remote_endpoint \<Rightarrow> string \<Rightarrow> bool" where
  "recorded env rs ev i ep body \<longleftrightarrow> 0 < i \<and> (\<exists>r \<in> set rs. \<exists>call at.
     decision_granted (rq_decision r) \<and> rq_transport r \<noteq> None \<and> ep = rq_endpoint r
     \<and> body = dry_run (ev_to_json env) ep (rq_payload r)
     \<and> ev ! (i - 1) = Logged (EgressEntry (egress_of env ep (rq_payload r) call at)))"

definition concluded :: "remote_event list \<Rightarrow> nat \<Rightarrow> outcome_entry \<Rightarrow> bool" where
  "concluded ev i c \<longleftrightarrow> 2 \<le> i \<and> (\<exists>g ep. ev ! (i - 2) = Logged (EgressEntry g) \<and> ev ! (i - 1) = Sent ep (eg_body g) \<and> oc_call c = eg_call g)"

definition events_ok :: "remote_env \<Rightarrow> remote_request list \<Rightarrow> remote_event list \<Rightarrow> bool" where
  "events_ok env rs ev \<longleftrightarrow>
     (\<forall>i < length ev. \<forall>ep body. ev ! i = Sent ep body \<longrightarrow> recorded env rs ev i ep body)
     \<and> (\<forall>i < length ev. \<forall>c. ev ! i = Logged (OutcomeEntry c) \<longrightarrow> concluded ev i c)"

lemma recorded_append: "i \<le> length ev \<Longrightarrow> recorded env rs (ev @ fs) i ep body \<longleftrightarrow> recorded env rs ev i ep body"
  by (cases i) (auto simp: recorded_def nth_append)

lemma concluded_append: "i \<le> length ev \<Longrightarrow> concluded (ev @ fs) i c \<longleftrightarrow> concluded ev i c"
  by (auto simp: concluded_def nth_append)

lemma events_ok_snoc:
  assumes "events_ok env rs ev"
    and "\<And>ep body. e = Sent ep body \<Longrightarrow> recorded env rs ev (length ev) ep body"
    and "\<And>c. e = Logged (OutcomeEntry c) \<Longrightarrow> concluded ev (length ev) c"
  shows "events_ok env rs (ev @ [e])"
  using assms by (auto simp: events_ok_def less_Suc_eq recorded_append concluded_append nth_append)

lemma events_ok_call:
  assumes ok: "events_ok env rs ev" and r: "r \<in> set rs" "decision_granted (rq_decision r)" "rq_transport r \<noteq> None"
    and g: "g = egress_of env (rq_endpoint r) (rq_payload r) call at" and c: "oc_call c = call"
  shows "events_ok env rs (ev @ call_events x g (rq_endpoint r) c)"
proof -
  have 1: "events_ok env rs (ev @ [Logged (EgressEntry g)])" by (rule events_ok_snoc [OF ok]) simp_all
  have 2: "events_ok env rs ((ev @ [Logged (EgressEntry g)]) @ [Sent (rq_endpoint r) (eg_body g)])"
    by (rule events_ok_snoc [OF 1])
      (use r g in \<open>auto simp: recorded_def nth_append egress_of_def dry_run_def Let_def\<close>)
  have 3: "events_ok env rs (((ev @ [Logged (EgressEntry g)]) @ [Sent (rq_endpoint r) (eg_body g)]) @ [Logged (OutcomeEntry c)])"
    by (rule events_ok_snoc [OF 2]) (use g c in \<open>auto simp: concluded_def nth_append egress_of_def Let_def\<close>)
  show ?thesis using ok 2 3 by (cases x) (simp_all add: call_events_def)
qed

fun egress_calls :: "remote_event list \<Rightarrow> string list" where
  "egress_calls [] = []"
| "egress_calls (Logged (EgressEntry g) # ev) = eg_call g # egress_calls ev"
| "egress_calls (_ # ev) = egress_calls ev"

lemma egress_calls_append [simp]: "egress_calls (a @ b) = egress_calls a @ egress_calls b"
  by (induction a rule: egress_calls.induct) simp_all

lemma call_id_inj: "call_id at n = call_id at' n' \<Longrightarrow> n = n'"
proof -
  assume "call_id at n = call_id at' n'"
  then have eq: "at @ CHR ''#'' # pad_zero 6 (show_nat n) = at' @ CHR ''#'' # pad_zero 6 (show_nat n')" by (simp add: call_id_def)
  have last: "takeWhile (\<lambda>c. c \<noteq> CHR ''#'') (rev (b @ CHR ''#'' # pad_zero 6 (show_nat k))) = rev (pad_zero 6 (show_nat k))" for b k
  proof -
    have "c \<noteq> CHR ''#''" if "c \<in> set (rev (pad_zero 6 (show_nat k)))" for c
    proof -
      have "is_ascii_digit c" using that pad_zero_digits [of 6 k] by (simp add: list_all_iff)
      then show ?thesis by (auto simp: is_ascii_digit_def)
    qed
    from takeWhile_append2 [of "rev (pad_zero 6 (show_nat k))" "\<lambda>c. c \<noteq> CHR ''#''", OF this]
    show ?thesis by simp
  qed
  from last [of at n] last [of at' n'] eq have "rev (pad_zero 6 (show_nat n)) = rev (pad_zero 6 (show_nat n'))" by metis
  then show ?thesis by (simp add: pad_zero_inj)
qed

definition ids_ok :: "nat \<Rightarrow> remote_event list \<Rightarrow> bool" where
  "ids_ok k ev \<longleftrightarrow> distinct (egress_calls ev) \<and> (\<forall>x \<in> set (egress_calls ev). \<exists>at n. x = call_id at n \<and> n < k)"

lemma ids_ok_call:
  assumes "ids_ok k ev" "eg_call g = call_id at k"
  shows "ids_ok (Suc k) (ev @ call_events x g ep c)"
proof -
  have "call_id at k \<notin> set (egress_calls ev)" using assms(1) call_id_inj unfolding ids_ok_def by (metis less_irrefl)
  moreover have "\<exists>b n. y = call_id b n \<and> n < Suc k" if "y \<in> insert (call_id at k) (set (egress_calls ev))" for y
    using that assms(1) unfolding ids_ok_def by (metis insert_iff less_Suc_eq)
  ultimately show ?thesis using assms by (cases x) (auto simp: ids_ok_def call_events_def)
qed

lemma remote_calls_ok:
  assumes "events_ok env all (rw_events w)" "ids_ok (rw_sequence w) (rw_events w)" "set rs \<subseteq> set all"
  shows "events_ok env all (rw_events (remote_calls env rs w))
    \<and> ids_ok (rw_sequence (remote_calls env rs w)) (rw_events (remote_calls env rs w))"
  using assms
proof (induction rs arbitrary: w)
  case (Cons r rs)
  let ?w = "fst (call_with env w (rq_endpoint r) (rq_payload r) (rq_decision r) (rq_transport r))"
  have "events_ok env all (rw_events ?w) \<and> ids_ok (rw_sequence ?w) (rw_events ?w)"
  proof (cases rule: call_cases [of env w "rq_endpoint r" "rq_payload r" "rq_decision r" "rq_transport r"])
    case refused
    with Cons.prems show ?thesis by simp
  next
    case (made x c)
    have r: "r \<in> set all" using Cons.prems(3) by simp
    from events_ok_call [OF Cons.prems(1) r made(1,2) refl made(4)]
      ids_ok_call [OF Cons.prems(2), of "egress_of env (rq_endpoint r) (rq_payload r) _ _"]
    show ?thesis unfolding made(3,5) by (simp add: egress_of_def Let_def)
  qed
  then show ?case using Cons.IH [of ?w] Cons.prems(3) by simp
qed simp

text \<open>C33. However calls follow each other and whatever the disk, the clock and the network do: each request handed to the
  transport comes from a call that was consented to, carries exactly the bytes its dry run shows, and stands right
  after the ledger entry that records it, written and flushed; each recorded outcome follows its own request; and no
  two recorded requests of the process share an identifier.\<close>

theorem egress_gated:
  "let ev = rw_events (remote_calls env rs remote_start)
   in (\<forall>i < length ev. \<forall>ep body. ev ! i = Sent ep body \<longrightarrow> recorded env rs ev i ep body)
    \<and> (\<forall>i < length ev. \<forall>c. ev ! i = Logged (OutcomeEntry c) \<longrightarrow> concluded ev i c)
    \<and> distinct (egress_calls ev)"
  using remote_calls_ok [of env rs remote_start rs]
  by (simp add: events_ok_def ids_ok_def remote_start_def Let_def)

section \<open>A working disk\<close>

fun entries_of :: "remote_event list \<Rightarrow> ledger_entry list" where
  "entries_of [] = []"
| "entries_of (Logged e # ev) = e # entries_of ev"
| "entries_of (Sent _ _ # ev) = entries_of ev"

fun sent_of :: "remote_event list \<Rightarrow> (remote_endpoint \<times> string) list" where
  "sent_of [] = []"
| "sent_of (Logged e # ev) = sent_of ev"
| "sent_of (Sent ep body # ev) = (ep, body) # sent_of ev"

lemma entries_of_append [simp]: "entries_of (a @ b) = entries_of a @ entries_of b"
  by (induction a rule: entries_of.induct) simp_all

lemma sent_of_append [simp]: "sent_of (a @ b) = sent_of a @ sent_of b"
  by (induction a rule: sent_of.induct) simp_all

definition ledger_text :: "remote_env \<Rightarrow> ledger_entry list \<Rightarrow> string" where
  "ledger_text env es = concat (map (\<lambda>e. ev_entry_line env e @ newline) es)"

definition will_send :: "remote_request \<Rightarrow> bool" where
  "will_send r \<longleftrightarrow> decision_granted (rq_decision r) \<and> rq_transport r \<noteq> None"

lemma call_disk_ok:
  fixes env w r
  assumes disk: "\<And>n. ev_disk env n = None" and f: "rw_file w = ledger_text env (entries_of (rw_events w))"
  defines "w' \<equiv> fst (call_with env w (rq_endpoint r) (rq_payload r) (rq_decision r) (rq_transport r))"
  shows "rw_file w' = ledger_text env (entries_of (rw_events w'))"
    and "sent_of (rw_events w') = sent_of (rw_events w)
           @ (if will_send r then [(rq_endpoint r, dry_run (ev_to_json env) (rq_endpoint r) (rq_payload r))] else [])"
    and "length (entries_of (rw_events w')) = length (entries_of (rw_events w)) + (if will_send r then 2 else 0)"
proof -
  have "rw_file w' = ledger_text env (entries_of (rw_events w'))
      \<and> sent_of (rw_events w') = sent_of (rw_events w)
           @ (if will_send r then [(rq_endpoint r, dry_run (ev_to_json env) (rq_endpoint r) (rq_payload r))] else [])
      \<and> length (entries_of (rw_events w')) = length (entries_of (rw_events w)) + (if will_send r then 2 else 0)"
  proof (cases "will_send r")
    case False
    then have "w' = w" unfolding w'_def will_send_def using call_refused by (metis fst_conv not_None_eq)
    with f False show ?thesis by simp
  next
    case True
    then obtain send where t: "rq_transport r = Some send" and d: "decision_granted (rq_decision r)" by (auto simp: will_send_def)
    show ?thesis
      unfolding w'_def t call_granted [of "rq_decision r" env w "rq_endpoint r" "rq_payload r" send, OF d]
      using True f
      by (simp add: disk Let_def call_events_def ledger_text_def egress_of_def dry_run_def)
  qed
  then show "rw_file w' = ledger_text env (entries_of (rw_events w'))"
    "sent_of (rw_events w') = sent_of (rw_events w)
           @ (if will_send r then [(rq_endpoint r, dry_run (ev_to_json env) (rq_endpoint r) (rq_payload r))] else [])"
    "length (entries_of (rw_events w')) = length (entries_of (rw_events w)) + (if will_send r then 2 else 0)"
    by blast+
qed

lemma calls_disk_ok:
  assumes disk: "\<And>n. ev_disk env n = None" and f: "rw_file w = ledger_text env (entries_of (rw_events w))"
  shows "rw_file (remote_calls env rs w) = ledger_text env (entries_of (rw_events (remote_calls env rs w)))
    \<and> sent_of (rw_events (remote_calls env rs w)) = sent_of (rw_events w)
        @ map (\<lambda>r. (rq_endpoint r, dry_run (ev_to_json env) (rq_endpoint r) (rq_payload r))) (filter will_send rs)
    \<and> length (entries_of (rw_events (remote_calls env rs w))) = length (entries_of (rw_events w)) + 2 * length (filter will_send rs)"
  using f
proof (induction rs arbitrary: w)
  case (Cons r rs)
  note c = call_disk_ok [OF disk Cons.prems, of r]
  from Cons.IH [OF c(1)] c(2,3) show ?case by simp
qed simp

lemma split_on_line: "sep \<notin> set s \<Longrightarrow> split_on sep (s @ sep # t) = s # split_on sep t"
  by (induction s) auto

definition plain_line :: "string \<Rightarrow> bool" where
  "plain_line s \<longleftrightarrow> CHR 0x0A \<notin> set s \<and> utf8_valid s \<and> (s = [] \<or> last s \<noteq> CHR 0x0D)"

lemma split_lines:
  "list_all plain_line ls \<Longrightarrow> split_on CHR 0x0A (concat (map (\<lambda>l. l @ newline) ls)) = ls @ [[]]"
  by (induction ls) (simp_all add: plain_line_def newline_def split_on_line)

lemma lines_of_text: "list_all plain_line ls \<Longrightarrow> lines_of (concat (map (\<lambda>l. l @ newline) ls)) = ls"
proof -
  assume p: "list_all plain_line ls"
  then have "map strip_cr ls = ls"
    by (intro map_idI) (auto simp: list_all_iff plain_line_def strip_cr_def)
  with split_lines [OF p] show ?thesis by (simp add: lines_of_def)
qed

lemma ledger_read_text:
  assumes "rw_file w = ledger_text env es"
    and "\<And>e. e \<in> set es \<Longrightarrow> plain_line (ev_entry_line env e) \<and> ev_line_entry env (ev_entry_line env e) = Some e"
  shows "ledger_read env w = es"
proof -
  have "list_all plain_line (map (ev_entry_line env) es)" using assms(2) by (simp add: list_all_iff)
  from lines_of_text [OF this] have "lines_of (rw_file w) = map (ev_entry_line env) es"
    by (simp add: assms(1) ledger_text_def comp_def)
  moreover have "takeWhile utf8_valid (map (ev_entry_line env) es) = map (ev_entry_line env) es"
    using assms(2) by (subst takeWhile_eq_all_conv) (auto simp: plain_line_def)
  moreover have "List.map_filter (ev_line_entry env) (map (ev_entry_line env) es) = es"
    using assms(2) by (induction es) (simp_all add: List.map_filter_simps)
  ultimately show ?thesis by (simp only: ledger_read_def)
qed

text \<open>C34. While the disk works, the requests sent are exactly those of the calls consented to that have a transport, in
  order, each with two ledger entries, and reading the ledger gives back every entry written, in order. What is
  relied on of the JSON library is that it prints an entry on one line of UTF-8 and parses it back.\<close>

theorem ledger_complete:
  assumes "\<And>n. ev_disk env n = None"
    and "\<And>e. e \<in> set (entries_of (rw_events (remote_calls env rs remote_start)))
          \<Longrightarrow> plain_line (ev_entry_line env e) \<and> ev_line_entry env (ev_entry_line env e) = Some e"
  shows "ledger_read env (remote_calls env rs remote_start) = entries_of (rw_events (remote_calls env rs remote_start))
    \<and> sent_of (rw_events (remote_calls env rs remote_start))
        = map (\<lambda>r. (rq_endpoint r, dry_run (ev_to_json env) (rq_endpoint r) (rq_payload r))) (filter will_send rs)
    \<and> length (entries_of (rw_events (remote_calls env rs remote_start))) = 2 * length (filter will_send rs)"
proof -
  have "rw_file remote_start = ledger_text env (entries_of (rw_events remote_start))"
    by (simp add: remote_start_def ledger_text_def)
  note c = calls_disk_ok [OF assms(1) this, of rs]
  from ledger_read_text [OF conjunct1 [OF c] assms(2)] c show ?thesis by (simp add: remote_start_def)
qed

section \<open>Whole answers\<close>

lemma parse_response_Ok:
  "parse_response of_json raw = Ok ans \<longleftrightarrow>
     (\<exists>value choice rest content finish. of_json raw = Ok value \<and> reported_error value = None
        \<and> Option.bind (json_get value ''choices'') json_as_array = Some (choice # rest)
        \<and> Option.bind (json_get choice ''message'') (\<lambda>m. json_get_str m ''content'') = Some content
        \<and> json_get_str choice ''finish_reason'' = Some finish \<and> map to_ascii_lower finish \<in> set COMPLETE
        \<and> trim content \<noteq> [] \<and> ans = \<lparr>an_text = trim content, an_model = json_get_str value ''model''\<rparr>)"
  by (auto simp: parse_response_def Let_def split: sum.splits option.splits list.splits if_splits)

lemma call_Ok:
  assumes "call_with env w ep p dec (Some send) = (w', Ok raw)"
  shows "decision_granted dec \<and> (\<exists>g c. rw_events w' = rw_events w @ call_events Whole g ep c
     \<and> eg_body g = dry_run (ev_to_json env) ep p \<and> oc_ok c \<and> oc_response_bytes c = length raw)"
proof -
  have d: "decision_granted dec" using assms call_refused(1) by (metis Inl_Inr_False prod.inject)
  let ?g = "egress_of env ep p (call_id (ev_now env (rw_reads w)) (rw_sequence w)) (ev_now env (rw_reads w))"
  let ?c = "outcome_of (call_id (ev_now env (rw_reads w)) (rw_sequence w)) (ev_now env (Suc (rw_reads w)))
      (send (rw_events w @ [Logged (EgressEntry ?g)]) ep (eg_body ?g))"
  have "rw_events w' = rw_events w @ call_events Whole ?g ep ?c \<and> oc_ok ?c \<and> oc_response_bytes ?c = length raw"
    using assms unfolding call_granted [of dec env w ep p send, OF d]
    by (auto simp: Let_def outcome_of_def split: option.splits prod.splits sum.splits)
  moreover have "eg_body ?g = dry_run (ev_to_json env) ep p" by (simp add: egress_of_def dry_run_def Let_def)
  ultimately show ?thesis using d by blast
qed

text \<open>C35. A request for the hosted model never reaches the local one. It emits text only when the call was consented to,
  recorded, sent and answered, and the answer is JSON without an error whose first choice holds text and says it
  finished: then that text, trimmed and not empty, is emitted once. Any failure emits nothing.\<close>

theorem remote_answer_whole:
  assumes "cr_model req = en_model (re_endpoint re)"
  shows "case chat_stream env send of_json ground re le w req of (w', pieces, result) \<Rightarrow>
     chat_stream env send of_json ground re le' w req = (w', pieces, result)
     \<and> (case result of
          Inl _ \<Rightarrow> pieces = []
        | Inr _ \<Rightarrow> decision_granted (re_decision re)
            \<and> (\<exists>p g c raw value choice rest content finish. payload_for ground req = Ok p
               \<and> rw_events w' = rw_events w @ call_events Whole g (re_endpoint re) c
               \<and> eg_body g = dry_run (ev_to_json env) (re_endpoint re) p \<and> oc_ok c \<and> oc_response_bytes c = length raw
               \<and> of_json raw = Ok value \<and> reported_error value = None
               \<and> Option.bind (json_get value ''choices'') json_as_array = Some (choice # rest)
               \<and> Option.bind (json_get choice ''message'') (\<lambda>m. json_get_str m ''content'') = Some content
               \<and> json_get_str choice ''finish_reason'' = Some finish \<and> map to_ascii_lower finish \<in> set COMPLETE
               \<and> trim content \<noteq> [] \<and> pieces = [trim content]))"
proof (cases "payload_for ground req")
  case (Inl e)
  with assms show ?thesis by (simp add: chat_stream_def)
next
  case p: (Inr p)
  obtain w' r where call: "call_with env w (re_endpoint re) p (re_decision re) (Some send) = (w', r)"
    by (cases "call_with env w (re_endpoint re) p (re_decision re) (Some send)")
  show ?thesis
  proof (cases r)
    case (Inl e)
    with assms p call show ?thesis by (simp add: chat_stream_def)
  next
    case raw: (Inr raw)
    show ?thesis
    proof (cases "parse_response of_json raw")
      case (Inl e)
      with assms p call raw show ?thesis by (simp add: chat_stream_def)
    next
      case ans: (Inr ans)
      have chat: "chat_stream env send of_json ground re l w req = (w', [an_text ans],
          Ok \<lparr>cs_prompt_tokens = 0, cs_completion_tokens = 0, cs_finish_reason = FinishStop\<rparr>)" for l
        using assms p call raw ans by (simp add: chat_stream_def)
      from ans obtain body choice rest content finish where v: "of_json raw = Ok body" "reported_error body = None"
        "Option.bind (json_get body ''choices'') json_as_array = Some (choice # rest)"
        "Option.bind (json_get choice ''message'') (\<lambda>m. json_get_str m ''content'') = Some content"
        "json_get_str choice ''finish_reason'' = Some finish" "map to_ascii_lower finish \<in> set COMPLETE"
        "trim content \<noteq> []" "an_text ans = trim content"
        unfolding parse_response_Ok by force
      from call_Ok [OF call [unfolded raw]] obtain g c where d: "decision_granted (re_decision re)"
        and g: "rw_events w' = rw_events w @ call_events Whole g (re_endpoint re) c"
        "eg_body g = dry_run (ev_to_json env) (re_endpoint re) p" "oc_ok c" "oc_response_bytes c = length raw" by blast
      show ?thesis unfolding chat prod.case sum.case v(8)
        using d p g v(1-7) by blast
    qed
  qed
qed

section \<open>A call that goes through\<close>

definition sample_endpoint :: remote_endpoint where
  "sample_endpoint = \<lparr>en_url = ''https://h'', en_model = ''m'', en_trust = VendorAsserted\<rparr>"

definition sample_payload :: payload where
  "sample_payload = \<lparr>pl_instruction = ''q'', pl_context = []\<rparr>"

definition sample_decision :: consent_decision where
  "sample_decision = \<lparr>dc_reason = Granted, dc_project_grant_ignored = False\<rparr>"

definition sample_transport :: transport where
  "sample_transport = (\<lambda>_ _ _. Ok ''r'')"

definition sample_request :: remote_request where
  "sample_request = \<lparr>rq_endpoint = sample_endpoint, rq_payload = sample_payload, rq_decision = sample_decision,
     rq_transport = Some sample_transport\<rparr>"

definition sample_egress :: egress where
  "sample_egress = \<lparr>eg_call = ''t#000001'', eg_at = ''t'', eg_endpoint = ''https://h'', eg_model = ''m'', eg_trust = VendorAsserted,
     eg_fields = [''instruction''], eg_bytes = 2, eg_body = ''{}''\<rparr>"

definition sample_outcome :: outcome_entry where
  "sample_outcome = \<lparr>oc_call = ''t#000001'', oc_at = ''t'', oc_ok = True, oc_detail = [], oc_response_bytes = 1\<rparr>"

definition sample_env :: remote_env where
  "sample_env = \<lparr>ev_now = (\<lambda>_. ''t''), ev_disk = (\<lambda>_. None), ev_to_json = (\<lambda>_. ''{}''),
     ev_entry_line = (\<lambda>e. case e of EgressEntry _ \<Rightarrow> ''e'' | OutcomeEntry _ \<Rightarrow> ''o''),
     ev_line_entry = (\<lambda>l. if l = ''e'' then Some (EgressEntry sample_egress)
        else if l = ''o'' then Some (OutcomeEntry sample_outcome) else None)\<rparr>"

lemma sample_id: "call_id ''t'' 1 = ''t#000001''"
  by code_simp

lemma sample_events: "rw_events (remote_calls sample_env [sample_request] remote_start)
   = [Logged (EgressEntry sample_egress), Sent sample_endpoint ''{}'', Logged (OutcomeEntry sample_outcome)]"
proof -
  have d: "decision_granted sample_decision" by (simp add: decision_granted_def reason_granted_def sample_decision_def)
  have g: "egress_of sample_env sample_endpoint sample_payload (call_id ''t'' 1) ''t'' = sample_egress"
    unfolding sample_id by (simp add: egress_of_def sample_env_def sample_endpoint_def sample_payload_def sample_egress_def
        payload_body_def fields_present_def)
  have c: "outcome_of (call_id ''t'' 1) ''t'' (Ok ''r'') = sample_outcome"
    unfolding sample_id by (simp add: outcome_of_def sample_outcome_def)
  show ?thesis
    using g c
    by (simp add: call_granted [OF d] sample_request_def remote_start_def sample_transport_def Let_def call_events_def)
      (simp add: sample_env_def sample_egress_def call_events_def)
qed

theorem ledger_complete_witness:
  "ledger_read sample_env (remote_calls sample_env [sample_request] remote_start)
     = [EgressEntry sample_egress, OutcomeEntry sample_outcome]"
proof -
  have "plain_line (ev_entry_line sample_env e) \<and> ev_line_entry sample_env (ev_entry_line sample_env e) = Some e"
    if "e \<in> set (entries_of (rw_events (remote_calls sample_env [sample_request] remote_start)))" for e
    using that unfolding sample_events
    by (auto simp: sample_env_def plain_line_def between_def)
  then have "ledger_read sample_env (remote_calls sample_env [sample_request] remote_start)
      = entries_of (rw_events (remote_calls sample_env [sample_request] remote_start))"
    by (intro conjunct1 [OF ledger_complete [of sample_env "[sample_request]"]]) (simp add: sample_env_def)
  also have "\<dots> = [EgressEntry sample_egress, OutcomeEntry sample_outcome]"
    by (simp only: sample_events entries_of.simps)
  finally show ?thesis .
qed

theorem egress_gated_witness:
  "recorded sample_env [sample_request] (rw_events (remote_calls sample_env [sample_request] remote_start)) 1 sample_endpoint ''{}''"
proof -
  note t = egress_gated [of sample_env "[sample_request]", unfolded Let_def, THEN conjunct1, rule_format, of 1 sample_endpoint "''{}''"]
  show ?thesis by (rule t) (simp_all only: sample_events, simp_all)
qed

definition sample_chat :: chat_request where
  "sample_chat = \<lparr>cr_model = ''m'', cr_messages = [\<lparr>cm_role = ''user'', cm_content = ''q''\<rparr>], cr_images = [], cr_tools = None,
     cr_audio = [], cr_temperature = 0, cr_max_tokens = 0\<rparr>"

definition sample_json :: json where
  "sample_json = JObject [(''choices'', JArray [JObject [(''message'', JObject [(''content'', JString ''yes'')]),
     (''finish_reason'', JString ''STOP'')]])]"

definition sample_local :: "string \<Rightarrow> local_engine" where
  "sample_local s = \<lparr>le_models = [], le_carries_tools = (\<lambda>_. False), le_chat = (\<lambda>_. ([s], Err (UnknownModel s)))\<rparr>"

lemma sample_chat_answers:
  "fst (snd (chat_stream sample_env sample_transport (\<lambda>_. Ok sample_json) (\<lambda>_. [])
       \<lparr>re_endpoint = sample_endpoint, re_decision = sample_decision\<rparr> (sample_local ''x'') remote_start sample_chat)) = [''yes'']"
  by code_simp

theorem remote_answer_whole_witness:
  "fst (snd (chat_stream sample_env sample_transport (\<lambda>_. Ok sample_json) (\<lambda>_. [])
       \<lparr>re_endpoint = sample_endpoint, re_decision = sample_decision\<rparr> (sample_local ''y'') remote_start sample_chat)) = [''yes'']"
proof -
  have "cr_model sample_chat = en_model (re_endpoint \<lparr>re_endpoint = sample_endpoint, re_decision = sample_decision\<rparr>)"
    by (simp add: sample_chat_def sample_endpoint_def)
  from remote_answer_whole [OF this, of sample_env sample_transport "\<lambda>_. Ok sample_json" "\<lambda>_. []" "sample_local ''x''" remote_start "sample_local ''y''"]
    sample_chat_answers
  show ?thesis by (auto split: prod.splits)
qed

section \<open>A torn line\<close>

text \<open>A line cut inside a character hides what is written after it: the reading stops there.\<close>

lemma torn_line_hides:
  "ledger_read env (fst (ledger_append (env\<lparr>ev_disk := (\<lambda>_. None), ev_entry_line := (\<lambda>_. ''{}'')\<rparr>)
     (remote_start\<lparr>rw_file := ''{'' @ [CHR 0xE2]\<rparr>) e)) = []"
  by (simp add: ledger_append_def remote_start_def ledger_read_def lines_of_def newline_def between_def continuation_def strip_cr_def
      List.map_filter_simps)

end
