(* ===== verification/ContextCache.thy ===== *)
theory ContextCache imports Imports KeyedTable begin

text \<open>
  The \<open>node_context\<close> table of \<open>crates/rto-graph/src/store.rs\<close> as a provider of the keyed-table contract: a cached
  context is the fingerprint and the JSON written last for its key, whatever was written or deleted for others.
\<close>

definition context_ok :: "store \<Rightarrow> bool" where
  "context_ok s \<longleftrightarrow> bt_wf (context_t s)"

definition put_context :: "store \<Rightarrow> string \<Rightarrow> string \<times> string \<Rightarrow> store option" where
  "put_context s key v = Some (context_cache_put s key (fst v) (snd v))"

lemma map_of_filter_key: "map_of (filter (\<lambda>(k, _). k \<noteq> key) m) = (map_of m)(key := None)"
  by (induction m) auto

lemma bt_wf_filter_key: "bt_wf m \<Longrightarrow> bt_wf (filter P m)"
  by (simp add: bt_wf_def sorted_wrt_map sorted_wrt_filter)

interpretation context_cache: keyed_table context_ok context_cache_get put_context "\<lambda>s k. fst (context_cache_delete s k)"
  "\<lambda>_. True" "\<lambda>_. True" "\<lambda>_ v. v"
proof
  fix s :: store and v k assume "context_ok s"
  then show "\<exists>s'. put_context s k v = Some s' \<and> context_ok s' \<and> context_cache_get s' = (context_cache_get s)(k \<mapsto> v)"
    by (auto simp: put_context_def context_cache_put_def context_ok_def context_cache_get_def [abs_def])
next
  fix s :: store and k assume "context_ok s"
  then show "context_ok (fst (context_cache_delete s k)) \<and> context_cache_get (fst (context_cache_delete s k)) = (context_cache_get s)(k := None)"
    by (simp add: context_cache_delete_def context_ok_def context_cache_get_def [abs_def] map_of_filter_key bt_wf_filter_key)
qed simp

text \<open>After any writes and deletions a context is the one written last, its fingerprint with it, and the listed keys
  are those that have one, each once and in order.\<close>

lemma context_last_write:
  assumes "k \<notin> context_cache.key_of_request ` set later"
  shows "context_cache_get (foldl context_cache.serve empty_store (earlier @ Put k v # later)) k = Some v"
    and "context_cache_fingerprint (foldl context_cache.serve empty_store (earlier @ Put k v # later)) k = Some (fst v)"
proof -
  have l: "list_all context_cache.legal_request rs" for rs :: "(string, string \<times> string) request list"
  proof -
    have "context_cache.legal_request r" for r :: "(string, string \<times> string) request" by (cases r) simp_all
    then show ?thesis by (simp add: list_all_iff)
  qed
  show g: "context_cache_get (foldl context_cache.serve empty_store (earlier @ Put k v # later)) k = Some v"
    using context_cache.last_write [of empty_store earlier k v later] l assms
    by (simp add: context_ok_def empty_store_def)
  then show "context_cache_fingerprint (foldl context_cache.serve empty_store (earlier @ Put k v # later)) k = Some (fst v)"
    by (simp add: context_cache_get_def context_cache_fingerprint_def)
qed

lemma context_keys_listed:
  "context_ok s \<Longrightarrow> set (context_cache_keys s) = {k. context_cache_get s k \<noteq> None} \<and> sorted (context_cache_keys s) \<and> distinct (context_cache_keys s)"
  by (auto simp: context_ok_def context_cache_keys_def context_cache_get_def bt_wf_distinct map_of_eq_None_iff)

end
