(* ===== verification/Git.thy ===== *)
theory Git imports Store Paths Decimal begin

text \<open>
  \<open>crates/rto-graph/src/git.rs\<close>: what the program reads of a repository. Everything gix and the file system answer
  (the entries of a tree, the changes between two trees, the index, the objects, the walk of the worktree, the
  history) is a parameter; what the code makes of the answers is modelled.
\<close>

section \<open>What gix answers\<close>

datatype git_error = GitFailed string | NonUtf8Path string

datatype entry_mode = ModeTree | ModeBlob | ModeBlobExecutable | ModeLink | ModeCommit

definition mode_is_blob :: "entry_mode \<Rightarrow> bool" where
  "mode_is_blob m \<longleftrightarrow> m = ModeBlob \<or> m = ModeBlobExecutable"

record tree_entry =
  te_mode :: entry_mode
  te_path :: string
  te_oid :: string

datatype tree_change =
    Addition entry_mode string string
  | Deletion entry_mode string string
  | Modification entry_mode entry_mode string string
  | Rewrite string

record index_entry =
  ix_stage :: nat
  ix_mode :: entry_mode
  ix_path :: string
  ix_oid :: string

datatype read_result = FileBytes string | FileMissing | FileFailed string

text \<open>The object database: it only grows, and an id names one object for ever.\<close>

record git_objects =
  go_tree :: "string \<Rightarrow> git_error + string"
  go_entries :: "string \<Rightarrow> git_error + tree_entry list"
  go_changes :: "string \<Rightarrow> string \<Rightarrow> git_error + tree_change list"
  go_blob :: "string \<Rightarrow> git_error + string"

text \<open>The rest of the repository, as one command sees it.\<close>

record repo =
  rp_objects :: git_objects
  rp_head_tree :: "git_error + string"
  rp_rev_tree :: "string \<Rightarrow> git_error + string"
  rp_index :: "git_error + index_entry list"
  rp_worktree :: string
  rp_workdir :: "(string \<Rightarrow> read_result) option"
  rp_walk :: "git_error + (bool \<times> bool \<times> string) list"
  rp_hash_blob :: "string \<Rightarrow> git_error + string"

record blob_ref =
  br_path :: string
  br_oid :: string

record tree_diff =
  td_changed :: "blob_ref list"
  td_deleted :: "string list"

record submodule =
  sm_path :: string
  sm_sha :: string
  sm_url :: "string option"

datatype change_status = ChangeAdded | ChangeModified | ChangeDeleted

definition change_status_as_str :: "change_status \<Rightarrow> string" where
  "change_status_as_str s = (case s of ChangeAdded \<Rightarrow> ''added'' | ChangeModified \<Rightarrow> ''modified'' | ChangeDeleted \<Rightarrow> ''deleted'')"

record changed_file =
  cf_path :: string
  cf_status :: change_status

datatype graph_source = Committed | Worktree | Index

definition graph_source_as_str :: "graph_source \<Rightarrow> string" where
  "graph_source_as_str s = (case s of Committed \<Rightarrow> ''committed'' | Worktree \<Rightarrow> ''worktree'' | Index \<Rightarrow> ''index'')"

definition GITMODULES :: string where "GITMODULES = ''.gitmodules''"

text \<open>\<open>String::from_utf8\<close>.\<close>

definition utf8_path :: "string \<Rightarrow> git_error + string" where
  "utf8_path p = (if utf8_valid p then Ok p else Err (NonUtf8Path p))"

section \<open>Trees\<close>

definition walk_tree_blobs :: "git_objects \<Rightarrow> string \<Rightarrow> git_error + blob_ref list" where
  "walk_tree_blobs g tree =
     and_then (go_entries g tree) (\<lambda>entries.
       try_map (\<lambda>e. and_then (utf8_path (te_path e)) (\<lambda>p. Ok \<lparr>br_path = p, br_oid = te_oid e\<rparr>))
         (filter (\<lambda>e. mode_is_blob (te_mode e)) entries))"

definition head_tree_id :: "repo \<Rightarrow> git_error + string" where
  "head_tree_id r = rp_head_tree r"

definition walk_blobs :: "repo \<Rightarrow> git_error + blob_ref list" where
  "walk_blobs r = and_then (rp_head_tree r) (walk_tree_blobs (rp_objects r))"

definition blobs_at :: "repo \<Rightarrow> string \<Rightarrow> git_error + blob_ref list" where
  "blobs_at r revision = and_then (rp_rev_tree r revision) (walk_tree_blobs (rp_objects r))"

definition tree_id_at :: "repo \<Rightarrow> string \<Rightarrow> git_error + string" where
  "tree_id_at r revision = rp_rev_tree r revision"

definition read_blob :: "repo \<Rightarrow> string \<Rightarrow> git_error + string" where
  "read_blob r oid = go_blob (rp_objects r) oid"

text \<open>The closure over the changes: what it has pushed, and the last error it has met.\<close>

definition record_change :: "(blob_ref list \<times> string list) \<times> git_error option \<Rightarrow> tree_change
    \<Rightarrow> (blob_ref list \<times> string list) \<times> git_error option" where
  "record_change st change =
     (let ((changed, deleted), err) = st;
          written = (\<lambda>mode path oid. if mode_is_blob mode
             then (case utf8_path path of Ok p \<Rightarrow> ((changed @ [\<lparr>br_path = p, br_oid = oid\<rparr>], deleted), err)
                                        | Err e \<Rightarrow> ((changed, deleted), Some e))
             else st)
      in case change of
        Addition mode path oid \<Rightarrow> written mode path oid
      | Modification _ mode path oid \<Rightarrow> written mode path oid
      | Deletion mode path _ \<Rightarrow> if mode_is_blob mode
          then (case utf8_path path of Ok p \<Rightarrow> ((changed, deleted @ [p]), err) | Err e \<Rightarrow> ((changed, deleted), Some e))
          else st
      | Rewrite _ \<Rightarrow> st)"

definition diff_trees :: "git_objects \<Rightarrow> string \<Rightarrow> string \<Rightarrow> git_error + tree_diff" where
  "diff_trees g old new =
     and_then (go_tree g old) (\<lambda>old_tree. and_then (go_tree g new) (\<lambda>new_tree.
     and_then (go_changes g old_tree new_tree) (\<lambda>changes.
       case foldl record_change (([], []), None) changes of
         (_, Some e) \<Rightarrow> Err e
       | ((changed, deleted), None) \<Rightarrow> Ok \<lparr>td_changed = sort_key br_path changed, td_deleted = sort deleted\<rparr>)))"

definition changed_between :: "repo \<Rightarrow> string \<Rightarrow> git_error + changed_file list" where
  "changed_between r base =
     and_then (rp_rev_tree r base) (\<lambda>base_oid. and_then (head_tree_id r) (\<lambda>head_oid.
     and_then (diff_trees (rp_objects r) base_oid head_oid) (\<lambda>diff.
       Ok (sort_key cf_path (map (\<lambda>b. \<lparr>cf_path = br_path b, cf_status = ChangeModified\<rparr>) (td_changed diff)
            @ map (\<lambda>p. \<lparr>cf_path = p, cf_status = ChangeDeleted\<rparr>) (td_deleted diff))))))"

section \<open>The index and the worktree\<close>

definition index_files :: "repo \<Rightarrow> git_error + blob_ref list" where
  "index_files r =
     and_then (rp_index r) (\<lambda>entries.
     and_then (try_map (\<lambda>e. and_then (utf8_path (ix_path e)) (\<lambda>p. Ok \<lparr>br_path = p, br_oid = ix_oid e\<rparr>))
         (filter (\<lambda>e. ix_stage e = 0 \<and> mode_is_blob (ix_mode e)) entries)) (\<lambda>out.
       Ok (sort_key br_path out)))"

definition read_source :: "repo \<Rightarrow> blob_ref \<Rightarrow> graph_source \<Rightarrow> git_error + string option" where
  "read_source r blob source =
     (case (source, rp_workdir r) of
        (Worktree, Some read) \<Rightarrow> (case read (br_path blob) of
            FileBytes bytes \<Rightarrow> Ok (Some bytes)
          | FileMissing \<Rightarrow> Ok None
          | FileFailed e \<Rightarrow> Err (GitFailed (''reading '' @ br_path blob @ '': '' @ e)))
      | _ \<Rightarrow> and_then (read_blob r (br_oid blob)) (\<lambda>bytes. Ok (Some bytes)))"

definition changed_step :: "repo \<Rightarrow> (string \<Rightarrow> read_result) \<Rightarrow> path_policy \<Rightarrow> changed_file list \<Rightarrow> blob_ref
    \<Rightarrow> git_error + changed_file list" where
  "changed_step r read paths out blob =
     (if \<not> reads (classify paths (br_path blob)) then Ok out
      else case read (br_path blob) of
        FileBytes bytes \<Rightarrow> and_then (rp_hash_blob r bytes) (\<lambda>oid.
            Ok (if oid \<noteq> br_oid blob then out @ [\<lparr>cf_path = br_path blob, cf_status = ChangeModified\<rparr>] else out))
      | FileMissing \<Rightarrow> Ok (out @ [\<lparr>cf_path = br_path blob, cf_status = ChangeDeleted\<rparr>])
      | FileFailed e \<Rightarrow> Err (GitFailed e))"

definition changed_files :: "repo \<Rightarrow> path_policy \<Rightarrow> git_error + changed_file list" where
  "changed_files r paths =
     (case rp_workdir r of
        None \<Rightarrow> Ok []
      | Some read \<Rightarrow> and_then (walk_blobs r) (\<lambda>blobs.
          and_then (try_fold (changed_step r read paths) [] blobs) (\<lambda>out. Ok (sort_key cf_path out))))"

text \<open>An item of the walk: whether it is untracked, whether it is a file on disk, and its path.\<close>

definition untracked_files :: "repo \<Rightarrow> git_error + string list" where
  "untracked_files r =
     (if rp_workdir r = None then Ok []
      else and_then (rp_walk r) (\<lambda>items.
        and_then (try_map (\<lambda>(_, _, p). utf8_path p) (filter (\<lambda>(untracked, file, _). untracked \<and> file) items)) (\<lambda>out.
          Ok (sort out))))"

definition added_since_head :: "repo \<Rightarrow> string set \<Rightarrow> git_error + string list" where
  "added_since_head r head_paths =
     and_then (untracked_files r) (\<lambda>untracked. and_then (index_files r) (\<lambda>index.
       Ok (sort (remdups (filter (\<lambda>p. p \<notin> head_paths) untracked
             @ filter (\<lambda>p. p \<notin> head_paths) (map br_path index))))))"

section \<open>Submodules\<close>

record gitmodules_state =
  gm_urls :: "(string \<times> string) list"
  gm_path :: "string option"
  gm_url :: "string option"
  gm_inside :: bool

definition gm_flush :: "gitmodules_state \<Rightarrow> gitmodules_state" where
  "gm_flush st =
     (case (gm_path st, gm_url st) of
        (Some p, Some u) \<Rightarrow> st\<lparr>gm_urls := (p, u) # gm_urls st, gm_path := None, gm_url := None\<rparr>
      | _ \<Rightarrow> st\<lparr>gm_path := None, gm_url := None\<rparr>)"

definition gm_value :: "string \<Rightarrow> string \<Rightarrow> string option" where
  "gm_value name line =
     Option.bind (strip_prefix name line) (\<lambda>r. map_option trim (strip_prefix ''='' (trim_start r)))"

definition gm_line :: "gitmodules_state \<Rightarrow> string \<Rightarrow> gitmodules_state" where
  "gm_line st line0 =
     (let line = trim line0
      in if starts_with line ''['' then (gm_flush st)\<lparr>gm_inside := starts_with line ''[submodule''\<rparr>
         else if gm_inside st then (case gm_value ''path'' line of
             Some v \<Rightarrow> st\<lparr>gm_path := Some v\<rparr>
           | None \<Rightarrow> (case gm_value ''url'' line of Some v \<Rightarrow> st\<lparr>gm_url := Some v\<rparr> | None \<Rightarrow> st))
         else st)"

definition parse_gitmodules :: "string \<Rightarrow> string \<Rightarrow> string option" where
  "parse_gitmodules text_of =
     map_of (gm_urls (gm_flush (foldl gm_line \<lparr>gm_urls = [], gm_path = None, gm_url = None, gm_inside = False\<rparr> (lines_of text_of))))"

definition assemble_submodules :: "git_objects \<Rightarrow> (string \<times> string) list \<Rightarrow> string option \<Rightarrow> path_policy
    \<Rightarrow> git_error + submodule list" where
  "assemble_submodules g links gitmodules paths =
     (if links = [] then Ok []
      else and_then (case gitmodules of
          Some oid \<Rightarrow> if mines (classify paths GITMODULES)
            then and_then (go_blob g oid) (\<lambda>bytes. Ok (parse_gitmodules (utf8_lossy bytes)))
            else Ok Map.empty
        | None \<Rightarrow> Ok Map.empty) (\<lambda>urls.
        Ok (sort_key sm_path (map (\<lambda>(path, sha). \<lparr>sm_path = path, sm_sha = sha, sm_url = urls path\<rparr>) links))))"

definition submodule_scan :: "(string \<times> string) list \<times> string option \<Rightarrow> tree_entry
    \<Rightarrow> git_error + (string \<times> string) list \<times> string option" where
  "submodule_scan st e =
     (let (links, gitmodules) = st
      in if te_mode e = ModeCommit then and_then (utf8_path (te_path e)) (\<lambda>p. Ok (links @ [(p, te_oid e)], gitmodules))
         else if mode_is_blob (te_mode e) \<and> te_path e = GITMODULES then Ok (links, Some (te_oid e))
         else Ok st)"

definition submodules_in_tree :: "git_objects \<Rightarrow> string \<Rightarrow> path_policy \<Rightarrow> git_error + submodule list" where
  "submodules_in_tree g tree paths =
     and_then (go_entries g tree) (\<lambda>entries.
     and_then (try_fold submodule_scan ([], None) entries) (\<lambda>(links, gitmodules).
       assemble_submodules g links gitmodules paths))"

definition submodules :: "repo \<Rightarrow> path_policy \<Rightarrow> git_error + submodule list" where
  "submodules r paths = and_then (rp_head_tree r) (\<lambda>tree. submodules_in_tree (rp_objects r) tree paths)"

definition submodules_at :: "repo \<Rightarrow> string \<Rightarrow> path_policy \<Rightarrow> git_error + submodule list" where
  "submodules_at r revision paths = and_then (rp_rev_tree r revision) (\<lambda>tree. submodules_in_tree (rp_objects r) tree paths)"

definition index_submodule_scan :: "(string \<times> string) list \<times> string option \<Rightarrow> index_entry
    \<Rightarrow> git_error + (string \<times> string) list \<times> string option" where
  "index_submodule_scan st e =
     (let (links, gitmodules) = st
      in if ix_stage e \<noteq> 0 then Ok st
         else and_then (utf8_path (ix_path e)) (\<lambda>p.
           Ok (if ix_mode e = ModeCommit then (links @ [(p, ix_oid e)], gitmodules)
               else if p = GITMODULES \<and> mode_is_blob (ix_mode e) then (links, Some (ix_oid e))
               else st)))"

definition index_submodules :: "repo \<Rightarrow> path_policy \<Rightarrow> git_error + submodule list" where
  "index_submodules r paths =
     and_then (rp_index r) (\<lambda>entries.
     and_then (try_fold index_submodule_scan ([], None) entries) (\<lambda>(links, gitmodules).
       assemble_submodules (rp_objects r) links gitmodules paths))"

end
