(* ===== verification/ObjectCache.thy ===== *)
theory ObjectCache imports Model Paths Decimal begin

text \<open>
  \<open>crates/rto-graph/src/cache.rs\<close>, the content-addressed cache of extracted facts, and the keys and the sweep of
  \<open>sync.rs\<close>. The cache is a directory of shard directories of files; what another process does to an entry while
  the sweep looks at it is a parameter (\<open>fate\<close>), as are the printer and the parser of JSON. Other failures of the disk
  are not modelled.
\<close>

section \<open>Keys\<close>

definition hex_digit :: "nat \<Rightarrow> char" where
  "hex_digit d = ''0123456789abcdef'' ! d"

text \<open>\<open>{:016x}\<close> of a \<open>u64\<close>.\<close>

definition hex16 :: "64 word \<Rightarrow> string" where
  "hex16 w = map (\<lambda>i. hex_digit (unat w div 16 ^ (15 - i) mod 16)) [0..<16]"

definition is_ascii_hexdigit :: "char \<Rightarrow> bool" where
  "is_ascii_hexdigit c \<longleftrightarrow> is_ascii_digit c \<or> c \<in> set ''abcdefABCDEF''"

definition EXTRACT_BASE_VERSION :: nat where "EXTRACT_BASE_VERSION = 17"
definition FEATURE_NAMESPACE_STRIDE :: nat where "FEATURE_NAMESPACE_STRIDE = 100"
definition DEFAULT_KEEP_GENERATIONS :: nat where "DEFAULT_KEEP_GENERATIONS = 1"

text \<open>The cargo features a binary was built with.\<close>

record features =
  ft_pdf_text :: bool
  ft_image_ocr :: bool
  ft_audio_metadata :: bool

definition EXTRACT_VERSION :: "features \<Rightarrow> nat" where
  "EXTRACT_VERSION ft = EXTRACT_BASE_VERSION + (if ft_pdf_text ft then 100 else 0)
     + (if ft_image_ocr ft then 200 else 0) + (if ft_audio_metadata ft then 400 else 0)"

definition fnv1a64 :: "string \<Rightarrow> 64 word" where
  "fnv1a64 bytes = fnv_fold 0xcbf29ce484222325 bytes"

definition cache_key :: "features \<Rightarrow> string \<Rightarrow> string \<Rightarrow> 64 word \<Rightarrow> string" where
  "cache_key ft path oid env = oid @ ''-'' @ hex16 (fnv1a64 path) @ ''-v'' @ show_nat (EXTRACT_VERSION ft) @ ''-e'' @ hex16 env"

definition key_generation :: "string \<Rightarrow> nat option" where
  "key_generation key =
     Option.bind (rsplit_once ''-e'' key) (\<lambda>(head, env).
       if length env \<noteq> 16 \<or> \<not> list_all is_ascii_hexdigit env then None
       else Option.bind (rsplit_once ''-v'' head) (\<lambda>(_, version).
         if version = [] \<or> \<not> list_all is_ascii_digit version then None
         else Option.bind (parse_nat version) (\<lambda>n.
           if int n < 2 ^ 32 then Some (n mod FEATURE_NAMESPACE_STRIDE) else None)))"

section \<open>The directory\<close>

text \<open>What a name in a shard stands for: a file of these bytes, a symbolic link, or a directory. A link is kept with
  what is found through it, which lies outside the cache: a file, nothing, or something that cannot be read.\<close>

datatype link_target = ToFile string | ToNothing | ToOther

datatype cache_file = Regular string | Linked link_target | Directory

datatype cache_error = CacheIo string | CacheJson

text \<open>\<open>oc_strays\<close>: what lies in the root that is not a directory.\<close>

record object_cache =
  oc_shards :: "(string \<times> (string \<times> cache_file) list) list"
  oc_strays :: nat

record facts_codec =
  cd_print :: "factset \<Rightarrow> string"
  cd_parse :: "string \<Rightarrow> factset option"

definition cache_open :: object_cache where
  "cache_open = \<lparr>oc_shards = [], oc_strays = 0\<rparr>"

text \<open>A key begins with an object id, in hexadecimal digits, so cutting it after two bytes cuts no character.\<close>

definition path_for :: "string \<Rightarrow> string \<times> string" where
  "path_for blob_id = (take 2 blob_id, drop 2 blob_id @ ''.json'')"

definition file_at :: "object_cache \<Rightarrow> string \<times> string \<Rightarrow> cache_file option" where
  "file_at c loc = Option.bind (map_of (oc_shards c) (fst loc)) (\<lambda>es. map_of es (snd loc))"

definition object_contains :: "object_cache \<Rightarrow> string \<Rightarrow> bool" where
  "object_contains c blob_id \<longleftrightarrow> file_at c (path_for blob_id) \<notin> {None, Some (Linked ToNothing)}"

definition decode_facts :: "facts_codec \<Rightarrow> string \<Rightarrow> cache_error + factset option" where
  "decode_facts cd bytes = (case cd_parse cd bytes of Some facts \<Rightarrow> Ok (Some facts) | None \<Rightarrow> Err CacheJson)"

definition object_get :: "facts_codec \<Rightarrow> object_cache \<Rightarrow> string \<Rightarrow> cache_error + factset option" where
  "object_get cd c blob_id =
     (case file_at c (path_for blob_id) of
        None \<Rightarrow> Ok None
      | Some (Regular bytes) \<Rightarrow> decode_facts cd bytes
      | Some (Linked (ToFile bytes)) \<Rightarrow> decode_facts cd bytes
      | Some (Linked ToNothing) \<Rightarrow> Ok None
      | Some (Linked ToOther) \<Rightarrow> Err (CacheIo blob_id)
      | Some Directory \<Rightarrow> Err (CacheIo blob_id))"

text \<open>An entry is replaced in place or added: the rename of a file written beside it, which takes the place of a file
  or of a link, not of what the link leads to, and fails on a directory.\<close>

fun set_entry :: "'k \<Rightarrow> 'v \<Rightarrow> ('k \<times> 'v) list \<Rightarrow> ('k \<times> 'v) list" where
  "set_entry k v [] = [(k, v)]"
| "set_entry k v ((k', v') # xs) = (if k' = k then (k, v) # xs else (k', v') # set_entry k v xs)"

definition object_put :: "facts_codec \<Rightarrow> object_cache \<Rightarrow> string \<Rightarrow> factset \<Rightarrow> object_cache \<times> (cache_error + unit)" where
  "object_put cd c blob_id facts =
     (let (shard, name) = path_for blob_id;
          es = (case map_of (oc_shards c) shard of Some es \<Rightarrow> es | None \<Rightarrow> []);
          c1 = c\<lparr>oc_shards := set_entry shard es (oc_shards c)\<rparr>
      in if map_of es name = Some Directory then (c1, Err (CacheIo blob_id))
         else (c1\<lparr>oc_shards := set_entry shard (set_entry name (Regular (cd_print cd facts)) es) (oc_shards c1)\<rparr>, Ok ()))"

section \<open>The sweep\<close>

record object_sweep =
  ow_scanned :: nat
  ow_retained :: nat
  ow_removed :: nat
  ow_retained_bytes :: nat
  ow_freed_bytes :: nat
  ow_raced :: nat
  ow_failed :: nat
  ow_skipped :: nat

definition object_sweep_default :: object_sweep where
  "object_sweep_default = \<lparr>ow_scanned = 0, ow_retained = 0, ow_removed = 0, ow_retained_bytes = 0,
     ow_freed_bytes = 0, ow_raced = 0, ow_failed = 0, ow_skipped = 0\<rparr>"

text \<open>What happens to a file between the listing of its directory and the sweep's calls on it.\<close>

datatype fate = Steady | GoneBeforeStat | GoneBeforeRemove | Undeletable

type_synonym sweep_fates = "string \<Rightarrow> string \<Rightarrow> fate"

text \<open>One entry of a shard: whether it is still there, the caller's tally after \<open>retain\<close>, and the report.\<close>

definition sweep_entry :: "sweep_fates \<Rightarrow> string \<Rightarrow> ('t \<Rightarrow> string \<Rightarrow> 't \<times> bool) \<Rightarrow> 't \<times> object_sweep
    \<Rightarrow> string \<times> cache_file \<Rightarrow> bool \<times> 't \<times> object_sweep" where
  "sweep_entry fates shard retain acc entry =
     (let (t, rep) = acc; (name, file) = entry
      in case (if utf8_valid name then strip_suffix ''.json'' name else None) of
        None \<Rightarrow> (True, t, rep\<lparr>ow_skipped := ow_skipped rep + 1\<rparr>)
      | Some rest \<Rightarrow>
          if fates shard name = GoneBeforeStat
          then (False, t, rep\<lparr>ow_scanned := ow_scanned rep + 1, ow_raced := ow_raced rep + 1\<rparr>)
          else case file of
            Regular content \<Rightarrow>
              let rep = rep\<lparr>ow_scanned := ow_scanned rep + 1\<rparr>; (t, keep) = retain t (shard @ rest)
              in if keep
                 then (True, t, rep\<lparr>ow_retained := ow_retained rep + 1, ow_retained_bytes := ow_retained_bytes rep + length content\<rparr>)
                 else (case fates shard name of
                     GoneBeforeRemove \<Rightarrow> (False, t, rep\<lparr>ow_raced := ow_raced rep + 1\<rparr>)
                   | Undeletable \<Rightarrow> (True, t, rep\<lparr>ow_failed := ow_failed rep + 1\<rparr>)
                   | _ \<Rightarrow> (False, t, rep\<lparr>ow_removed := ow_removed rep + 1, ow_freed_bytes := ow_freed_bytes rep + length content\<rparr>))
          | _ \<Rightarrow> (True, t, rep\<lparr>ow_skipped := ow_skipped rep + 1\<rparr>))"

fun sweep_shard :: "sweep_fates \<Rightarrow> string \<Rightarrow> ('t \<Rightarrow> string \<Rightarrow> 't \<times> bool) \<Rightarrow> 't \<times> object_sweep
    \<Rightarrow> (string \<times> cache_file) list \<Rightarrow> (string \<times> cache_file) list \<times> 't \<times> object_sweep" where
  "sweep_shard fates shard retain acc [] = ([], acc)"
| "sweep_shard fates shard retain acc (e # es) =
     (let (stays, acc1) = sweep_entry fates shard retain acc e;
          (kept, acc2) = sweep_shard fates shard retain acc1 es
      in (if stays then e # kept else kept, acc2))"

fun sweep_shards :: "sweep_fates \<Rightarrow> ('t \<Rightarrow> string \<Rightarrow> 't \<times> bool) \<Rightarrow> 't \<times> object_sweep
    \<Rightarrow> (string \<times> (string \<times> cache_file) list) list \<Rightarrow> (string \<times> (string \<times> cache_file) list) list \<times> 't \<times> object_sweep" where
  "sweep_shards fates retain acc [] = ([], acc)"
| "sweep_shards fates retain acc ((shard, es) # shards) =
     (let (es1, acc1) = (if utf8_valid shard then sweep_shard fates shard retain acc es
                         else (es, fst acc, (snd acc)\<lparr>ow_skipped := ow_skipped (snd acc) + 1\<rparr>));
          (shards1, acc2) = sweep_shards fates retain acc1 shards
      in ((shard, es1) # shards1, acc2))"

definition object_sweep_run :: "sweep_fates \<Rightarrow> ('t \<Rightarrow> string \<Rightarrow> 't \<times> bool) \<Rightarrow> 't \<Rightarrow> object_cache
    \<Rightarrow> object_cache \<times> 't \<times> object_sweep" where
  "object_sweep_run fates retain t c =
     (let (shards, acc) = sweep_shards fates retain (t, object_sweep_default\<lparr>ow_skipped := oc_strays c\<rparr>) (oc_shards c)
      in (c\<lparr>oc_shards := shards\<rparr>, acc))"

record generation_tally =
  gt_current :: nat
  gt_recent :: nat
  gt_ahead :: nat
  gt_unrecognised :: nat

record reclaim_report =
  rr_sweep :: object_sweep
  rr_kept_current :: nat
  rr_kept_recent :: nat
  rr_kept_ahead :: nat
  rr_kept_unrecognised :: nat

definition kept_total :: "reclaim_report \<Rightarrow> nat" where
  "kept_total r = rr_kept_current r + rr_kept_recent r + rr_kept_ahead r + rr_kept_unrecognised r"

definition retain_generation :: "nat \<Rightarrow> generation_tally \<Rightarrow> string \<Rightarrow> generation_tally \<times> bool" where
  "retain_generation keep t key =
     (let current = EXTRACT_BASE_VERSION; oldest_kept = current - keep
      in case key_generation key of
        None \<Rightarrow> (t\<lparr>gt_unrecognised := gt_unrecognised t + 1\<rparr>, True)
      | Some generation \<Rightarrow>
          if current < generation then (t\<lparr>gt_ahead := gt_ahead t + 1\<rparr>, True)
          else if generation = current then (t\<lparr>gt_current := gt_current t + 1\<rparr>, True)
          else if oldest_kept \<le> generation then (t\<lparr>gt_recent := gt_recent t + 1\<rparr>, True)
          else (t, False))"

definition sweep_superseded :: "sweep_fates \<Rightarrow> object_cache \<Rightarrow> nat \<Rightarrow> object_cache \<times> reclaim_report" where
  "sweep_superseded fates c keep =
     (case object_sweep_run fates (retain_generation keep) \<lparr>gt_current = 0, gt_recent = 0, gt_ahead = 0, gt_unrecognised = 0\<rparr> c of
        (c', t, sweep) \<Rightarrow>
          (c', \<lparr>rr_sweep = sweep, rr_kept_current = gt_current t, rr_kept_recent = gt_recent t,
                rr_kept_ahead = gt_ahead t, rr_kept_unrecognised = gt_unrecognised t\<rparr>))"

section \<open>What the sweep leaves\<close>

text \<open>The names of a directory are distinct.\<close>

definition dir_ok :: "object_cache \<Rightarrow> bool" where
  "dir_ok c \<longleftrightarrow> distinct (map fst (oc_shards c)) \<and> (\<forall>es \<in> snd ` set (oc_shards c). distinct (map fst es))"

definition stays :: "sweep_fates \<Rightarrow> (string \<Rightarrow> bool) \<Rightarrow> string \<Rightarrow> string \<times> cache_file \<Rightarrow> bool" where
  "stays fates P shard entry =
     (case (if utf8_valid (fst entry) then strip_suffix ''.json'' (fst entry) else None) of
        None \<Rightarrow> True
      | Some rest \<Rightarrow> fates shard (fst entry) \<noteq> GoneBeforeStat
           \<and> ((\<forall>bytes. snd entry \<noteq> Regular bytes) \<or> P (shard @ rest) \<or> fates shard (fst entry) = Undeletable))"

lemma sweep_entry_stays:
  assumes "\<And>t key. snd (retain t key) = P key"
  shows "fst (sweep_entry fates shard retain acc e) = stays fates P shard e"
  by (cases "snd e"; cases "fates shard (fst e)"; cases "utf8_valid (fst e)"; cases "strip_suffix ''.json'' (fst e)")
    (simp_all add: sweep_entry_def stays_def Let_def split_beta assms)

lemma sweep_shard_filter:
  assumes "\<And>t key. snd (retain t key) = P key"
  shows "fst (sweep_shard fates shard retain acc es) = filter (stays fates P shard) es"
proof (induction es arbitrary: acc)
  case (Cons e es)
  show ?case using sweep_entry_stays [where retain = retain, OF assms, of fates shard acc e] Cons
    by (simp add: split_beta Let_def)
qed simp

lemma sweep_shards_map:
  assumes "\<And>t key. snd (retain t key) = P key"
  shows "fst (sweep_shards fates retain acc shards) =
    map (\<lambda>(shard, es). (shard, if utf8_valid shard then filter (stays fates P shard) es else es)) shards"
proof (induction shards arbitrary: acc)
  case (Cons s shards)
  obtain shard es where s: "s = (shard, es)" by (cases s)
  show ?case using sweep_shard_filter [where retain = retain, OF assms, of fates shard acc es] Cons
    by (simp add: s split_beta Let_def)
qed simp

lemma map_of_filter_distinct:
  "distinct (map fst xs) \<Longrightarrow> map_of (filter Q xs) k = (case map_of xs k of Some v \<Rightarrow> if Q (k, v) then Some v else None | None \<Rightarrow> None)"
  by (induction xs) (auto simp: map_of_eq_None_iff split: option.splits dest: map_of_SomeD intro: rev_image_eqI)

lemma file_at_swept:
  assumes "\<And>t key. snd (retain t key) = P key" and ok: "dir_ok c"
  shows "file_at (fst (object_sweep_run fates retain t c)) (shard, name) =
    (case file_at c (shard, name) of
       Some f \<Rightarrow> if utf8_valid shard \<and> \<not> stays fates P shard (name, f) then None else Some f
     | None \<Rightarrow> None)"
proof -
  have shards: "oc_shards (fst (object_sweep_run fates retain t c)) =
      map (\<lambda>(shard, es). (shard, if utf8_valid shard then filter (stays fates P shard) es else es)) (oc_shards c)"
    using sweep_shards_map [where retain = retain, OF assms(1), of fates "(t, object_sweep_default\<lparr>ow_skipped := oc_strays c\<rparr>)" "oc_shards c"]
    by (simp add: object_sweep_run_def split_beta Let_def)
  have at: "map_of (map (\<lambda>(shard, es). (shard, f shard es)) xs) k = map_option (f k) (map_of xs k)" for f and xs :: "('x \<times> 'y) list" and k
    by (induction xs) auto
  show ?thesis
  proof (cases "map_of (oc_shards c) shard")
    case (Some es)
    with ok have "distinct (map fst es)" by (auto simp: dir_ok_def dest: map_of_SomeD)
    with Some show ?thesis
      by (simp add: file_at_def shards at map_of_filter_distinct split: option.splits)
  qed (simp add: file_at_def shards at)
qed

section \<open>What the sweep counts\<close>

definition balanced :: "generation_tally \<times> object_sweep \<Rightarrow> bool" where
  "balanced acc \<longleftrightarrow> (case acc of (t, rep) \<Rightarrow>
     ow_scanned rep = ow_retained rep + ow_removed rep + ow_raced rep + ow_failed rep
     \<and> ow_retained rep = gt_current t + gt_recent t + gt_ahead t + gt_unrecognised t)"

lemma sweep_entry_balanced:
  "balanced acc \<Longrightarrow> balanced (snd (sweep_entry fates shard (retain_generation keep) acc e))"
  by (cases acc; cases e; cases "snd e"; cases "fates shard (fst e)"; cases "utf8_valid (fst e)";
      cases "strip_suffix ''.json'' (fst e)")
    (auto simp: balanced_def sweep_entry_def retain_generation_def Let_def split: option.splits if_splits)

lemma sweep_shard_balanced:
  "balanced acc \<Longrightarrow> balanced (snd (sweep_shard fates shard (retain_generation keep) acc es))"
  by (induction es arbitrary: acc) (simp_all add: split_beta Let_def sweep_entry_balanced)

lemma sweep_shards_balanced:
  "balanced acc \<Longrightarrow> balanced (snd (sweep_shards fates (retain_generation keep) acc shards))"
proof (induction shards arbitrary: acc)
  case (Cons s shards)
  have "balanced (fst acc, (snd acc)\<lparr>ow_skipped := n\<rparr>)" for n
    using Cons.prems by (simp add: balanced_def split_beta)
  with Cons show ?case by (cases s) (simp add: split_beta Let_def sweep_shard_balanced)
qed simp

section \<open>Keys the program writes\<close>

lemma length_hex16 [simp]: "length (hex16 w) = 16"
  by (simp add: hex16_def)

lemma hex_digit_hex:
  assumes "d < 16"
  shows "is_ascii_hexdigit (hex_digit d) \<and> hex_digit d \<noteq> CHR ''-''"
proof -
  have "hex_digit d \<in> set ''0123456789abcdef''"
    unfolding hex_digit_def by (rule nth_mem) (use assms in simp)
  moreover have "\<forall>c \<in> set ''0123456789abcdef''. is_ascii_hexdigit c \<and> c \<noteq> CHR ''-''"
    by (simp add: is_ascii_hexdigit_def is_ascii_digit_def)
  ultimately show ?thesis by blast
qed

lemma hex16_chars: "list_all is_ascii_hexdigit (hex16 w)" "CHR ''-'' \<notin> set (hex16 w)"
  unfolding hex16_def list_all_iff set_map using hex_digit_hex [OF mod_less_divisor [of 16]] by fastforce+

lemma EXTRACT_VERSION_generation: "EXTRACT_VERSION ft mod FEATURE_NAMESPACE_STRIDE = EXTRACT_BASE_VERSION" "int (EXTRACT_VERSION ft) < 2 ^ 32"
  by (simp_all add: EXTRACT_VERSION_def EXTRACT_BASE_VERSION_def FEATURE_NAMESPACE_STRIDE_def)

lemma key_generation_written: "key_generation (cache_key ft path oid env) = Some EXTRACT_BASE_VERSION"
proof -
  let ?v = "show_nat (EXTRACT_VERSION ft)"
  have v: "CHR ''-'' \<notin> set ?v"
    using show_nat_digits [of "EXTRACT_VERSION ft"] by (auto simp: list_all_iff is_ascii_digit_def)
  have "rsplit_once ''-e'' (cache_key ft path oid env) = Some (oid @ ''-'' @ hex16 (fnv1a64 path) @ ''-v'' @ ?v, hex16 env)"
    using rsplit_once_last [of "CHR ''-''" "hex16 env" "''e''" "oid @ ''-'' @ hex16 (fnv1a64 path) @ ''-v'' @ ?v"] hex16_chars(2)
    by (simp add: cache_key_def)
  moreover have "rsplit_once ''-v'' (oid @ ''-'' @ hex16 (fnv1a64 path) @ ''-v'' @ ?v) = Some (oid @ ''-'' @ hex16 (fnv1a64 path), ?v)"
    using rsplit_once_last [of "CHR ''-''" ?v "''v''" "oid @ ''-'' @ hex16 (fnv1a64 path)"] v by simp
  ultimately show ?thesis
    using EXTRACT_VERSION_generation [of ft] hex16_chars(1) [of env] by (simp add: key_generation_def parse_nat_def)
qed

lemma base16_inj:
  "(\<And>i. i < k \<Longrightarrow> m div 16 ^ i mod 16 = n div 16 ^ i mod 16) \<Longrightarrow> m < 16 ^ k \<Longrightarrow> n < 16 ^ k \<Longrightarrow> m = (n :: nat)"
proof (induction k arbitrary: m n)
  case (Suc k)
  have "m div 16 = n div 16"
  proof (rule Suc.IH)
    show "m div 16 div 16 ^ i mod 16 = n div 16 div 16 ^ i mod 16" if "i < k" for i
      using Suc.prems(1) [of "Suc i"] that by (simp add: div_mult2_eq)
  qed (use Suc.prems(2,3) in \<open>simp_all add: less_mult_imp_div_less mult.commute\<close>)
  moreover have "m mod 16 = n mod 16" using Suc.prems(1) [of 0] by simp
  ultimately show ?case by (metis div_mult_mod_eq)
qed simp

lemma hex_digit_inj: "d < 16 \<Longrightarrow> e < 16 \<Longrightarrow> hex_digit d = hex_digit e \<Longrightarrow> d = e"
proof -
  have "distinct ''0123456789abcdef''" by simp
  moreover have "length ''0123456789abcdef'' = 16" by simp
  ultimately show "d < 16 \<Longrightarrow> e < 16 \<Longrightarrow> hex_digit d = hex_digit e \<Longrightarrow> d = e"
    unfolding hex_digit_def by (metis nth_eq_iff_index_eq)
qed

lemma hex16_inj: "hex16 v = hex16 w \<longleftrightarrow> v = w"
proof
  assume eq: "hex16 v = hex16 w"
  have "unat v div 16 ^ i mod 16 = unat w div 16 ^ i mod 16" if "i < 16" for i
  proof -
    have "15 - i \<in> {0..<16}" "15 - (15 - i) = i" using that by auto
    with eq [unfolded hex16_def map_eq_conv set_upt]
    have "hex_digit (unat v div 16 ^ i mod 16) = hex_digit (unat w div 16 ^ i mod 16)" by metis
    then show ?thesis by (rule hex_digit_inj [rotated 2]) simp_all
  qed
  moreover have "unat v < 16 ^ 16" "unat w < 16 ^ 16"
    using unsigned_less [of v, where ?'a = nat] unsigned_less [of w, where ?'a = nat] by simp_all
  ultimately show "v = w" by (metis base16_inj word_unat_eq_iff)
qed simp

lemma cache_key_inj:
  "cache_key ft path oid env = cache_key ft path' oid' env' \<longleftrightarrow> oid = oid' \<and> fnv1a64 path = fnv1a64 path' \<and> env = env'"
proof
  assume eq: "cache_key ft path oid env = cache_key ft path' oid' env'"
  let ?v = "''-v'' @ show_nat (EXTRACT_VERSION ft) @ ''-e''"
  have "(oid @ ''-'') @ (hex16 (fnv1a64 path) @ ?v @ hex16 env) = (oid' @ ''-'') @ (hex16 (fnv1a64 path') @ ?v @ hex16 env')"
    using eq by (simp add: cache_key_def)
  then have "oid @ ''-'' = oid' @ ''-'' \<and> hex16 (fnv1a64 path) @ ?v @ hex16 env = hex16 (fnv1a64 path') @ ?v @ hex16 env'"
    by (subst (asm) append_eq_append_conv) simp_all
  then show "oid = oid' \<and> fnv1a64 path = fnv1a64 path' \<and> env = env'"
    by (simp add: append_eq_append_conv hex16_inj)
qed (simp add: cache_key_def)

section \<open>Reading back\<close>

lemma map_of_set_entry [simp]: "map_of (set_entry k v xs) = (map_of xs)(k \<mapsto> v)"
  by (induction k v xs rule: set_entry.induct) (auto simp: fun_eq_iff)

lemma set_entry_keys [simp]: "fst ` set (set_entry k v xs) = insert k (fst ` set xs)"
  by (induction k v xs rule: set_entry.induct) (simp_all add: insert_commute)

lemma set_entry_distinct: "distinct (map fst xs) \<Longrightarrow> distinct (map fst (set_entry k v xs))"
  by (induction k v xs rule: set_entry.induct) auto

lemma set_entry_vals: "snd ` set (set_entry k v xs) \<subseteq> insert v (snd ` set xs)"
  by (induction k v xs rule: set_entry.induct) auto

lemma path_for_inj: "path_for a = path_for b \<longleftrightarrow> a = b"
  by (auto simp: path_for_def) (metis append_take_drop_id)

lemma object_put_file:
  assumes "object_put cd c blob_id facts = (c', Ok ())"
  shows "file_at c' loc = (if loc = path_for blob_id then Some (Regular (cd_print cd facts)) else file_at c loc)"
  using assms by (cases loc) (auto simp: object_put_def file_at_def path_for_def Let_def split: if_splits option.splits)

lemma object_put_failed:
  assumes "object_put cd c blob_id facts = (c', Err e)"
  shows "file_at c' loc = file_at c loc"
  using assms by (cases loc) (auto simp: object_put_def file_at_def path_for_def Let_def split: if_splits option.splits)

lemma object_get_put:
  assumes "object_put cd c blob_id facts = (c', Ok ())"
  shows "object_get cd c' other = (if other = blob_id
    then (case cd_parse cd (cd_print cd facts) of Some f \<Rightarrow> Ok (Some f) | None \<Rightarrow> Err CacheJson) else object_get cd c other)"
  by (simp add: object_get_def decode_facts_def object_put_file [OF assms] path_for_inj)

lemma set_shard_dir_ok:
  assumes "dir_ok d" "distinct (map fst v)"
  shows "dir_ok (d\<lparr>oc_shards := set_entry shard v (oc_shards d)\<rparr>)"
proof -
  have "distinct (map fst es)" if "es \<in> snd ` set (set_entry shard v (oc_shards d))" for es
    using that set_entry_vals [of shard v "oc_shards d"] assms unfolding dir_ok_def by blast
  with assms(1) show ?thesis by (simp add: dir_ok_def set_entry_distinct)
qed

lemma object_put_dir_ok:
  assumes ok: "dir_ok c"
  shows "dir_ok (fst (object_put cd c blob_id facts))"
proof -
  obtain shard name where p: "path_for blob_id = (shard, name)" by (cases "path_for blob_id")
  define es where "es = (case map_of (oc_shards c) shard of Some es \<Rightarrow> es | None \<Rightarrow> [])"
  have "distinct (map fst es)" using ok by (auto simp: dir_ok_def es_def dest: map_of_SomeD split: option.splits)
  note first = set_shard_dir_ok [OF ok this, of shard] and es = set_entry_distinct [OF this]
  from set_shard_dir_ok [OF first es, of shard] first show ?thesis
    by (simp add: object_put_def p Let_def es_def [symmetric])
qed

lemma strip_suffix_append [simp]: "strip_suffix t (a @ t) = Some a"
  by (simp add: strip_suffix_def ends_with_def)

text \<open>Which keys the sweep may take, and what it leaves of the files.\<close>

definition kept_key :: "nat \<Rightarrow> string \<Rightarrow> bool" where
  "kept_key keep key \<longleftrightarrow> (\<forall>g. key_generation key = Some g \<longrightarrow> EXTRACT_BASE_VERSION \<le> g + keep)"

lemma sweep_superseded_files:
  assumes "dir_ok c" and "sweep_superseded fates c keep = (c', rep)"
  shows "dir_ok c'" "object_get cd c' key = object_get cd c key \<or> object_get cd c' key = Ok None"
    "fates (fst (path_for key)) (snd (path_for key)) \<noteq> GoneBeforeStat \<Longrightarrow> kept_key keep key \<Longrightarrow>
       object_get cd c' key = object_get cd c key"
    "ow_scanned (rr_sweep rep) = ow_retained (rr_sweep rep) + ow_removed (rr_sweep rep) + ow_raced (rr_sweep rep) + ow_failed (rr_sweep rep)"
    "kept_total rep = ow_retained (rr_sweep rep)"
proof -
  let ?P = "kept_key keep"
  let ?t0 = "\<lparr>gt_current = 0, gt_recent = 0, gt_ahead = 0, gt_unrecognised = 0\<rparr>"
  have P: "snd (retain_generation keep t key) = ?P key" for t key
    by (auto simp: retain_generation_def kept_key_def Let_def split: option.splits)
  obtain c1 t sw where run1: "object_sweep_run fates (retain_generation keep) ?t0 c = (c1, t, sw)" by (metis prod_cases3)
  with assms(2) have run: "object_sweep_run fates (retain_generation keep) ?t0 c = (c', t, sw)"
    and rep: "rep = \<lparr>rr_sweep = sw, rr_kept_current = gt_current t, rr_kept_recent = gt_recent t,
                rr_kept_ahead = gt_ahead t, rr_kept_unrecognised = gt_unrecognised t\<rparr>"
    by (auto simp: sweep_superseded_def)
  note at = file_at_swept [where retain = "retain_generation keep" and t = ?t0, OF P assms(1), of fates, unfolded run fst_conv]
  have same: "file_at c' (path_for key) = file_at c (path_for key) \<or> file_at c' (path_for key) = None" for key
    by (cases "path_for key") (simp add: at split: option.splits)
  have live: "file_at c' (path_for key) = file_at c (path_for key)"
    if "fates (fst (path_for key)) (snd (path_for key)) \<noteq> GoneBeforeStat" "?P key" for key
    using that at [of "take 2 key" "drop 2 key @ ''.json''"]
    by (auto simp: path_for_def stays_def simp del: append_assoc split: option.splits)
  have "balanced (snd (sweep_shards fates (retain_generation keep) (?t0, object_sweep_default\<lparr>ow_skipped := oc_strays c\<rparr>) (oc_shards c)))"
    by (rule sweep_shards_balanced) (simp add: balanced_def object_sweep_default_def)
  then have bal: "balanced (t, sw)"
    using run by (simp add: object_sweep_run_def split_beta Let_def)
  have "oc_shards c' = map (\<lambda>(shard, es). (shard, if utf8_valid shard then filter (stays fates ?P shard) es else es)) (oc_shards c)"
    using run sweep_shards_map [where retain = "retain_generation keep", OF P, of fates "(?t0, object_sweep_default\<lparr>ow_skipped := oc_strays c\<rparr>)" "oc_shards c"]
    by (auto simp: object_sweep_run_def split_beta Let_def)
  then show "dir_ok c'"
    using assms(1) by (auto simp: dir_ok_def comp_def split_beta distinct_map_filter)
  have get: "file_at c' (path_for key) = file_at c (path_for key) \<Longrightarrow> object_get cd c' key = object_get cd c key"
    "file_at c' (path_for key) = None \<Longrightarrow> object_get cd c' key = Ok None" for key
    by (simp_all add: object_get_def)
  from get same show "object_get cd c' key = object_get cd c key \<or> object_get cd c' key = Ok None" by blast
  from get live show "fates (fst (path_for key)) (snd (path_for key)) \<noteq> GoneBeforeStat \<Longrightarrow> kept_key keep key \<Longrightarrow>
       object_get cd c' key = object_get cd c key" by blast
  from bal show "ow_scanned (rr_sweep rep) = ow_retained (rr_sweep rep) + ow_removed (rr_sweep rep) + ow_raced (rr_sweep rep) + ow_failed (rr_sweep rep)"
    "kept_total rep = ow_retained (rr_sweep rep)" by (simp_all add: rep balanced_def kept_total_def)
qed

text \<open>C26. The maintenance sweep takes superseded entries only: an entry whose key does not name a generation more
  than \<open>keep\<close> behind the current one reads after the sweep what it read before, the keys this binary asks for among
  them, unless another process deletes it; every other entry reads the same or is absent. The report accounts for every entry it
  looked at, and for every entry it kept.\<close>

theorem sweep_keeps_live:
  assumes "dir_ok c"
  shows "let (c', rep) = sweep_superseded fates c keep in dir_ok c'
     \<and> (\<forall>key. object_get cd c' key = object_get cd c key \<or> object_get cd c' key = Ok None)
     \<and> (\<forall>key. fates (fst (path_for key)) (snd (path_for key)) \<noteq> GoneBeforeStat \<longrightarrow>
          (\<forall>g. key_generation key = Some g \<longrightarrow> EXTRACT_BASE_VERSION \<le> g + keep) \<longrightarrow>
          object_get cd c' key = object_get cd c key)
     \<and> (\<forall>ft path oid env. let key = cache_key ft path oid env in
          fates (fst (path_for key)) (snd (path_for key)) \<noteq> GoneBeforeStat \<longrightarrow> object_get cd c' key = object_get cd c key)
     \<and> ow_scanned (rr_sweep rep) = ow_retained (rr_sweep rep) + ow_removed (rr_sweep rep)
          + ow_raced (rr_sweep rep) + ow_failed (rr_sweep rep)
     \<and> kept_total rep = ow_retained (rr_sweep rep)"
proof -
  obtain c' rep where run: "sweep_superseded fates c keep = (c', rep)" by (metis prod.exhaust)
  note f = sweep_superseded_files [OF assms run]
  have "kept_key keep (cache_key ft path oid env)" for ft path oid env
    by (simp add: kept_key_def key_generation_written)
  with f show ?thesis unfolding run Let_def prod.case kept_key_def [symmetric] by blast
qed

definition sample_objects :: object_cache where
  "sample_objects = \<lparr>oc_shards = [(''ab'', [(''c-0000000000000000-v15-e0000000000000000.json'', Regular ''old''),
     (''c-0000000000000000-v117-e0000000000000000.json'', Regular ''new''), (''notes.txt'', Regular ''?'')])], oc_strays = 1\<rparr>"

lemma sample_objects_swept:
  "let (c', rep) = sweep_superseded (\<lambda>_ _. Steady) sample_objects DEFAULT_KEEP_GENERATIONS
   in object_contains c' ''abc-0000000000000000-v117-e0000000000000000''
      \<and> \<not> object_contains c' ''abc-0000000000000000-v15-e0000000000000000''
      \<and> ow_removed (rr_sweep rep) = 1 \<and> ow_freed_bytes (rr_sweep rep) = 3 \<and> ow_skipped (rr_sweep rep) = 2"
  by code_simp

definition sample_codec :: facts_codec where
  "sample_codec = \<lparr>cd_print = (\<lambda>_. ''{}''), cd_parse = (\<lambda>s. if s = ''{}'' then Some factset_new else None)\<rparr>"

theorem sweep_keeps_live_witness:
  "dir_ok sample_objects
   \<and> kept_total (snd (sweep_superseded (\<lambda>_ _. Steady) sample_objects DEFAULT_KEEP_GENERATIONS)) = 1
   \<and> (\<forall>ft path oid env. object_get sample_codec (fst (sweep_superseded (\<lambda>_ _. Steady) sample_objects DEFAULT_KEEP_GENERATIONS))
          (cache_key ft path oid env) = object_get sample_codec sample_objects (cache_key ft path oid env))"
proof -
  have ok: "dir_ok sample_objects" by (simp add: dir_ok_def sample_objects_def)
  have "kept_total (snd (sweep_superseded (\<lambda>_ _. Steady) sample_objects DEFAULT_KEEP_GENERATIONS)) = 1" by code_simp
  with ok sweep_keeps_live [OF ok, of "\<lambda>_ _. Steady" DEFAULT_KEEP_GENERATIONS sample_codec] show ?thesis
    by (simp add: split_beta Let_def)
qed

end
