(* ===== verification/Spec2Isabelle.thy ===== *)
theory Spec2Isabelle imports QueryProps Thinking PrefixCache Slot Findings KeyedTable Memory AgentCache Clock RemotePayload RemoteCalls ContextCache Git ObjectCache begin

text \<open>
  Roteiro turns a repository into a graph of facts (files, symbols, documents, markers, and the edges
  between them), keeps the graph in SQLite, answers questions from it, and lets a local or a remote
  language model answer over it. This library models the crates that carry that logic and proves what the
  rest of the program relies on.

  \<^bold>\<open>The program and the theories.\<close>

  Extractors produce fact sets; the store reconciles them with what it holds; reports read the store.

  \<^item> \<open>Model\<close>: \<open>rto-graph/src/provenance.rs\<close>, \<open>model.rs\<close>, \<open>links.rs\<close>. Provenances, kinds, nodes, edges, fact
    sets and the placeholders for nodes of another repository. A struct is a record, an enum a datatype
    with the source's constructors, and the tokens of \<open>as_str\<close> and \<open>from_token\<close> are functions.
  \<^item> \<open>Store\<close>, \<open>Imports\<close>, \<open>ContextCache\<close>: \<open>store.rs\<close> and the tables of \<open>migrations.rs\<close>. A table is a list of
    rows with the SQL's row ids; a write transaction is a function from the store to an error or a new store
    (\<open>upsert_node\<close>, \<open>insert_edge\<close>, \<open>rebuild\<close>, \<open>reconcile\<close>, \<open>apply_import_layer\<close>, \<open>reapply_imports\<close>). On
    an error the caller keeps the old store, which is the rollback.
  \<^item> \<open>PathQuery\<close>, \<open>Query\<close>: \<open>query.rs\<close>. The breadth-first search of \<open>Query::path\<close> and the reports (debt, debt
    density, config secrets, coupling, explain, listing, search). \<open>Paths\<close>: \<open>paths.rs\<close>, the glob matcher and the
    policy that says which paths are read or mined. The secret-name test of \<open>config_keys.rs\<close> is in \<open>Query\<close>.
  \<^item> \<open>Git\<close>: \<open>git.rs\<close>, what the code makes of the trees, changes, index and files that gix and the file system
    answer. \<open>ObjectCache\<close>: \<open>cache.rs\<close> with the keys and the sweep of \<open>sync.rs\<close>, the cache of extracted facts.
  \<^item> \<open>Findings\<close>: \<open>findings.rs\<close>, what analyzers reported: finding keys, runs and the two tables.
  \<^item> \<open>Memory\<close> and \<open>AgentCache\<close>: the two tiers of \<open>memory.rs\<close>; records that are superseded and forgotten, and
    the derived values swept under a budget.
  \<^item> \<open>Clock\<close>: \<open>clock.rs\<close>, timestamps; \<open>Decimal\<close> and \<open>Strings\<close>: what the program uses of the standard library.
  \<^item> \<open>Thinking\<close>, \<open>PrefixCache\<close>, \<open>Slot\<close>: \<open>rto-llama\<close>; the reasoning filter, the cache of model states and the
    slots that hold one engine at a time.
  \<^item> \<open>Consent\<close>, \<open>Remote\<close>: \<open>layering.rs\<close>, \<open>trust.rs\<close> and \<open>rto-remote\<close> with the engine of
    \<open>roteiro/src/remote_engine.rs\<close>; grants by layer, the decision to call, the endpoint, the payload, the
    ledger written around a call and the reading of the answer.

  \<^bold>\<open>The interfaces.\<close>

  \<open>graph_tables\<close> (in \<open>StoreContent\<close>) is what reconciling and importing need of the node and edge tables:
    writes by key on two maps that do not mention row ids. It is interpreted on the SQL model as \<open>tables\<close>, and
    the effects of whole transactions are proved once inside it. \<open>keyed_table\<close> (in \<open>KeyedTable\<close>) is what the
    artifact tables promise: a write of a key replaces what the key had, or is refused and touches nothing. It is
    interpreted on the findings of a layer (\<open>findings_tables\<close>) and on the node contexts (\<open>context_cache\<close>); its
    result is that a history of requests refines a map.

  \<^bold>\<open>What is shown.\<close>

  \<^item> The store (\<open>StoreInv\<close>, \<open>StoreContent\<close>, \<open>Reconcile\<close>, \<open>Layers\<close>, \<open>StoreProps\<close>): every sequence of writes keeps
    keys unique, edges attached and columns decodable, so reads do not fail; reconciling a store with a
    snapshot leaves what a rebuild from it would; an import layer changes what it states, applying it twice is
    applying it once, withdrawing it takes only what no other layer claims, and a rebuild followed by a
    reapplication restores it; exporting after a rebuild gives the facts back, the last
    about each node and the first about each edge. Where a fact set says two things of one node, a reconcile and a
    rebuild may differ (\<open>reconcile_repeated_node\<close>).
  \<^item> The queries (\<open>PathQuery\<close>, \<open>QueryProps\<close>, \<open>Paths\<close>, \<open>Sorting\<close>): the path found is a shortest one and is found
    whenever the nodes are connected within the depth; reports count what they say, are ranked as they say, and a
    secret's value does not influence the secret report; the glob matcher with its memo is the plain recursive
    meaning; the fingerprint encodes a policy injectively before it is hashed.
  \<^item> The artifacts (\<open>Findings\<close>, \<open>Memory\<close>, \<open>AgentCache\<close>): keys survive printing and parsing; a layer is what its last
    accepted request made it; supersession chains stay chains, and forgetting a record brings back what it superseded;
    recall is ranked; a sweep leaves the cache inside its budget unless what remains is the agent's own work.
  \<^item> The object cache (\<open>ObjectCache\<close>): a sweep deletes entries of superseded generations only.
  \<^item> The engine (\<open>Thinking\<close>, \<open>PrefixCache\<close>, \<open>Slot\<close>): the streamed answer is the answer of the whole text; the cache
    stays within its bytes and evicts the least recently used; two engines are never alive in a slot.
  \<^item> The remote tier (\<open>Consent\<close>, \<open>RemotePayload\<close>, \<open>RemoteCalls\<close>): nothing is sent without the consent of
    configuration and invocation and a record on disk first; the ledger holds an egress and an outcome for each
    call that was let go; plaintext goes to the loopback host only; the dry run discloses what the payload holds; an
    answer is handed on only when it is whole.

  \<^bold>\<open>How the code is represented.\<close>

  A \<open>str\<close> is the list of its UTF-8 bytes (\<open>chars\<close> decodes it where the code counts or trims characters).
  Errors are the left side of a sum, and a panic is a value of \<open>outcome\<close>. Sizes are naturals where the code's
  \<open>usize\<close> cannot overflow before memory ends; where width matters it is written out: spans are 32-bit words read
  from 64-bit columns, cache bytes saturate, the clock wraps at 64 bits, hashes are words. A double is its 64 bits,
  compared by its order, so the sign SQLite may drop from a
  confidence of -0.0 is kept; arithmetic on doubles is a parameter. A JSON column holds the value it encodes; the
  columns that only record when a row was written (\<open>imported_at\<close>, \<open>ingested_at\<close>) are left out.
  A \<open>BTreeMap\<close> or \<open>BTreeSet\<close> is a sorted list. A mutex makes an operation one step.

  \<^bold>\<open>Parameters.\<close> Code that is not in the repository is an argument of the definitions that use it: per-KLOC
  and instability quotients, Unicode lower-casing, the two decay curves and the product of doubles, the state of the
  llama engine, the printer and the parser of JSON, the clock, the disk, the network, and the selection of the
  context nodes of a remote request.

  \<^bold>\<open>Termination.\<close> No fuel is used. \<open>bfs\<close> ends because a step queues a node the first time it sees it: the measure is
  twice the number of stored keys not seen yet plus the length of the queue. \<open>backtrack\<close> follows whatever map it is given, so it is
  a partial function; \<open>path_shortest\<close> shows that its result exists wherever \<open>path\<close> calls it. The glob matcher
  ends by its pattern and then its text. The other loops run over a list.

  \<^bold>\<open>Not modelled.\<close> Argument parsing, terminal and file output of the command line; configuration files
  (decoding by serde); extraction from syntax trees, PDF and images (it rests on external grammars and libraries);
  reading of git objects and worktrees by gix, authorship; media decoding; the model catalogue; prompts and scores of the
  review; the llama.cpp bindings; the HTTP server, renderers and the MCP server (routing and
  wording over the queries modelled here); the sandboxes and report decoders of analyzers; the
  migration runner. Of the modelled files, sentences that only explain an error are not modelled.
\<close>

end
